(* ===== verification/Prelude.thy ===== *)
theory Prelude
  imports Main "HOL-Library.Word"
begin

text \<open>
  Shared vocabulary of the development: bytes, the 32-bit counters of the
  connection pools, strings as Go's byte strings with the few functions of
  package strings that the proxy calls, and the lemma collections that the
  component theories add to.
\<close>

named_theorems frame_simps \<open>what an operation leaves unchanged\<close>
named_theorems count_simps \<open>how an operation moves a connection counter\<close>

section \<open>Machine integers\<close>

type_synonym byte = "8 word"
type_synonym int32 = "32 word"

text \<open>Go's conversion \<open>int32(n)\<close> of a 64-bit int keeps the low 32 bits.\<close>

definition to_int32 :: "int \<Rightarrow> int32" where
  "to_int32 n = word_of_int n"

lemma sint_to_int32:
  assumes "- (2 ^ 31) \<le> n" and "n < 2 ^ 31"
  shows "sint (to_int32 n) = n"
  using assms unfolding to_int32_def sint_sbintrunc'
  by (intro signed_take_bit_int_eq_self) simp_all

lemma sint32_bounds: "- (2 ^ 31) \<le> sint (w :: int32)" "sint (w :: int32) < 2 ^ 31"
  using sint_ge [of w] sint_lt [of w] by simp_all

lemma sint32_add_1:
  assumes "sint (w :: int32) < 2 ^ 31 - 1"
  shows "sint (w + 1) = sint w + 1"
proof -
  have "word_of_int (sint w + 1) = w + 1" by simp
  then have "sint (w + 1) = sint (to_int32 (sint w + 1))"
    by (simp add: to_int32_def)
  also have "\<dots> = sint w + 1"
    using assms sint32_bounds [of w] by (intro sint_to_int32) simp_all
  finally show ?thesis .
qed

lemma sint32_diff_1:
  assumes "- (2 ^ 31) < sint (w :: int32)"
  shows "sint (w - 1) = sint w - 1"
proof -
  have "word_of_int (sint w - 1) = w - 1" by simp
  then have "sint (w - 1) = sint (to_int32 (sint w - 1))"
    by (simp add: to_int32_def)
  also have "\<dots> = sint w - 1"
    using assms sint32_bounds [of w] by (intro sint_to_int32) simp_all
  finally show ?thesis .
qed

section \<open>Strings\<close>

text \<open>Go strings are byte strings; \<open>string\<close> is a list of bytes here too.\<close>

definition HasPrefix :: "string \<Rightarrow> string \<Rightarrow> bool" where
  "HasPrefix s p \<longleftrightarrow> take (length p) s = p"

lemma HasPrefix_append [simp]: "HasPrefix (p @ s) p"
  by (simp add: HasPrefix_def)

lemma HasPrefixE:
  assumes "HasPrefix s p"
  obtains t where "s = p @ t"
  using assms append_take_drop_id [of "length p" s] unfolding HasPrefix_def by metis

lemma HasPrefix_iff: "HasPrefix s p \<longleftrightarrow> (\<exists>t. s = p @ t)"
  by (auto elim: HasPrefixE)

text \<open>\<open>strings.Split(s, sep)\<close> for a one-byte separator: never an empty result.\<close>

fun Split :: "char \<Rightarrow> string \<Rightarrow> string list" where
  "Split c [] = [[]]"
| "Split c (x # xs) =
     (if x = c then [] # Split c xs
      else (case Split c xs of [] \<Rightarrow> [[x]] | y # ys \<Rightarrow> (x # y) # ys))"

lemma Split_not_Nil [simp]: "Split c s \<noteq> []"
  by (induction s) (auto split: list.splits)

text \<open>Joining the parts with the separator gives the string back.\<close>

fun Join :: "char \<Rightarrow> string list \<Rightarrow> string" where
  "Join c [] = []"
| "Join c [x] = x"
| "Join c (x # y # ys) = x @ c # Join c (y # ys)"

lemma Join_Cons: "ys \<noteq> [] \<Longrightarrow> Join c (x # ys) = x @ c # Join c ys"
  by (cases ys) simp_all

lemma Join_Cons_Cons: "Join c ((x # y) # ys) = x # Join c (y # ys)"
  by (cases ys) simp_all

lemma Join_Split: "Join c (Split c s) = s"
proof (induction s)
  case Nil
  then show ?case by simp
next
  case (Cons x xs)
  obtain y ys where split: "Split c xs = y # ys"
    by (cases "Split c xs") auto
  with Cons show ?case by (auto simp: Join_Cons_Cons Join_Cons)
qed

lemma Split_no_sep: "c \<notin> set s \<Longrightarrow> Split c s = [s]"
  by (induction s) auto

lemma Split_append_sep: "c \<notin> set a \<Longrightarrow> Split c (a @ c # b) = a # Split c b"
  by (induction a) auto

lemma Split_Join: "xs \<noteq> [] \<Longrightarrow> \<forall>x \<in> set xs. c \<notin> set x \<Longrightarrow> Split c (Join c xs) = xs"
proof (induction xs rule: list_nonempty_induct)
  case (single x)
  then show ?case by (simp add: Split_no_sep)
next
  case (cons x xs)
  then show ?case by (simp add: Join_Cons Split_append_sep)
qed

text \<open>
  \<open>strings.TrimSpace\<close> removes leading and trailing white space runes. The runes
  of \<open>unicode.IsSpace\<close> are listed by their UTF-8 encodings, shortest first; no
  encoding is a prefix or a suffix of another.
\<close>

definition space_runes :: "nat list list" where
  "space_runes =
     [[9], [10], [11], [12], [13], [32], [0xC2, 0x85], [0xC2, 0xA0],
      [0xE1, 0x9A, 0x80],
      [0xE2, 0x80, 0x80], [0xE2, 0x80, 0x81], [0xE2, 0x80, 0x82], [0xE2, 0x80, 0x83],
      [0xE2, 0x80, 0x84], [0xE2, 0x80, 0x85], [0xE2, 0x80, 0x86], [0xE2, 0x80, 0x87],
      [0xE2, 0x80, 0x88], [0xE2, 0x80, 0x89], [0xE2, 0x80, 0x8A],
      [0xE2, 0x80, 0xA8], [0xE2, 0x80, 0xA9], [0xE2, 0x80, 0xAF], [0xE2, 0x81, 0x9F],
      [0xE3, 0x80, 0x80]]"

fun strip_rune :: "nat list list \<Rightarrow> string \<Rightarrow> string option" where
  "strip_rune [] s = None"
| "strip_rune (r # rs) s =
     (if r \<noteq> [] \<and> map of_char (take (length r) s) = r then Some (drop (length r) s)
      else strip_rune rs s)"

lemma strip_rune_shorter: "strip_rune rs s = Some t \<Longrightarrow> length t < length s"
proof (induction rs s rule: strip_rune.induct)
  case (2 r rs s)
  show ?case
  proof (cases "r \<noteq> [] \<and> map of_char (take (length r) s) = r")
    case True
    then have "length s \<noteq> 0" by (cases s) auto
    with True "2.prems" show ?thesis by auto
  next
    case False
    with "2.IH" "2.prems" show ?thesis by (simp split: if_splits)
  qed
qed simp

function trim_left :: "nat list list \<Rightarrow> string \<Rightarrow> string" where
  "trim_left rs s = (case strip_rune rs s of None \<Rightarrow> s | Some t \<Rightarrow> trim_left rs t)"
  by pat_completeness auto
termination
  by (relation "measure (\<lambda>(rs, s). length s)") (auto dest: strip_rune_shorter)

declare trim_left.simps [simp del]

definition TrimSpace :: "string \<Rightarrow> string" where
  "TrimSpace s =
     rev (trim_left (map rev space_runes) (rev (trim_left space_runes s)))"

text \<open>A string whose ends are printable ASCII is its own trim.\<close>

definition printable :: "char \<Rightarrow> bool" where
  "printable c \<longleftrightarrow> 33 \<le> (of_char c :: nat) \<and> (of_char c :: nat) \<le> 126"

lemma strip_rune_None_iff:
  "strip_rune rs s = None \<longleftrightarrow> (\<forall>r \<in> set rs. r \<noteq> [] \<longrightarrow> map of_char (take (length r) s) \<noteq> r)"
  by (induction rs) auto

lemma trim_left_id: "strip_rune rs s = None \<Longrightarrow> trim_left rs s = s"
  by (simp add: trim_left.simps [of rs s])

lemma strip_rune_printable:
  assumes "printable c" and "\<forall>r \<in> set rs. r \<noteq> [] \<longrightarrow> hd r < 33 \<or> 126 < hd r"
  shows "strip_rune rs (c # s) = None"
  unfolding strip_rune_None_iff
proof (intro ballI impI)
  fix r assume r: "r \<in> set rs" "r \<noteq> []"
  obtain n ns where n: "r = n # ns" using r(2) by (cases r) auto
  from assms(2) r n have "n < 33 \<or> 126 < n" by fastforce
  with assms(1) n show "map of_char (take (length r) (c # s)) \<noteq> r"
    by (auto simp: printable_def)
qed

lemma space_runes_heads:
  "\<forall>r \<in> set space_runes. r \<noteq> [] \<longrightarrow> hd r < 33 \<or> 126 < hd r"
  "\<forall>r \<in> set (map rev space_runes). r \<noteq> [] \<longrightarrow> hd r < 33 \<or> 126 < hd r"
  by (simp_all add: space_runes_def)

lemma TrimSpace_printable:
  assumes "s \<noteq> []" and "printable (hd s)" and "printable (last s)"
  shows "TrimSpace s = s"
proof -
  obtain c t where s: "s = c # t" using assms(1) by (cases s) auto
  have left: "trim_left space_runes s = s"
    using assms(2) s space_runes_heads(1)
    by (intro trim_left_id) (simp add: strip_rune_printable)
  obtain d u where r: "rev s = d # u" using assms(1) by (cases "rev s") auto
  then have "d = last s" using assms(1) by (metis hd_rev list.sel(1))
  then have "trim_left (map rev space_runes) (rev s) = rev s"
    using assms(3) r space_runes_heads(2)
    by (intro trim_left_id) (metis strip_rune_printable)
  then show ?thesis by (simp add: TrimSpace_def left)
qed

lemma trim_left_strip_rune: "strip_rune rs (trim_left rs s) = None"
proof (induction rs s rule: trim_left.induct)
  case (1 rs s)
  then show ?case
    by (cases "strip_rune rs s") (simp_all add: trim_left.simps [of rs s])
qed

section \<open>Lists\<close>

lemma sorted_wrt_butlast: "sorted_wrt P xs \<Longrightarrow> sorted_wrt P (butlast xs)"
  by (simp add: butlast_conv_take sorted_wrt_take)

lemma sorted_last_max: "sorted xs \<Longrightarrow> x \<in> set xs \<Longrightarrow> x \<le> last xs"
  by (induction xs) auto

end
