(* ===== verification/Metrics.thy ===== *)
theory Metrics
  imports Prelude
begin

text \<open>
  internal/metrics/metrics.go: the Prometheus collectors of the proxy. Each
  package variable is a constructor; a registry holds the current value of every
  gauge and counter and the list of durations each histogram has observed.
  Registration (promauto) and the histogram's bucket counters belong to the
  client library; what the file itself fixes is the name of every collector and
  the bucket bounds.
\<close>

datatype gauge =
    BufIOReaderPoolInUse | BufIOReaderPoolIdle
  | BufIOWriterPoolInUse | BufIOWriterPoolIdle
  | PipeCopyBufPoolInUse | PipeCopyBufPoolIdle

datatype counter =
    BufIOWriterFlushErrors | ReadErrors | WriteErrors | CloseErrors
  | Upstream5xx | DialErrors | IdleDropErrors

datatype histogram = RequestBodyWriteDuration | ResponseBodyReadDuration

record metrics =
  gauges :: "gauge \<Rightarrow> int"
  counters :: "counter \<Rightarrow> nat"
  observed :: "histogram \<Rightarrow> int list"

text \<open>\<open>gauge.Set\<close>, \<open>counter.Inc\<close> and \<open>histogram.Observe\<close> (in nanoseconds).\<close>

definition SetGauge :: "gauge \<Rightarrow> int \<Rightarrow> metrics \<Rightarrow> metrics" where
  "SetGauge g v m = m\<lparr>gauges := (gauges m)(g := v)\<rparr>"

definition Inc :: "counter \<Rightarrow> metrics \<Rightarrow> metrics" where
  "Inc c m = m\<lparr>counters := (counters m)(c := Suc (counters m c))\<rparr>"

definition Observe :: "histogram \<Rightarrow> int \<Rightarrow> metrics \<Rightarrow> metrics" where
  "Observe h d m = m\<lparr>observed := (observed m)(h := observed m h @ [d])\<rparr>"

definition metrics_init :: metrics where
  "metrics_init = \<lparr>gauges = (\<lambda>_. 0), counters = (\<lambda>_. 0), observed = (\<lambda>_. [])\<rparr>"

lemma Inc_sel [simp]:
  "gauges (Inc c m) = gauges m" "observed (Inc c m) = observed m"
  "counters (Inc c m) = (counters m)(c := Suc (counters m c))"
  by (simp_all add: Inc_def)

lemma SetGauge_sel [simp]:
  "gauges (SetGauge g v m) = (gauges m)(g := v)" "observed (SetGauge g v m) = observed m"
  "counters (SetGauge g v m) = counters m"
  by (simp_all add: SetGauge_def)

lemma Observe_sel [simp]:
  "gauges (Observe h d m) = gauges m" "counters (Observe h d m) = counters m"
  "observed (Observe h d m) = (observed m)(h := observed m h @ [d])"
  by (simp_all add: Observe_def)

section \<open>Names and buckets\<close>

fun gauge_name :: "gauge \<Rightarrow> string" where
  "gauge_name BufIOReaderPoolInUse = ''fasthttp_proxy_bufio_reader_pool_in_use''"
| "gauge_name BufIOReaderPoolIdle = ''fasthttp_proxy_bufio_reader_pool_idle''"
| "gauge_name BufIOWriterPoolInUse = ''fasthttp_proxy_bufio_writer_pool_in_use''"
| "gauge_name BufIOWriterPoolIdle = ''fasthttp_proxy_bufio_writer_pool_idle''"
| "gauge_name PipeCopyBufPoolInUse = ''fasthttp_proxy_pipe_copy_buf_pool_in_use''"
| "gauge_name PipeCopyBufPoolIdle = ''fasthttp_proxy_pipe_copy_buf_pool_idle''"

fun counter_name :: "counter \<Rightarrow> string" where
  "counter_name BufIOWriterFlushErrors = ''fasthttp_proxy_bufio_writer_flush_errors_total''"
| "counter_name ReadErrors = ''fasthttp_proxy_read_errors_total''"
| "counter_name WriteErrors = ''fasthttp_proxy_write_errors_total''"
| "counter_name CloseErrors = ''fasthttp_proxy_close_errors_total''"
| "counter_name Upstream5xx = ''fasthttp_proxy_upstream_5xx_total''"
| "counter_name DialErrors = ''fasthttp_proxy_dial_errors_total''"
| "counter_name IdleDropErrors = ''fasthttp_proxy_idle_drop_errors_total''"

fun histogram_name :: "histogram \<Rightarrow> string" where
  "histogram_name RequestBodyWriteDuration = ''fasthttp_proxy_request_body_write_seconds''"
| "histogram_name ResponseBodyReadDuration = ''fasthttp_proxy_response_body_read_seconds''"

text \<open>The collectors in the order the file registers them.\<close>

definition registered_names :: "string list" where
  "registered_names =
     map gauge_name
       [BufIOReaderPoolInUse, BufIOReaderPoolIdle, BufIOWriterPoolInUse,
        BufIOWriterPoolIdle, PipeCopyBufPoolInUse, PipeCopyBufPoolIdle] @
     map counter_name
       [BufIOWriterFlushErrors, ReadErrors, WriteErrors, CloseErrors, Upstream5xx,
        DialErrors, IdleDropErrors] @
     map histogram_name [RequestBodyWriteDuration, ResponseBodyReadDuration]"

text \<open>\<open>BodyDefBuckets\<close>, upper bounds in milliseconds.\<close>

definition BodyDefBuckets :: "nat list" where
  "BodyDefBuckets =
     [5, 10, 25, 50, 100, 250, 500, 1000, 2500, 5000,
      10000, 20000, 30000, 60000, 90000, 120000, 210000, 330000, 540000, 870000,
      1410000, 2280000, 3690000, 5970000, 9660000, 15630000, 25290000]"

text \<open>
  The collectors can be registered together: the 15 names are pairwise different and
  share the prefix of the program, and the 27 bucket bounds of the histograms are strictly
  increasing, as the client library requires (it panics otherwise, at start-up).
\<close>
theorem collectors_register:
  "distinct registered_names \<and> length registered_names = 15 \<and>
   (\<forall>n \<in> set registered_names. HasPrefix n ''fasthttp_proxy_'') \<and>
   sorted_wrt (<) BodyDefBuckets \<and> length BodyDefBuckets = 27"
  by (simp add: registered_names_def BodyDefBuckets_def HasPrefix_def)

end
