(* ===== verification/Environment.thy ===== *)
theory Environment
  imports Metrics
begin

text \<open>
  What the proxy calls and does not define: the clock, the network, the dialers,
  the client's body stream, sync.Pool's choice of an object. Every such call is a
  component of an environment record \<open>env\<close>, a function of its arguments and of an
  arbitrary external state \<open>'e\<close>; nothing is assumed about it unless a theorem says
  so. The program state \<open>sys\<close> carries that external state, the metrics registry and
  a trace of the input and output calls made so far. The state records of the
  components extend \<open>sys\<close> one after the other.
\<close>

section \<open>Library values\<close>

text \<open>Go errors: the sentinels the proxy compares with or returns, and the rest.\<close>

datatype go_error = EOF | ErrShortWrite | ErrDialTimeout | OtherError string

text \<open>What the proxy reads of a parsed \<open>net/url.URL\<close>.\<close>

record url =
  url_Scheme :: string
  url_Hostname :: string
  url_Port :: string

text \<open>The fields of \<open>crypto/tls.Config\<close> that the proxy sets, with Go's zero values.\<close>

record tls_config =
  tls_InsecureSkipVerify :: bool
  tls_ServerName :: string
  tls_RootCAs :: "byte list option"
  tls_Certificates :: "(string \<times> string) list"
  tls_MinVersion :: nat

definition tls_config_zero :: tls_config where
  "tls_config_zero =
     \<lparr>tls_InsecureSkipVerify = False, tls_ServerName = [], tls_RootCAs = None,
      tls_Certificates = [], tls_MinVersion = 0\<rparr>"

text \<open>
  A \<open>net.Conn\<close> value is a socket (by identity) or the TLS client wrapper around one.
  A dial function is fasthttp's default, the proxy dialer with its timeout, or any
  other function value (by identity).
\<close>

datatype net_conn = NetConn nat | TLSClient net_conn tls_config

datatype dial_func =
    FasthttpDial
  | FasthttpHTTPDialerDualStackTimeout string int
  | DialFunc nat

section \<open>The environment and the program state\<close>

record 'e env =
  time_Now :: "'e \<Rightarrow> int \<times> 'e"
  rand_Intn :: "nat \<Rightarrow> 'e \<Rightarrow> nat \<times> 'e"
  dial_call :: "dial_func \<Rightarrow> string \<Rightarrow> 'e \<Rightarrow> (go_error + nat) \<times> 'e"
  conn_Close :: "net_conn \<Rightarrow> 'e \<Rightarrow> go_error option \<times> 'e"
  conn_Write :: "net_conn \<Rightarrow> byte list \<Rightarrow> 'e \<Rightarrow> (int \<times> go_error option) \<times> 'e"
  conn_Read :: "net_conn \<Rightarrow> nat \<Rightarrow> 'e \<Rightarrow> (byte list \<times> go_error option) \<times> 'e"
  body_Read :: "nat \<Rightarrow> nat \<Rightarrow> 'e \<Rightarrow> (byte list \<times> go_error option) \<times> 'e"
  pool_Get :: "nat \<Rightarrow> 'e \<Rightarrow> nat option \<times> 'e"

datatype io_event =
    EvDial dial_func string
  | EvClose net_conn
  | EvWrite net_conn "byte list" "go_error option"
  | EvBodyRead "byte list" "go_error option"

record 'e sys =
  ext :: 'e
  trace :: "io_event list"
  mets :: metrics

text \<open>One call of the environment each; durations and times are nanoseconds.\<close>

definition now :: "('e, 'x) env_scheme \<Rightarrow> ('e, 'm) sys_scheme \<Rightarrow> int \<times> ('e, 'm) sys_scheme" where
  "now E s = (let (t, e) = time_Now E (ext s) in (t, s\<lparr>ext := e\<rparr>))"

definition net_dial ::
  "('e, 'x) env_scheme \<Rightarrow> dial_func \<Rightarrow> string \<Rightarrow> ('e, 'm) sys_scheme
     \<Rightarrow> (go_error + net_conn) \<times> ('e, 'm) sys_scheme" where
  "net_dial E f a s =
     (let (r, e) = dial_call E f a (ext s)
      in (map_sum id NetConn r, s\<lparr>ext := e, trace := trace s @ [EvDial f a]\<rparr>))"

definition net_Close ::
  "('e, 'x) env_scheme \<Rightarrow> net_conn \<Rightarrow> ('e, 'm) sys_scheme
     \<Rightarrow> go_error option \<times> ('e, 'm) sys_scheme" where
  "net_Close E c s =
     (let (r, e) = conn_Close E c (ext s)
      in (r, s\<lparr>ext := e, trace := trace s @ [EvClose c]\<rparr>))"

definition net_Write ::
  "('e, 'x) env_scheme \<Rightarrow> net_conn \<Rightarrow> byte list \<Rightarrow> ('e, 'm) sys_scheme
     \<Rightarrow> (int \<times> go_error option) \<times> ('e, 'm) sys_scheme" where
  "net_Write E c b s =
     (let (r, e) = conn_Write E c b (ext s)
      in (r, s\<lparr>ext := e, trace := trace s @ [EvWrite c b (snd r)]\<rparr>))"

text \<open>
  A \<open>Read(p)\<close> call answers with the bytes it has put into \<open>p\<close>, which are no more
  than \<open>len(p)\<close>, and an error.
\<close>

definition net_Read ::
  "('e, 'x) env_scheme \<Rightarrow> net_conn \<Rightarrow> nat \<Rightarrow> ('e, 'm) sys_scheme
     \<Rightarrow> (byte list \<times> go_error option) \<times> ('e, 'm) sys_scheme" where
  "net_Read E c n s =
     (let ((b, err), e) = conn_Read E c n (ext s) in ((take n b, err), s\<lparr>ext := e\<rparr>))"

definition stream_Read ::
  "('e, 'x) env_scheme \<Rightarrow> nat \<Rightarrow> nat \<Rightarrow> ('e, 'm) sys_scheme
     \<Rightarrow> (byte list \<times> go_error option) \<times> ('e, 'm) sys_scheme" where
  "stream_Read E i n s =
     (let ((b, err), e) = body_Read E i n (ext s)
      in ((take n b, err), s\<lparr>ext := e, trace := trace s @ [EvBodyRead (take n b) err]\<rparr>))"

definition count_metric :: "counter \<Rightarrow> ('e, 'm) sys_scheme \<Rightarrow> ('e, 'm) sys_scheme" where
  "count_metric c s = s\<lparr>mets := Inc c (mets s)\<rparr>"

definition set_gauge :: "gauge \<Rightarrow> int \<Rightarrow> ('e, 'm) sys_scheme \<Rightarrow> ('e, 'm) sys_scheme" where
  "set_gauge g v s = s\<lparr>mets := SetGauge g v (mets s)\<rparr>"

definition observe :: "histogram \<Rightarrow> int \<Rightarrow> ('e, 'm) sys_scheme \<Rightarrow> ('e, 'm) sys_scheme" where
  "observe h d s = s\<lparr>mets := Observe h d (mets s)\<rparr>"

text \<open>The result and the next state of each call, for computing with whole operations.\<close>

lemma call_simps:
  "fst (now E s) = fst (time_Now E (ext s))"
  "snd (now E s) = s\<lparr>ext := snd (time_Now E (ext s))\<rparr>"
  "fst (net_dial E f a s) = map_sum id NetConn (fst (dial_call E f a (ext s)))"
  "snd (net_dial E f a s) =
     s\<lparr>ext := snd (dial_call E f a (ext s)), trace := trace s @ [EvDial f a]\<rparr>"
  "fst (net_Close E c s) = fst (conn_Close E c (ext s))"
  "snd (net_Close E c s) =
     s\<lparr>ext := snd (conn_Close E c (ext s)), trace := trace s @ [EvClose c]\<rparr>"
  "fst (net_Write E c b s) = fst (conn_Write E c b (ext s))"
  "snd (net_Write E c b s) =
     s\<lparr>ext := snd (conn_Write E c b (ext s)),
       trace := trace s @ [EvWrite c b (snd (fst (conn_Write E c b (ext s))))]\<rparr>"
  by (simp_all add: now_def net_dial_def net_Close_def net_Write_def split_beta)

section \<open>What each call leaves unchanged\<close>

text \<open>No call of the environment touches the program's own variables.\<close>

lemma now_frame [frame_simps]:
  "trace (snd (now E s)) = trace s" "mets (snd (now E s)) = mets s"
  "sys.more (snd (now E s)) = sys.more s"
  by (simp_all add: now_def split: prod.splits)

lemma net_dial_frame [frame_simps]:
  "trace (snd (net_dial E f a s)) = trace s @ [EvDial f a]"
  "mets (snd (net_dial E f a s)) = mets s"
  "sys.more (snd (net_dial E f a s)) = sys.more s"
  by (simp_all add: net_dial_def split: prod.splits)

lemma net_Close_frame [frame_simps]:
  "trace (snd (net_Close E c s)) = trace s @ [EvClose c]"
  "mets (snd (net_Close E c s)) = mets s"
  "sys.more (snd (net_Close E c s)) = sys.more s"
  by (simp_all add: net_Close_def split: prod.splits)

lemma net_Write_frame [frame_simps]:
  "trace (snd (net_Write E c b s)) = trace s @ [EvWrite c b (snd (fst (net_Write E c b s)))]"
  "mets (snd (net_Write E c b s)) = mets s"
  "sys.more (snd (net_Write E c b s)) = sys.more s"
  by (simp_all add: net_Write_def split: prod.splits)

lemma net_Read_frame [frame_simps]:
  "trace (snd (net_Read E c n s)) = trace s"
  "mets (snd (net_Read E c n s)) = mets s"
  "sys.more (snd (net_Read E c n s)) = sys.more s"
  by (simp_all add: net_Read_def split: prod.splits)

lemma net_Read_length: "length (fst (fst (net_Read E c n s))) \<le> n"
  by (simp add: net_Read_def split: prod.splits)

lemma stream_Read_frame [frame_simps]:
  "trace (snd (stream_Read E i n s)) = trace s @
     [EvBodyRead (fst (fst (stream_Read E i n s))) (snd (fst (stream_Read E i n s)))]"
  "mets (snd (stream_Read E i n s)) = mets s"
  "sys.more (snd (stream_Read E i n s)) = sys.more s"
  by (simp_all add: stream_Read_def split: prod.splits)

lemma stream_Read_length: "length (fst (fst (stream_Read E i n s))) \<le> n"
  by (simp add: stream_Read_def split: prod.splits)

lemma count_metric_frame [frame_simps]:
  "trace (count_metric c s) = trace s" "ext (count_metric c s) = ext s"
  "mets (count_metric c s) = Inc c (mets s)"
  "sys.more (count_metric c s) = sys.more s"
  by (simp_all add: count_metric_def)

lemma set_gauge_frame [frame_simps]:
  "trace (set_gauge g v s) = trace s" "ext (set_gauge g v s) = ext s"
  "mets (set_gauge g v s) = SetGauge g v (mets s)"
  "sys.more (set_gauge g v s) = sys.more s"
  by (simp_all add: set_gauge_def)

lemma observe_frame [frame_simps]:
  "trace (observe h d s) = trace s" "ext (observe h d s) = ext s"
  "mets (observe h d s) = Observe h d (mets s)"
  "sys.more (observe h d s) = sys.more s"
  by (simp_all add: observe_def)


section \<open>A concrete environment\<close>

text \<open>
  An executable network for examples: the external state is a counter and a script of
  reads. Every look at the clock takes a second, every dial gives a new socket, writes
  and closes succeed, reads follow the script and then report EOF, random choices are
  0 and sync.Pool gives back the object put last.
\<close>

type_synonym sample_state = "nat \<times> (byte list \<times> go_error option) list"

fun sample_read :: "sample_state \<Rightarrow> (byte list \<times> go_error option) \<times> sample_state" where
  "sample_read (n, []) = (([], Some EOF), (n, []))"
| "sample_read (n, r # rs) = (r, (n, rs))"

definition sample_env :: "sample_state env" where
  "sample_env =
     \<lparr>time_Now = (\<lambda>st. (int (fst st) * 1000000000, (Suc (fst st), snd st))),
      rand_Intn = (\<lambda>n st. (0, st)),
      dial_call = (\<lambda>f a st. (Inr (fst st), (Suc (fst st), snd st))),
      conn_Close = (\<lambda>c st. (None, st)),
      conn_Write = (\<lambda>c b st. ((int (length b), None), st)),
      conn_Read = (\<lambda>c n st. sample_read st),
      body_Read = (\<lambda>i n st. sample_read st),
      pool_Get = (\<lambda>n st. (if n = 0 then None else Some (n - 1), st))\<rparr>"

lemma sample_env_sel [simp]:
  "time_Now sample_env st = (int (fst st) * 1000000000, (Suc (fst st), snd st))"
  "rand_Intn sample_env n st = (0, st)"
  "dial_call sample_env f a st = (Inr (fst st), (Suc (fst st), snd st))"
  "conn_Close sample_env c st = (None, st)"
  "conn_Write sample_env c b st = ((int (length b), None), st)"
  "conn_Read sample_env c n st = sample_read st"
  "body_Read sample_env i n st = sample_read st"
  "pool_Get sample_env n st = (if n = 0 then None else Some (n - 1), st)"
  by (simp_all add: sample_env_def)

lemmas sample_simps =
  now_def net_dial_def net_Close_def net_Write_def net_Read_def stream_Read_def
  count_metric_def set_gauge_def observe_def

end
