(* ===== verification/Config.thy ===== *)
theory Config
  imports Environment
begin

text \<open>
  internal/config/config.go: the scheme prefixes and the parsing of the upstream
  list. \<open>net/url.Parse\<close> is the argument \<open>url_Parse\<close>; \<open>log.Fatalf\<close> ends the process,
  so a fatal error is the left value of a sum.
\<close>

definition PrefixHTTP :: string where "PrefixHTTP = ''http://''"

definition PrefixHTTPS :: string where "PrefixHTTPS = ''https://''"

datatype fatal = InvalidUpstreamAddress string | FlagError string

type_synonym url_parser = "string \<Rightarrow> go_error + url"

definition addrAppend :: "url_parser \<Rightarrow> string list \<Rightarrow> string \<Rightarrow> fatal + string list" where
  "addrAppend url_Parse upstreams addr0 =
     (let addr = TrimSpace addr0 in
      if HasPrefix addr PrefixHTTP \<or> HasPrefix addr PrefixHTTPS then
        (case url_Parse addr of
           Inl _ \<Rightarrow> Inl (InvalidUpstreamAddress addr)
         | Inr _ \<Rightarrow> Inr (upstreams @ [addr]))
      else
        (let withScheme = PrefixHTTP @ addr in
         case url_Parse withScheme of
           Inl _ \<Rightarrow> Inl (InvalidUpstreamAddress addr)
         | Inr _ \<Rightarrow> Inr (upstreams @ [withScheme])))"

text \<open>The loop of \<open>parseUpstreams\<close> over the comma-separated parts.\<close>

fun append_all :: "url_parser \<Rightarrow> string list \<Rightarrow> string list \<Rightarrow> fatal + string list" where
  "append_all url_Parse upstreams [] = Inr upstreams"
| "append_all url_Parse upstreams (addr # rest) =
     (case addrAppend url_Parse upstreams addr of
        Inl e \<Rightarrow> Inl e
      | Inr upstreams' \<Rightarrow> append_all url_Parse upstreams' rest)"

definition parseUpstreams :: "url_parser \<Rightarrow> string \<Rightarrow> string list \<Rightarrow> fatal + string list" where
  "parseUpstreams url_Parse raw upstreams =
     append_all url_Parse upstreams (Split (CHR '','') raw)"

section \<open>Values\<close>

text \<open>The configuration of the proxy; durations are nanoseconds.\<close>

record Values =
  v_Concurrency :: int
  v_MaxConnections :: int
  v_CopyBuffersSize :: int
  v_DisableHeaderNamesNormalizing :: bool
  v_DisableKeepalive :: bool
  v_DisablePreParseMultipartForm :: bool
  v_GetOnly :: bool
  v_LogAllErrors :: bool
  v_IOBuffersSize :: int
  v_IdleTimeout :: int
  v_DialerTimeout :: int
  v_MaxConnectionsPerIP :: int
  v_MaxRequestBodySize :: int
  v_MaxRequestsPerConn :: int
  v_MetricsAddr :: string
  v_ProxyAddr :: string
  v_NoDefaultContentType :: bool
  v_NoDefaultDate :: bool
  v_NoDefaultServerHeader :: bool
  v_ReadBufferSize :: int
  v_WriteBufferSize :: int
  v_ReadTimeout :: int
  v_WriteTimeout :: int
  v_ReduceMemoryUsage :: bool
  v_SecureErrorLogMessage :: bool
  v_Upstreams :: "string list"
  v_TLSCAFile :: string
  v_TLSEnabled :: bool
  v_TLSInsecureSkipVerify :: bool
  v_TLSServerCertificatePemFile :: string
  v_TLSServerEnabled :: bool
  v_TLSServerKeyPemFile :: string
  v_TLSServerName :: string

section \<open>What the upstream list contains\<close>

text \<open>The address a part of the list becomes: trimmed, with a scheme.\<close>

definition with_scheme :: "string \<Rightarrow> string" where
  "with_scheme addr =
     (if HasPrefix addr PrefixHTTP \<or> HasPrefix addr PrefixHTTPS then addr
      else PrefixHTTP @ addr)"

definition has_scheme :: "string \<Rightarrow> bool" where
  "has_scheme addr \<longleftrightarrow> HasPrefix addr PrefixHTTP \<or> HasPrefix addr PrefixHTTPS"

lemma has_scheme_with_scheme [simp]: "has_scheme (with_scheme a)"
  by (simp add: has_scheme_def with_scheme_def)

lemma with_scheme_id [simp]: "has_scheme a \<Longrightarrow> with_scheme a = a"
  by (simp add: has_scheme_def with_scheme_def)

lemma with_scheme_idem [simp]: "with_scheme (with_scheme a) = with_scheme a"
  by simp

lemma prefixes_disjoint: "HasPrefix a PrefixHTTP \<Longrightarrow> \<not> HasPrefix a PrefixHTTPS"
  by (auto simp: HasPrefix_iff PrefixHTTP_def PrefixHTTPS_def)

definition parses :: "url_parser \<Rightarrow> string \<Rightarrow> bool" where
  "parses url_Parse a \<longleftrightarrow> (case url_Parse a of Inl _ \<Rightarrow> False | Inr _ \<Rightarrow> True)"

lemma addrAppend_eq:
  "addrAppend url_Parse ups a =
     (if parses url_Parse (with_scheme (TrimSpace a))
      then Inr (ups @ [with_scheme (TrimSpace a)])
      else Inl (InvalidUpstreamAddress (TrimSpace a)))"
proof (cases "HasPrefix (TrimSpace a) PrefixHTTP \<or> HasPrefix (TrimSpace a) PrefixHTTPS")
  case True
  then have "with_scheme (TrimSpace a) = TrimSpace a" by (simp add: with_scheme_def)
  with True show ?thesis
    by (simp add: addrAppend_def parses_def Let_def split: sum.split)
next
  case False
  then have "with_scheme (TrimSpace a) = PrefixHTTP @ TrimSpace a"
    by (simp add: with_scheme_def)
  with False show ?thesis
    by (simp add: addrAppend_def parses_def Let_def split: sum.split)
qed

lemma append_all_ok:
  "\<forall>a \<in> set as. parses url_Parse (with_scheme (TrimSpace a)) \<Longrightarrow>
   append_all url_Parse ups as = Inr (ups @ map (with_scheme \<circ> TrimSpace) as)"
  by (induction as arbitrary: ups) (simp_all add: addrAppend_eq)

lemma append_all_fatal:
  "append_all url_Parse ups (as @ b # bs) = Inl (InvalidUpstreamAddress (TrimSpace b))"
  if "\<forall>a \<in> set as. parses url_Parse (with_scheme (TrimSpace a))"
    and "\<not> parses url_Parse (with_scheme (TrimSpace b))"
  using that by (induction as arbitrary: ups) (simp_all add: addrAppend_eq)

lemma append_all_Inr:
  "append_all url_Parse ups as = Inr r \<Longrightarrow>
   (\<forall>a \<in> set as. parses url_Parse (with_scheme (TrimSpace a))) \<and>
   r = ups @ map (with_scheme \<circ> TrimSpace) as"
  by (induction as arbitrary: ups) (fastforce simp: addrAppend_eq split: if_splits)+

section \<open>Properties\<close>

text \<open>
  C31. The upstream list, part by part: every comma-separated part of the flag, trimmed and
  completed with a scheme, is appended in order if url.Parse accepts all of them; otherwise
  the process ends, naming a part that it rejects.
\<close>
theorem parse_upstreams_result:
  "case parseUpstreams url_Parse raw ups of
     Inr r \<Rightarrow> (\<forall>a \<in> set (Split (CHR '','') raw). parses url_Parse (with_scheme (TrimSpace a))) \<and>
       r = ups @ map (with_scheme \<circ> TrimSpace) (Split (CHR '','') raw)
   | Inl e \<Rightarrow> (\<exists>a \<in> set (Split (CHR '','') raw).
       \<not> parses url_Parse (with_scheme (TrimSpace a)) \<and> e = InvalidUpstreamAddress (TrimSpace a))"
proof (cases "\<forall>a \<in> set (Split (CHR '','') raw). parses url_Parse (with_scheme (TrimSpace a))")
  case True
  then show ?thesis by (simp add: parseUpstreams_def append_all_ok)
next
  case False
  then obtain as b bs where split: "Split (CHR '','') raw = as @ b # bs"
    and "\<forall>a \<in> set as. parses url_Parse (with_scheme (TrimSpace a))"
    and b: "\<not> parses url_Parse (with_scheme (TrimSpace b))"
    using split_list_first_prop [of "Split (CHR '','') raw" "\<lambda>a. \<not> parses url_Parse (with_scheme (TrimSpace a))"]
    by blast
  then have "parseUpstreams url_Parse raw ups = Inl (InvalidUpstreamAddress (TrimSpace b))"
    by (simp add: parseUpstreams_def append_all_fatal)
  with split b show ?thesis by auto
qed

theorem parse_upstreams_result_witness:
  "parseUpstreams (\<lambda>a. Inr \<lparr>url_Scheme = ''http'', url_Hostname = a, url_Port = []\<rparr>) ''x,y'' [] =
   Inr [''http://x'', ''http://y'']"
proof -
  let ?p = "\<lambda>a. Inr \<lparr>url_Scheme = ''http'', url_Hostname = a, url_Port = []\<rparr> :: go_error + url"
  have trim: "TrimSpace ''x'' = ''x''" "TrimSpace ''y'' = ''y''"
    by (simp_all add: TrimSpace_printable printable_def)
  have ok: "parses ?p a" for a by (simp add: parses_def)
  note res = parse_upstreams_result [where url_Parse = ?p and raw = "''x,y''" and ups = "[]"]
  show ?thesis
  proof (cases "parseUpstreams ?p ''x,y'' []")
    case (Inl e)
    with res ok show ?thesis by auto
  next
    case (Inr r)
    then have "r = map (with_scheme \<circ> TrimSpace) (Split (CHR '','') ''x,y'')" using res by simp
    then have "r = [''http://x'', ''http://y'']"
      using trim by (simp add: with_scheme_def HasPrefix_def PrefixHTTP_def PrefixHTTPS_def)
    with Inr show ?thesis by simp
  qed
qed

text \<open>
  C32. Complete addresses survive configuration: a list of addresses that have a scheme,
  parse, contain no comma and no white space at their ends, written with commas between
  them, is read back unchanged.
\<close>
theorem parse_upstreams_roundtrip:
  assumes "as \<noteq> []"
    and "\<And>a. a \<in> set as \<Longrightarrow> has_scheme a \<and> parses url_Parse a \<and> CHR '','' \<notin> set a \<and> printable (last a)"
  shows "parseUpstreams url_Parse (Join (CHR '','') as) [] = Inr as"
proof -
  have trim: "TrimSpace a = a" if "a \<in> set as" for a
  proof (rule TrimSpace_printable)
    from assms(2) [OF that] obtain t where "a = PrefixHTTP @ t \<or> a = PrefixHTTPS @ t"
      unfolding has_scheme_def HasPrefix_iff by blast
    then show "a \<noteq> []" "printable (hd a)"
      by (auto simp: PrefixHTTP_def PrefixHTTPS_def printable_def)
    show "printable (last a)" using assms(2) [OF that] by blast
  qed
  have "Split (CHR '','') (Join (CHR '','') as) = as"
    using assms by (intro Split_Join) auto
  moreover have "\<forall>a \<in> set as. parses url_Parse (with_scheme (TrimSpace a))"
    using assms(2) trim by simp
  moreover have "map (with_scheme \<circ> TrimSpace) as = as"
    using assms(2) trim by (intro map_idI) simp
  ultimately show ?thesis by (simp add: parseUpstreams_def append_all_ok)
qed

theorem parse_upstreams_roundtrip_witness:
  "parseUpstreams (\<lambda>a. Inr \<lparr>url_Scheme = ''http'', url_Hostname = a, url_Port = []\<rparr>)
     ''http://a:1,https://b:2'' [] = Inr [''http://a:1'', ''https://b:2'']"
proof -
  have "parseUpstreams (\<lambda>a. Inr \<lparr>url_Scheme = ''http'', url_Hostname = a, url_Port = []\<rparr>)
      (Join (CHR '','') [''http://a:1'', ''https://b:2'']) [] = Inr [''http://a:1'', ''https://b:2'']"
    by (rule parse_upstreams_roundtrip)
      (auto simp: has_scheme_def HasPrefix_def PrefixHTTP_def PrefixHTTPS_def parses_def printable_def)
  then show ?thesis by simp
qed

text \<open>
  A stray comma adds an upstream without a host: if url.Parse accepts the bare scheme
  (Go's does), \<open>a,\<close> configures both \<open>a\<close> and \<open>http://\<close>, to which a share of the
  requests will then be sent.
\<close>
theorem stray_comma_adds_upstream:
  assumes "CHR '','' \<notin> set a" and "parses url_Parse (with_scheme (TrimSpace a))"
    and "parses url_Parse ''http://''"
  shows "parseUpstreams url_Parse (a @ '','') [] = Inr [with_scheme (TrimSpace a), ''http://'']"
proof -
  have "TrimSpace [] = []" by (simp add: TrimSpace_def trim_left.simps space_runes_def)
  moreover have "with_scheme [] = ''http://''"
    by (simp add: with_scheme_def HasPrefix_def PrefixHTTP_def PrefixHTTPS_def)
  moreover have "Split (CHR '','') (a @ '','') = [a, []]"
    using Split_append_sep [OF assms(1), of "[]"] by simp
  ultimately show ?thesis
    using assms(2,3) append_all_ok [of "[a, []]" url_Parse "[]"] by (simp add: parseUpstreams_def)
qed

theorem stray_comma_adds_upstream_witness:
  "parseUpstreams (\<lambda>a. Inr \<lparr>url_Scheme = ''http'', url_Hostname = a, url_Port = []\<rparr>) ''http://a,'' [] =
   Inr [''http://a'', ''http://'']"
proof -
  have "TrimSpace ''http://a'' = ''http://a''"
    by (rule TrimSpace_printable) (simp_all add: printable_def)
  moreover have "with_scheme ''http://a'' = ''http://a''"
    by (simp add: with_scheme_def HasPrefix_def PrefixHTTP_def)
  ultimately show ?thesis
    using stray_comma_adds_upstream [of "''http://a''"
        "\<lambda>a. Inr \<lparr>url_Scheme = ''http'', url_Hostname = a, url_Port = []\<rparr>"]
    by (simp add: parses_def)
qed

end
