(* ===== verification/Flags.thy ===== *)
theory Flags
  imports Config
begin

text \<open>
  config.ParseFlags: the proxy's flag set and the parsing of the command line. The parts of
  the standard library it uses (\<open>flag.FlagSet.Parse\<close>, \<open>strconv.ParseBool\<close> and
  \<open>strconv.ParseInt\<close> with base 0) are modelled; \<open>time.ParseDuration\<close>, which computes with
  floating point, is the argument \<open>parseDuration\<close>. Any error ends the process (\<open>log.Fatal\<close>).
\<close>

section \<open>Values of flags\<close>

datatype flag_value = IntFlag int | DurationFlag int | BoolFlag bool | StringFlag string

definition ParseBool :: "string \<Rightarrow> bool option" where
  "ParseBool s =
     (if s \<in> {''1'', ''t'', ''T'', ''TRUE'', ''true'', ''True''} then Some True
      else if s \<in> {''0'', ''f'', ''F'', ''FALSE'', ''false'', ''False''} then Some False
      else None)"

text \<open>The digit a character stands for; \<open>lower c = c | 0x20\<close> joins the two cases.\<close>

definition code :: "char \<Rightarrow> int" where "code c = of_char c"

definition lower :: "char \<Rightarrow> int" where
  "lower c = or (code c) 0x20"

definition digit_of :: "char \<Rightarrow> int option" where
  "digit_of c =
     (if 48 \<le> code c \<and> code c \<le> 57 then Some (code c - 48)
      else if 97 \<le> lower c \<and> lower c \<le> 122 then Some (lower c - 97 + 10)
      else None)"

text \<open>The loop of \<open>ParseUint\<close>; underscores are skipped and noted (base 0 allows them).\<close>

fun uint_digits :: "int \<Rightarrow> int \<Rightarrow> bool \<Rightarrow> string \<Rightarrow> (int \<times> bool) option" where
  "uint_digits base n u [] = Some (n, u)"
| "uint_digits base n u (c # cs) =
     (if c = CHR ''_'' then uint_digits base n True cs
      else (case digit_of c of
              None \<Rightarrow> None
            | Some d \<Rightarrow>
                if base \<le> d then None
                else if 2 ^ 64 \<le> n * base then None
                else if 2 ^ 64 \<le> n * base + d then None
                else uint_digits base (n * base + d) u cs))"

text \<open>\<open>underscoreOK\<close>: its state is the kind of the last character (base prefix or digit: 0).\<close>

fun underscore_scan :: "bool \<Rightarrow> char \<Rightarrow> string \<Rightarrow> bool" where
  "underscore_scan hex i [] \<longleftrightarrow> i \<noteq> CHR ''_''"
| "underscore_scan hex i (c # cs) \<longleftrightarrow>
     (if 48 \<le> code c \<and> code c \<le> 57 \<or> hex \<and> 97 \<le> lower c \<and> lower c \<le> 102
      then underscore_scan hex (CHR ''0'') cs
      else if c = CHR ''_'' then i = CHR ''0'' \<and> underscore_scan hex (CHR ''_'') cs
      else i \<noteq> CHR ''_'' \<and> underscore_scan hex (CHR ''!'') cs)"

definition underscoreOK :: "string \<Rightarrow> bool" where
  "underscoreOK s0 =
     (let s = (if s0 \<noteq> [] \<and> (hd s0 = CHR ''-'' \<or> hd s0 = CHR ''+'') then tl s0 else s0) in
      if 2 \<le> length s \<and> hd s = CHR ''0'' \<and>
         (lower (s ! 1) = code (CHR ''b'') \<or> lower (s ! 1) = code (CHR ''o'') \<or>
          lower (s ! 1) = code (CHR ''x''))
      then underscore_scan (lower (s ! 1) = code (CHR ''x'')) (CHR ''0'') (drop 2 s)
      else underscore_scan False (CHR ''^'') s)"

definition ParseUint :: "string \<Rightarrow> int option" where
  "ParseUint s =
     (if s = [] then None
      else
        (let (base, digits) =
               (if hd s = CHR ''0'' then
                  (if 3 \<le> length s \<and> lower (s ! 1) = code (CHR ''b'') then (2, drop 2 s)
                   else if 3 \<le> length s \<and> lower (s ! 1) = code (CHR ''o'') then (8, drop 2 s)
                   else if 3 \<le> length s \<and> lower (s ! 1) = code (CHR ''x'') then (16, drop 2 s)
                   else (8, drop 1 s))
                else (10, s))
         in case uint_digits base 0 False digits of
              None \<Rightarrow> None
            | Some (n, u) \<Rightarrow> if u \<and> \<not> underscoreOK s then None else Some n))"

definition ParseInt :: "string \<Rightarrow> int option" where
  "ParseInt s0 =
     (if s0 = [] then None
      else
        (let neg = (hd s0 = CHR ''-'');
             s = (if hd s0 = CHR ''+'' \<or> neg then tl s0 else s0)
         in case ParseUint s of
              None \<Rightarrow> None
            | Some un \<Rightarrow>
                if \<not> neg \<and> 2 ^ 63 \<le> un then None
                else if neg \<and> 2 ^ 63 < un then None
                else Some (if neg then - un else un)))"

text \<open>\<open>flag.Value.Set\<close> of each kind.\<close>

fun set_flag :: "(string \<Rightarrow> int option) \<Rightarrow> flag_value \<Rightarrow> string \<Rightarrow> flag_value option" where
  "set_flag parseDuration (IntFlag _) s = map_option IntFlag (ParseInt s)"
| "set_flag parseDuration (DurationFlag _) s = map_option DurationFlag (parseDuration s)"
| "set_flag parseDuration (BoolFlag _) s = map_option BoolFlag (ParseBool s)"
| "set_flag parseDuration (StringFlag _) s = Some (StringFlag s)"

fun is_bool_flag :: "flag_value \<Rightarrow> bool" where
  "is_bool_flag (BoolFlag _) = True" | "is_bool_flag _ = False"

section \<open>FlagSet.Parse\<close>

text \<open>What one argument is: \<open>--\<close>, no flag at all, malformed, or a flag with or without \<open>=value\<close>.\<close>

datatype argument = Terminator | NotFlag | BadSyntax | FlagArg string "string option"

definition split_name :: "string \<Rightarrow> string \<times> string option" where
  "split_name name =
     (let n = hd name # takeWhile (\<lambda>c. c \<noteq> CHR ''='') (tl name);
          rest = dropWhile (\<lambda>c. c \<noteq> CHR ''='') (tl name)
      in (n, if rest = [] then None else Some (tl rest)))"

definition classify :: "string \<Rightarrow> argument" where
  "classify s =
     (if length s < 2 \<or> hd s \<noteq> CHR ''-'' then NotFlag
      else if s ! 1 = CHR ''-'' \<and> length s = 2 then Terminator
      else
        (let name = drop (if s ! 1 = CHR ''-'' then 2 else 1) s in
         if name = [] \<or> hd name = CHR ''-'' \<or> hd name = CHR ''='' then BadSyntax
         else (case split_name name of (n, v) \<Rightarrow> FlagArg n v)))"

type_synonym flags = "string \<Rightarrow> flag_value option"

definition set_in :: "(string \<Rightarrow> int option) \<Rightarrow> string \<Rightarrow> flag_value \<Rightarrow> string \<Rightarrow> flags \<Rightarrow> fatal + flags" where
  "set_in parseDuration name fv value st =
     (case set_flag parseDuration fv value of
        None \<Rightarrow> Inl (FlagError (''invalid value for flag -'' @ name))
      | Some fv' \<Rightarrow> Inr (st(name \<mapsto> fv')))"

fun parse_args ::
  "(string \<Rightarrow> int option) \<Rightarrow> flags \<Rightarrow> string list \<Rightarrow> fatal + (flags \<times> string list)" where
  "parse_args parseDuration st [] = Inr (st, [])"
| "parse_args parseDuration st (s # args) =
     (case classify s of
        NotFlag \<Rightarrow> Inr (st, s # args)
      | Terminator \<Rightarrow> Inr (st, args)
      | BadSyntax \<Rightarrow> Inl (FlagError (''bad flag syntax: '' @ s))
      | FlagArg name value \<Rightarrow>
          (case st name of
             None \<Rightarrow>
               Inl (FlagError (if name = ''help'' \<or> name = ''h'' then ''flag: help requested''
                               else ''flag provided but not defined: -'' @ name))
           | Some fv \<Rightarrow>
               if is_bool_flag fv then
                 (case set_in parseDuration name fv
                         (case value of Some v \<Rightarrow> v | None \<Rightarrow> ''true'') st of
                    Inl e \<Rightarrow> Inl e
                  | Inr st' \<Rightarrow> parse_args parseDuration st' args)
               else
                 (case value of
                    Some v \<Rightarrow>
                      (case set_in parseDuration name fv v st of
                         Inl e \<Rightarrow> Inl e
                       | Inr st' \<Rightarrow> parse_args parseDuration st' args)
                  | None \<Rightarrow>
                      (case args of
                         [] \<Rightarrow> Inl (FlagError (''flag needs an argument: -'' @ name))
                       | v # args' \<Rightarrow>
                           (case set_in parseDuration name fv v st of
                              Inl e \<Rightarrow> Inl e
                            | Inr st' \<Rightarrow> parse_args parseDuration st' args')))))"

section \<open>ParseFlags\<close>

definition defined_flags :: "(string \<times> flag_value) list" where
  "defined_flags =
     [(''concurrency'', IntFlag (256 * 1024)),
      (''copy-buffers-size'', IntFlag 65536),
      (''dialer-timeout'', DurationFlag (30 * 1000000000)),
      (''disable-header-norm'', BoolFlag True),
      (''disable-keepalive'', BoolFlag False),
      (''disable-preparse-multipart'', BoolFlag False),
      (''get-only'', BoolFlag False),
      (''idle-timeout'', DurationFlag (45 * 1000000000)),
      (''io-buffers-size'', IntFlag 4096),
      (''log-all-errors'', BoolFlag True),
      (''max-body-size'', IntFlag (4 * 1024 * 1024)),
      (''max-conns'', IntFlag 100),
      (''max-conns-per-ip'', IntFlag 0),
      (''max-reqs-per-conn'', IntFlag 0),
      (''metrics-addr'', StringFlag '':7070''),
      (''no-default-content-type'', BoolFlag False),
      (''no-default-date'', BoolFlag False),
      (''no-default-server-header'', BoolFlag True),
      (''proxy-addr'', StringFlag '':8080''),
      (''read-buffer-size'', IntFlag 0),
      (''read-timeout'', DurationFlag 0),
      (''reduce-memory-usage'', BoolFlag True),
      (''secure-error-log'', BoolFlag True),
      (''upstreams'', StringFlag ''''),
      (''write-buffer-size'', IntFlag 0),
      (''write-timeout'', DurationFlag 0),
      (''tls-enabled'', BoolFlag False),
      (''tls-insecure-skip-verify'', BoolFlag False),
      (''tls-ca-file'', StringFlag ''''),
      (''tls-server-certificate-pem-file'', StringFlag ''''),
      (''tls-server-name'', StringFlag ''''),
      (''tls-server-key-pem-file'', StringFlag ''''),
      (''tls-server-enabled'', BoolFlag False)]"

text \<open>
  Reading a flag variable. The last equation of each is never used: parsing keeps the kind
  of every flag (lemma \<open>parse_args_kinds\<close>).
\<close>

fun int_of :: "flag_value option \<Rightarrow> int" where
  "int_of (Some (IntFlag i)) = i" | "int_of (Some (DurationFlag i)) = i" | "int_of _ = 0"

fun bool_of :: "flag_value option \<Rightarrow> bool" where
  "bool_of (Some (BoolFlag b)) = b" | "bool_of _ = False"

fun string_of :: "flag_value option \<Rightarrow> string" where
  "string_of (Some (StringFlag s)) = s" | "string_of _ = []"

definition values_of :: "flags \<Rightarrow> string list \<Rightarrow> Values" where
  "values_of st upstreams =
     \<lparr>v_Concurrency = int_of (st ''concurrency''),
      v_MaxConnections = int_of (st ''max-conns''),
      v_CopyBuffersSize = int_of (st ''copy-buffers-size''),
      v_DisableHeaderNamesNormalizing = bool_of (st ''disable-header-norm''),
      v_DisableKeepalive = bool_of (st ''disable-keepalive''),
      v_DisablePreParseMultipartForm = bool_of (st ''disable-preparse-multipart''),
      v_GetOnly = bool_of (st ''get-only''),
      v_LogAllErrors = bool_of (st ''log-all-errors''),
      v_IOBuffersSize = int_of (st ''io-buffers-size''),
      v_IdleTimeout = int_of (st ''idle-timeout''),
      v_DialerTimeout = int_of (st ''dialer-timeout''),
      v_MaxConnectionsPerIP = int_of (st ''max-conns-per-ip''),
      v_MaxRequestBodySize = int_of (st ''max-body-size''),
      v_MaxRequestsPerConn = int_of (st ''max-reqs-per-conn''),
      v_MetricsAddr = string_of (st ''metrics-addr''),
      v_ProxyAddr = string_of (st ''proxy-addr''),
      v_NoDefaultContentType = bool_of (st ''no-default-content-type''),
      v_NoDefaultDate = bool_of (st ''no-default-date''),
      v_NoDefaultServerHeader = bool_of (st ''no-default-server-header''),
      v_ReadBufferSize = int_of (st ''read-buffer-size''),
      v_WriteBufferSize = int_of (st ''write-buffer-size''),
      v_ReadTimeout = int_of (st ''read-timeout''),
      v_WriteTimeout = int_of (st ''write-timeout''),
      v_ReduceMemoryUsage = bool_of (st ''reduce-memory-usage''),
      v_SecureErrorLogMessage = bool_of (st ''secure-error-log''),
      v_Upstreams = upstreams,
      v_TLSCAFile = string_of (st ''tls-ca-file''),
      v_TLSEnabled = bool_of (st ''tls-enabled''),
      v_TLSInsecureSkipVerify = bool_of (st ''tls-insecure-skip-verify''),
      v_TLSServerCertificatePemFile = string_of (st ''tls-server-certificate-pem-file''),
      v_TLSServerEnabled = bool_of (st ''tls-server-enabled''),
      v_TLSServerKeyPemFile = string_of (st ''tls-server-key-pem-file''),
      v_TLSServerName = string_of (st ''tls-server-name'')\<rparr>"

definition ParseFlags ::
  "url_parser \<Rightarrow> (string \<Rightarrow> int option) \<Rightarrow> string list \<Rightarrow> fatal + Values" where
  "ParseFlags url_Parse parseDuration args =
     (case parse_args parseDuration (map_of defined_flags) args of
        Inl e \<Rightarrow> Inl e
      | Inr (st, _) \<Rightarrow>
          (if string_of (st ''upstreams'') \<noteq> [] then
             (case parseUpstreams url_Parse (string_of (st ''upstreams'')) [] of
                Inl e \<Rightarrow> Inl e
              | Inr upstreams \<Rightarrow> Inr (values_of st upstreams))
           else Inr (values_of st [])))"

section \<open>Integers\<close>

text \<open>The decimal writing of a number.\<close>

fun dec :: "nat \<Rightarrow> string" where
  "dec n = (if n < 10 then [char_of (48 + n)] else dec (n div 10) @ [char_of (48 + n mod 10)])"

declare dec.simps [simp del]

lemma code_char_of: "k < 256 \<Longrightarrow> code (char_of (k :: nat)) = int k"
proof -
  assume "k < 256"
  then have "(of_char (char_of k) :: nat) = k" by (simp add: of_char_of)
  moreover have "(of_char (char_of k) :: int) = int (of_char (char_of k) :: nat)"
    by (cases "char_of k") (simp add: of_char_def)
  ultimately show "code (char_of k) = int k" by (simp add: code_def)
qed

lemma digit_of_dec: "d < 10 \<Longrightarrow> digit_of (char_of (48 + d :: nat)) = Some (int d)"
  by (simp add: digit_of_def code_char_of)

lemma dec_digit_not:
  assumes "d < 10" and "code c < 48 \<or> 57 < code c"
  shows "char_of (48 + d :: nat) \<noteq> c"
  using assms code_char_of [of "48 + d"] by auto

lemma uint_digits_append:
  "uint_digits b n u (xs @ ys) =
     (case uint_digits b n u xs of None \<Rightarrow> None | Some (m, v) \<Rightarrow> uint_digits b m v ys)"
  by (induction xs arbitrary: n u) (auto split: option.split)

lemma uint_digits_dec: "int n < 2 ^ 64 \<Longrightarrow> uint_digits 10 0 u (dec n) = Some (int n, u)"
proof (induction n rule: dec.induct)
  case (1 n)
  have under: "char_of (48 + d :: nat) \<noteq> CHR ''_''" if "d < 10" for d
    by (rule dec_digit_not [OF that]) (simp add: code_def)
  show ?case
  proof (cases "n < 10")
    case True
    with 1 under [of n] digit_of_dec [of n] show ?thesis by (simp add: dec.simps [of n])
  next
    case False
    have "int n = int (n div 10) * 10 + int (n mod 10)" by presburger
    with 1 False under [of "n mod 10"] digit_of_dec [of "n mod 10"] show ?thesis
      by (simp add: dec.simps [of n] uint_digits_append)
  qed
qed

lemma dec_head: "dec n \<noteq> [] \<and> (\<exists>d < 10. hd (dec n) = char_of (48 + d :: nat) \<and> (d = 0 \<longrightarrow> n = 0))"
proof (induction n rule: dec.induct)
  case (1 n)
  show ?case
  proof (cases "n < 10")
    case True
    then show ?thesis by (auto simp: dec.simps [of n])
  next
    case False
    with 1 have "dec (n div 10) \<noteq> []" "\<exists>d < 10. hd (dec (n div 10)) = char_of (48 + d :: nat) \<and>
        (d = 0 \<longrightarrow> n div 10 = 0)" by blast+
    with False show ?thesis by (auto simp: dec.simps [of n])
  qed
qed

lemma ParseUint_dec: "int n < 2 ^ 64 \<Longrightarrow> ParseUint (dec n) = Some (int n)"
proof (cases "n = 0")
  case True
  have "(char_of (48 :: nat) :: char) = CHR ''0''" by code_simp
  with True show ?thesis by (simp add: dec.simps ParseUint_def)
next
  case False
  assume "int n < 2 ^ 64"
  from dec_head [of n] False obtain d where d: "d < 10" "hd (dec n) = char_of (48 + d :: nat)" "d \<noteq> 0"
    and ne: "dec n \<noteq> []" by auto
  have "code (hd (dec n)) \<noteq> code (CHR ''0'')"
    using d code_char_of [of "48 + d"] by (simp add: code_def)
  then have "hd (dec n) \<noteq> CHR ''0''" by auto
  with ne uint_digits_dec [OF \<open>int n < 2 ^ 64\<close>] show ?thesis by (simp add: ParseUint_def)
qed

lemma uint_digits_nonneg: "0 \<le> n \<Longrightarrow> 0 \<le> b \<Longrightarrow> uint_digits b n u s = Some (m, v) \<Longrightarrow> 0 \<le> m"
proof (induction b n u s rule: uint_digits.induct)
  case (2 base n u c cs)
  show ?case
  proof (cases "c = CHR ''_''")
    case True
    with 2 show ?thesis by simp
  next
    case False
    with 2(5) obtain d where d: "digit_of c = Some d" by (auto split: option.splits)
    then have "0 \<le> d" by (auto simp: digit_of_def split: if_splits)
    with 2 False d show ?thesis by (auto split: if_splits)
  qed
qed simp

lemma ParseUint_nonneg:
  assumes "ParseUint s = Some n"
  shows "0 \<le> n"
proof -
  from assms obtain base digits u where "uint_digits base 0 False digits = Some (n, u)" and "0 \<le> base"
    by (auto simp: ParseUint_def Let_def split: if_splits option.splits)
  with uint_digits_nonneg [of 0 base] show ?thesis by blast
qed

lemma ParseInt_int64:
  assumes "ParseInt s = Some n"
  shows "- (2 ^ 63) \<le> n \<and> n < 2 ^ 63"
proof -
  from assms obtain t un where "ParseUint t = Some un" and "n = un \<and> un < 2 ^ 63 \<or> n = - un \<and> un \<le> 2 ^ 63"
    by (auto simp: ParseInt_def Let_def not_le split: if_splits option.splits)
  with ParseUint_nonneg [of t un] show ?thesis by auto
qed

section \<open>Arguments\<close>

fun same_kind :: "flag_value \<Rightarrow> flag_value \<Rightarrow> bool" where
  "same_kind (IntFlag _) (IntFlag _) = True"
| "same_kind (DurationFlag _) (DurationFlag _) = True"
| "same_kind (BoolFlag _) (BoolFlag _) = True"
| "same_kind (StringFlag _) (StringFlag _) = True"
| "same_kind _ _ = False"

lemma same_kind_refl [simp]: "same_kind v v"
  by (cases v) simp_all

lemma same_kind_trans: "same_kind u v \<Longrightarrow> same_kind v w \<Longrightarrow> same_kind u w"
  by (cases u; cases v; cases w) simp_all

text \<open>Flags keep their names and kinds, and integer flags fit in 64 bits.\<close>

fun int64_flag :: "flag_value \<Rightarrow> bool" where
  "int64_flag (IntFlag i) \<longleftrightarrow> - (2 ^ 63) \<le> i \<and> i < 2 ^ 63" | "int64_flag _ = True"

definition flags_like :: "flags \<Rightarrow> flags \<Rightarrow> bool" where
  "flags_like st st' \<longleftrightarrow>
     (\<forall>n. rel_option same_kind (st n) (st' n)) \<and>
     ((\<forall>v \<in> ran st. int64_flag v) \<longrightarrow> (\<forall>v \<in> ran st'. int64_flag v))"

lemma flags_like_refl [simp]: "flags_like st st"
  by (simp add: flags_like_def option.rel_refl)

lemma flags_like_trans: "flags_like st st' \<Longrightarrow> flags_like st' st'' \<Longrightarrow> flags_like st st''"
  unfolding flags_like_def
proof (elim conjE, intro conjI allI impI)
  fix n
  assume "\<forall>n. rel_option same_kind (st n) (st' n)" "\<forall>n. rel_option same_kind (st' n) (st'' n)"
  then have "rel_option same_kind (st n) (st' n)" "rel_option same_kind (st' n) (st'' n)" by blast+
  then show "rel_option same_kind (st n) (st'' n)"
    by (cases "st n"; cases "st' n"; cases "st'' n") (auto intro: same_kind_trans)
qed blast

lemma set_flag_like:
  "set_flag pd fv v = Some fv' \<Longrightarrow> same_kind fv fv' \<and> (int64_flag fv')"
  by (cases fv) (auto dest: ParseInt_int64)

lemma set_in_like:
  assumes "set_in pd name fv v st = Inr st'" and "st name = Some fv"
  shows "flags_like st st'"
proof -
  from assms obtain fv' where "set_flag pd fv v = Some fv'" and st': "st' = st(name \<mapsto> fv')"
    by (auto simp: set_in_def split: option.splits)
  with set_flag_like have fv': "same_kind fv fv'" "int64_flag fv'" by blast+
  have "w \<in> ran st \<or> w = fv'" if "w \<in> ran st'" for w
    using that by (auto simp: st' ran_def split: if_splits)
  with fv' assms(2) show ?thesis
    by (auto simp: flags_like_def st' option.rel_refl)
qed

lemma parse_args_like:
  "parse_args pd st args = Inr (st', rest) \<Longrightarrow> flags_like st st'"
proof (induction pd st args rule: parse_args.induct)
  case (2 pd st s args)
  show ?case
  proof (cases "classify s")
    case (FlagArg name val)
    with "2.prems" obtain fv where fv: "st name = Some fv" by (auto split: option.splits)
    note IH = "2.IH" [OF FlagArg fv]
    show ?thesis
    proof (cases "is_bool_flag fv")
      case True
      let ?v = "case val of Some v \<Rightarrow> v | None \<Rightarrow> ''true''"
      from "2.prems" FlagArg fv True obtain st1 where one: "set_in pd name fv ?v st = Inr st1"
        and more: "parse_args pd st1 args = Inr (st', rest)"
        by (auto split: sum.splits)
      from flags_like_trans [OF set_in_like [OF one fv] IH(1) [OF True one more]] show ?thesis .
    next
      case False
      show ?thesis
      proof (cases val)
        case None
        from "2.prems" FlagArg fv False None obtain v args' st1 where args: "args = v # args'"
          and one: "set_in pd name fv v st = Inr st1"
          and more: "parse_args pd st1 args' = Inr (st', rest)"
          by (auto split: list.splits sum.splits)
        from flags_like_trans [OF set_in_like [OF one fv] IH(2) [OF False None args one more]]
        show ?thesis .
      next
        case (Some v)
        from "2.prems" FlagArg fv False Some obtain st1 where one: "set_in pd name fv v st = Inr st1"
          and more: "parse_args pd st1 args = Inr (st', rest)"
          by (auto split: sum.splits)
        from flags_like_trans [OF set_in_like [OF one fv] IH(3) [OF False Some one more]] show ?thesis .
      qed
    qed
  qed (use "2.prems" in simp_all)
qed simp

text \<open>
  What a command line gives, flag by flag in its order: the name and the text of the value.
  Reading stops at the first argument that is no flag.
\<close>

definition bool_flag :: "string \<Rightarrow> bool" where
  "bool_flag name \<longleftrightarrow>
     (case map_of defined_flags name of Some fv \<Rightarrow> is_bool_flag fv | None \<Rightarrow> False)"

fun given_flags :: "string list \<Rightarrow> (string \<times> string) list" where
  "given_flags [] = []"
| "given_flags (s # args) =
     (case classify s of
        FlagArg name (Some v) \<Rightarrow> (name, v) # given_flags args
      | FlagArg name None \<Rightarrow>
          (if bool_flag name then (name, ''true'') # given_flags args
           else (case args of [] \<Rightarrow> [] | v # args' \<Rightarrow> (name, v) # given_flags args'))
      | _ \<Rightarrow> [])"

text \<open>The last value given to a flag, or else the one it had.\<close>

definition last_given :: "string \<Rightarrow> string \<Rightarrow> (string \<times> string) list \<Rightarrow> string" where
  "last_given n d xs = foldl (\<lambda>d (m, v). if m = n then v else d) d xs"

lemma last_given_simps [simp]:
  "last_given n d [] = d" "last_given n d ((m, v) # xs) = last_given n (if m = n then v else d) xs"
  by (simp_all add: last_given_def)

lemma flags_like_bool:
  assumes "flags_like (map_of defined_flags) st" and "st name = Some fv"
  shows "is_bool_flag fv \<longleftrightarrow> bool_flag name"
proof -
  from assms have "rel_option same_kind (map_of defined_flags name) (Some fv)" unfolding flags_like_def by metis
  then obtain w where "map_of defined_flags name = Some w" "same_kind w fv" by (auto simp: option_rel_Some2)
  then show ?thesis by (cases w; cases fv) (simp_all add: bool_flag_def)
qed

lemma set_in_string:
  assumes "set_in pd m fv v st = Inr st'" and "st m = Some fv" and "st n = Some (StringFlag d)"
  shows "st' n = Some (StringFlag (if m = n then v else d))"
  using assms by (auto simp: set_in_def split: option.splits)

lemma parse_args_given:
  "parse_args pd st args = Inr (st', rest) \<Longrightarrow> flags_like (map_of defined_flags) st \<Longrightarrow>
   st n = Some (StringFlag d) \<Longrightarrow> st' n = Some (StringFlag (last_given n d (given_flags args)))"
proof (induction pd st args arbitrary: d rule: parse_args.induct)
  case (2 pd st s args)
  show ?case
  proof (cases "classify s")
    case (FlagArg name val)
    with "2.prems" obtain fv where fv: "st name = Some fv" by (auto split: option.splits)
    note IH = "2.IH" [OF FlagArg fv]
    note kind = flags_like_bool [OF "2.prems"(2) fv]
    have like: "flags_like (map_of defined_flags) st1"
      and str: "st1 n = Some (StringFlag (if name = n then v else d))"
      if "set_in pd name fv v st = Inr st1" for v st1
      using flags_like_trans [OF "2.prems"(2) set_in_like [OF that fv]]
        set_in_string [OF that fv "2.prems"(3)] by simp_all
    show ?thesis
    proof (cases "is_bool_flag fv")
      case True
      let ?v = "case val of Some v \<Rightarrow> v | None \<Rightarrow> ''true''"
      from "2.prems" FlagArg fv True obtain st1 where one: "set_in pd name fv ?v st = Inr st1"
        and more: "parse_args pd st1 args = Inr (st', rest)"
        by (auto split: sum.splits)
      from IH(1) [OF True one more like [OF one] str [OF one]] FlagArg True kind show ?thesis
        by (cases val) simp_all
    next
      case False
      show ?thesis
      proof (cases val)
        case None
        from "2.prems" FlagArg fv False None obtain v args' st1 where args: "args = v # args'"
          and one: "set_in pd name fv v st = Inr st1"
          and more: "parse_args pd st1 args' = Inr (st', rest)"
          by (auto split: list.splits sum.splits)
        from IH(2) [OF False None args one more like [OF one] str [OF one]] FlagArg False kind None args
        show ?thesis by simp
      next
        case (Some v)
        from "2.prems" FlagArg fv False Some obtain st1 where one: "set_in pd name fv v st = Inr st1"
          and more: "parse_args pd st1 args = Inr (st', rest)"
          by (auto split: sum.splits)
        from IH(3) [OF False Some one more like [OF one] str [OF one]] FlagArg Some show ?thesis by simp
      qed
    qed
  qed (use "2.prems" in auto)
qed simp

text \<open>The names of the flags are well-formed: not empty, no leading \<open>-\<close>, no \<open>=\<close>.\<close>

definition flag_name :: "string \<Rightarrow> bool" where
  "flag_name n \<longleftrightarrow> n \<noteq> [] \<and> hd n \<noteq> CHR ''-'' \<and> CHR ''='' \<notin> set n"

lemma defined_flag_names: "\<forall>n \<in> fst ` set defined_flags. flag_name n"
  by (simp add: defined_flags_def flag_name_def)

lemma split_name_flag:
  assumes "flag_name n"
  shows "split_name n = (n, None)" "split_name (n @ CHR ''='' # v) = (n, Some v)"
proof -
  obtain c t where n: "n = c # t" and t: "CHR ''='' \<notin> set t" and c: "c \<noteq> CHR ''=''"
    using assms by (cases n) (auto simp: flag_name_def)
  have "takeWhile (\<lambda>c. c \<noteq> CHR ''='') t = t" "dropWhile (\<lambda>c. c \<noteq> CHR ''='') t = []"
    "takeWhile (\<lambda>c. c \<noteq> CHR ''='') (t @ CHR ''='' # v) = t"
    "dropWhile (\<lambda>c. c \<noteq> CHR ''='') (t @ CHR ''='' # v) = CHR ''='' # v"
    using t by (induction t) auto
  then show "split_name n = (n, None)" "split_name (n @ CHR ''='' # v) = (n, Some v)"
    by (simp_all add: split_name_def n)
qed

lemma classify_flag:
  assumes "flag_name n"
  shows "classify (''--'' @ n) = FlagArg n None" "classify (''-'' @ n) = FlagArg n None"
    "classify (''--'' @ n @ CHR ''='' # v) = FlagArg n (Some v)"
    "classify (''-'' @ n @ CHR ''='' # v) = FlagArg n (Some v)"
proof -
  obtain c t where n: "n = c # t" and c: "c \<noteq> CHR ''-''" "c \<noteq> CHR ''=''"
    using assms by (cases n) (auto simp: flag_name_def)
  note split = split_name_flag [OF assms, unfolded n append_Cons]
  show "classify (''--'' @ n) = FlagArg n None" "classify (''-'' @ n) = FlagArg n None"
    "classify (''--'' @ n @ CHR ''='' # v) = FlagArg n (Some v)"
    "classify (''-'' @ n @ CHR ''='' # v) = FlagArg n (Some v)"
    using c by (simp_all add: classify_def n split)
qed

section \<open>Properties\<close>

text \<open>The configuration of a proxy started without arguments.\<close>

definition default_values :: Values where
  "default_values =
     \<lparr>v_Concurrency = 262144, v_MaxConnections = 100, v_CopyBuffersSize = 65536,
      v_DisableHeaderNamesNormalizing = True, v_DisableKeepalive = False,
      v_DisablePreParseMultipartForm = False, v_GetOnly = False, v_LogAllErrors = True,
      v_IOBuffersSize = 4096, v_IdleTimeout = 45000000000, v_DialerTimeout = 30000000000,
      v_MaxConnectionsPerIP = 0, v_MaxRequestBodySize = 4194304, v_MaxRequestsPerConn = 0,
      v_MetricsAddr = '':7070'', v_ProxyAddr = '':8080'', v_NoDefaultContentType = False,
      v_NoDefaultDate = False, v_NoDefaultServerHeader = True, v_ReadBufferSize = 0,
      v_WriteBufferSize = 0, v_ReadTimeout = 0, v_WriteTimeout = 0, v_ReduceMemoryUsage = True,
      v_SecureErrorLogMessage = True, v_Upstreams = [], v_TLSCAFile = [], v_TLSEnabled = False,
      v_TLSInsecureSkipVerify = False, v_TLSServerCertificatePemFile = [],
      v_TLSServerEnabled = False, v_TLSServerKeyPemFile = [], v_TLSServerName = []\<rparr>"

text \<open>
  Without arguments the proxy has the documented defaults: 100 connections per
  upstream, 45 s idle timeout, 30 s dial timeout, buffers of 4096 and 65536 bytes, a body limit of 4 MiB, no
  upstreams, no TLS.
\<close>
theorem parse_flags_defaults: "ParseFlags url_Parse parseDuration [] = Inr default_values"
  by (simp add: ParseFlags_def values_of_def defined_flags_def default_values_def)

text \<open>The parsed flags still have the names and kinds of the defined ones.\<close>

lemma ParseFlags_flags:
  assumes "ParseFlags url_Parse parseDuration args = Inr v"
  obtains st ups where "v = values_of st ups" and "flags_like (map_of defined_flags) st"
  using assms parse_args_like
  by (fastforce simp: ParseFlags_def split: sum.splits if_splits prod.splits)

text \<open>The upstreams are those of the last \<open>upstreams\<close> flag.\<close>

lemma ParseFlags_upstreams:
  assumes "ParseFlags url_Parse parseDuration args = Inr v"
  defines "raw \<equiv> last_given ''upstreams'' '''' (given_flags args)"
  shows "v_Upstreams v = (if raw = [] then [] else map (with_scheme \<circ> TrimSpace) (Split (CHR '','') raw))"
    and "\<forall>a \<in> set (v_Upstreams v). parses url_Parse a \<and> has_scheme a"
proof -
  from assms(1) obtain st rest where args: "parse_args parseDuration (map_of defined_flags) args = Inr (st, rest)"
    by (auto simp: ParseFlags_def split: sum.splits)
  have "map_of defined_flags ''upstreams'' = Some (StringFlag '''')" by (simp add: defined_flags_def)
  from parse_args_given [OF args flags_like_refl this] have st: "string_of (st ''upstreams'') = raw"
    by (simp add: raw_def)
  have "v_Upstreams v = (if raw = [] then [] else map (with_scheme \<circ> TrimSpace) (Split (CHR '','') raw)) \<and>
    (\<forall>a \<in> set (v_Upstreams v). parses url_Parse a \<and> has_scheme a)"
  proof (cases "raw = []")
    case True
    with assms(1) args st show ?thesis by (auto simp: ParseFlags_def values_of_def)
  next
    case False
    with assms(1) args st have "parseUpstreams url_Parse raw [] = Inr (v_Upstreams v)"
      by (auto simp: ParseFlags_def values_of_def split: sum.splits)
    then have "append_all url_Parse [] (Split (CHR '','') raw) = Inr (v_Upstreams v)"
      by (simp add: parseUpstreams_def)
    from append_all_Inr [OF this] False show ?thesis by simp
  qed
  then show "v_Upstreams v = (if raw = [] then [] else map (with_scheme \<circ> TrimSpace) (Split (CHR '','') raw))"
    and "\<forall>a \<in> set (v_Upstreams v). parses url_Parse a \<and> has_scheme a" by blast+
qed

lemma defined_int64: "\<forall>v \<in> ran (map_of defined_flags). int64_flag v"
proof -
  have "\<forall>v \<in> snd ` set defined_flags. int64_flag v" by (simp add: defined_flags_def)
  then show ?thesis by (force simp: ran_def dest: map_of_SomeD)
qed

lemma int_of_bounds:
  assumes "flags_like (map_of defined_flags) st" and "map_of defined_flags n = Some (IntFlag d)"
  shows "- (2 ^ 63) \<le> int_of (st n) \<and> int_of (st n) < 2 ^ 63"
proof -
  from assms have "rel_option same_kind (Some (IntFlag d)) (st n)" unfolding flags_like_def by metis
  then obtain w where w: "st n = Some w" "same_kind (IntFlag d) w" by (auto simp: option_rel_Some1)
  then obtain i where i: "st n = Some (IntFlag i)" by (cases w) auto
  then have "int64_flag (IntFlag i)"
    using assms(1) defined_int64 unfolding flags_like_def by (meson ranI)
  with i show ?thesis by simp
qed

text \<open>
  Every integer setting is a 64-bit integer: a value outside that range, like any
  malformed one, ends the process instead of wrapping around.
\<close>
theorem parse_flags_int64:
  assumes "ParseFlags url_Parse parseDuration args = Inr v"
  shows "\<forall>n \<in> {v_Concurrency v, v_MaxConnections v, v_CopyBuffersSize v, v_IOBuffersSize v,
      v_MaxConnectionsPerIP v, v_MaxRequestBodySize v, v_MaxRequestsPerConn v, v_ReadBufferSize v,
      v_WriteBufferSize v}. - (2 ^ 63) \<le> n \<and> n < 2 ^ 63"
proof -
  from ParseFlags_flags [OF assms] obtain st ups where v: "v = values_of st ups"
    and like: "flags_like (map_of defined_flags) st" .
  have "map_of defined_flags ''concurrency'' = Some (IntFlag 262144)"
    "map_of defined_flags ''max-conns'' = Some (IntFlag 100)"
    "map_of defined_flags ''copy-buffers-size'' = Some (IntFlag 65536)"
    "map_of defined_flags ''io-buffers-size'' = Some (IntFlag 4096)"
    "map_of defined_flags ''max-conns-per-ip'' = Some (IntFlag 0)"
    "map_of defined_flags ''max-body-size'' = Some (IntFlag 4194304)"
    "map_of defined_flags ''max-reqs-per-conn'' = Some (IntFlag 0)"
    "map_of defined_flags ''read-buffer-size'' = Some (IntFlag 0)"
    "map_of defined_flags ''write-buffer-size'' = Some (IntFlag 0)"
    by (simp_all add: defined_flags_def)
  from this [THEN int_of_bounds [OF like]] show ?thesis by (simp add: v values_of_def)
qed

theorem parse_flags_int64_witness:
  "\<exists>v. ParseFlags (\<lambda>_. Inl EOF) (\<lambda>_. None) [''--max-conns=0x10''] = Inr v \<and>
     v_MaxConnections v = 16 \<and> v_MaxConnections v < 2 ^ 63"
proof -
  have cl: "classify ''--max-conns=0x10'' = FlagArg ''max-conns'' (Some ''0x10'')"
    by (simp add: classify_def split_name_def)
  have n: "ParseInt ''0x10'' = Some 16" by code_simp
  obtain v where v: "ParseFlags (\<lambda>_. Inl EOF) (\<lambda>_. None) [''--max-conns=0x10''] = Inr v"
    and m: "v_MaxConnections v = 16"
    by (simp add: ParseFlags_def cl n set_in_def defined_flags_def values_of_def)
  from parse_flags_int64 [OF v] v m show ?thesis by auto
qed

text \<open>
  The spellings of a flag with a value agree: for every defined flag that is not
  boolean, \<open>--name=v\<close>, \<open>-name=v\<close>, \<open>--name v\<close> and \<open>-name v\<close> have the same effect.
\<close>
theorem flag_spellings_agree:
  assumes "n \<in> fst ` set defined_flags" and "st n = Some fv" and "\<not> is_bool_flag fv"
  shows "parse_args pd st ((''--'' @ n @ CHR ''='' # v) # args) = parse_args pd st ((''--'' @ n) # v # args) \<and>
    parse_args pd st ((''-'' @ n @ CHR ''='' # v) # args) = parse_args pd st ((''--'' @ n) # v # args) \<and>
    parse_args pd st ((''-'' @ n) # v # args) = parse_args pd st ((''--'' @ n) # v # args)"
proof -
  have "flag_name n" using defined_flag_names assms(1) by blast
  note cl = classify_flag [OF this]
  show ?thesis using assms(2,3) by (simp only: parse_args.simps cl) simp
qed

theorem flag_spellings_agree_witness:
  "parse_args (\<lambda>_. None) (map_of defined_flags) [''-max-conns'', ''8''] =
   parse_args (\<lambda>_. None) (map_of defined_flags) [''--max-conns=8'']"
  using flag_spellings_agree [of "''max-conns''" "map_of defined_flags" "IntFlag 100" "\<lambda>_. None" "''8''" "[]"]
  by (simp add: defined_flags_def)

text \<open>
  A boolean flag never takes the next argument: in \<open>--name v\<close> the flag becomes true
  whatever \<open>v\<close> says, and if \<open>v\<close> is no flag, parsing ends there, so that every flag after it is ignored without an error.
\<close>
theorem bool_flag_ignores_next:
  assumes "n \<in> fst ` set defined_flags" and "st n = Some (BoolFlag b)" and "classify v = NotFlag"
  shows "parse_args pd st ((''--'' @ n) # v # args) = Inr (st(n \<mapsto> BoolFlag True), v # args)"
proof -
  have "flag_name n" using defined_flag_names assms(1) by blast
  note cl = classify_flag(1) [OF this]
  have "set_in pd n (BoolFlag b) ''true'' st = Inr (st(n \<mapsto> BoolFlag True))"
    by (simp add: set_in_def ParseBool_def)
  then show ?thesis using assms(2,3) by (simp only: parse_args.simps cl) simp
qed

theorem bool_flag_ignores_next_witness:
  "parse_args pd (map_of defined_flags) [''--log-all-errors'', ''false'', ''--max-conns=8''] =
   Inr ((map_of defined_flags)(''log-all-errors'' \<mapsto> BoolFlag True), [''false'', ''--max-conns=8''])"
  using bool_flag_ignores_next [of "''log-all-errors''" "map_of defined_flags" True "''false''" pd
      "[''--max-conns=8'']"]
  by (simp add: defined_flags_def classify_def)

text \<open>
  Decimal integers are read back as written, up to the limits of 64 bits.
\<close>
theorem parse_int_decimal:
  assumes "int n < 2 ^ 63"
  shows "ParseInt (dec n) = Some (int n) \<and> ParseInt (CHR ''-'' # dec n) = Some (- int n)"
proof -
  from dec_head [of n] obtain d where d: "d < 10" "hd (dec n) = char_of (48 + d :: nat)" and ne: "dec n \<noteq> []"
    by blast
  have "hd (dec n) \<noteq> CHR ''-''" "hd (dec n) \<noteq> CHR ''+''"
    using d dec_digit_not [of d] by (simp_all add: code_def)
  with ParseUint_dec [of n] ne assms show ?thesis by (simp add: ParseInt_def)
qed

theorem parse_int_decimal_witness:
  "ParseInt (dec 65536) = Some 65536 \<and> ParseInt (CHR ''-'' # dec 65536) = Some (- 65536)"
  using parse_int_decimal [of 65536] by simp

end
