(* ===== verification/Dial.thy ===== *)
theory Dial
  imports Config
begin

text \<open>
  internal/pool/dial.go: the pool's dialer. The package variables \<open>customDial\<close>,
  \<open>tlsConfig\<close> and \<open>dialTimeout\<close> are fields of \<open>dial_sys\<close>; \<open>None\<close> is Go's nil.
\<close>

record 'e dial_sys = "'e sys" +
  customDial :: "dial_func option"
  tlsConfig :: "tls_config option"
  dialTimeout :: int

definition HTTPDialerTimeout :: "int \<Rightarrow> ('e, 'm) dial_sys_scheme \<Rightarrow> ('e, 'm) dial_sys_scheme" where
  "HTTPDialerTimeout timeout s =
     s\<lparr>dialTimeout := timeout,
       customDial := Some (FasthttpHTTPDialerDualStackTimeout [] timeout)\<rparr>"

definition HTTPDialTimeout :: "('e, 'm) dial_sys_scheme \<Rightarrow> int" where
  "HTTPDialTimeout s = dialTimeout s"

definition TLSConfig ::
  "tls_config option \<Rightarrow> ('e, 'm) dial_sys_scheme \<Rightarrow> ('e, 'm) dial_sys_scheme" where
  "TLSConfig cfg s = s\<lparr>tlsConfig := cfg\<rparr>"

text \<open>\<open>trimmed[7:]\<close> and \<open>trimmed[8:]\<close> are in range: each follows its prefix test.\<close>

definition parseUpstreamAddressForDial :: "string \<Rightarrow> string" where
  "parseUpstreamAddressForDial addr =
     (if HasPrefix addr PrefixHTTP then drop 7 addr
      else if HasPrefix addr PrefixHTTPS then drop 8 addr
      else addr)"

text \<open>The dial function in force: \<open>customDial\<close>, or \<open>fasthttp.Dial\<close> when it is nil.\<close>

definition dial_function :: "('e, 'm) dial_sys_scheme \<Rightarrow> dial_func" where
  "dial_function s = (case customDial s of Some f \<Rightarrow> f | None \<Rightarrow> FasthttpDial)"

definition dial ::
  "('e, 'x) env_scheme \<Rightarrow> string \<Rightarrow> ('e, 'm) dial_sys_scheme
     \<Rightarrow> (go_error + net_conn) \<times> ('e, 'm) dial_sys_scheme" where
  "dial E addr s =
     (let cleanAddr = parseUpstreamAddressForDial addr in
      if HasPrefix addr PrefixHTTPS \<and> tlsConfig s \<noteq> None then
        (let (r, s1) = net_dial E (dial_function s) cleanAddr s in
         case r of
           Inl err \<Rightarrow> (Inl err, s1)
         | Inr conn \<Rightarrow> (Inr (TLSClient conn (the (tlsConfig s))), s1))
      else net_dial E (dial_function s) cleanAddr s)"

section \<open>Addresses\<close>

lemma parseUpstreamAddressForDial_http [simp]:
  "parseUpstreamAddressForDial (PrefixHTTP @ a) = a"
  by (simp add: parseUpstreamAddressForDial_def PrefixHTTP_def HasPrefix_def)

lemma parseUpstreamAddressForDial_https [simp]:
  "parseUpstreamAddressForDial (PrefixHTTPS @ a) = a"
  by (simp add: parseUpstreamAddressForDial_def PrefixHTTP_def PrefixHTTPS_def HasPrefix_def)

lemma parseUpstreamAddressForDial_plain [simp]:
  "\<not> has_scheme a \<Longrightarrow> parseUpstreamAddressForDial a = a"
  by (simp add: parseUpstreamAddressForDial_def has_scheme_def)

section \<open>One call of the dialer\<close>

text \<open>Whatever it answers, a dial is one call of the dial function in force.\<close>

lemma dial_snd:
  "snd (dial E a s) =
     s\<lparr>ext := snd (dial_call E (dial_function s) (parseUpstreamAddressForDial a) (ext s)),
       trace := trace s @ [EvDial (dial_function s) (parseUpstreamAddressForDial a)]\<rparr>"
  by (simp add: dial_def Let_def split_beta call_simps split: sum.split)

definition wrap_conn :: "string \<Rightarrow> tls_config option \<Rightarrow> net_conn \<Rightarrow> net_conn" where
  "wrap_conn addr cfg c =
     (case cfg of
        Some t \<Rightarrow> if HasPrefix addr PrefixHTTPS then TLSClient c t else c
      | None \<Rightarrow> c)"

lemma dial_fst:
  "fst (dial E a s) =
     map_sum id (\<lambda>i. wrap_conn a (tlsConfig s) (NetConn i))
       (fst (dial_call E (dial_function s) (parseUpstreamAddressForDial a) (ext s)))"
  by (cases "fst (dial_call E (dial_function s) (parseUpstreamAddressForDial a) (ext s))")
    (simp_all add: dial_def Let_def split_beta call_simps wrap_conn_def split: option.split)

text \<open>
  Where and how a connection is made: exactly one call of the dial function in force,
  with the address stripped of its scheme and otherwise unchanged (no default port is added). An http
  upstream gets the plain connection; an https one gets it wrapped in TLS, but only if a TLS
  configuration has been installed, and silently in the clear if not. Errors are passed on.
\<close>
theorem dial_scheme:
  "trace (snd (dial E (PrefixHTTP @ h) s)) = trace s @ [EvDial (dial_function s) h] \<and>
   trace (snd (dial E (PrefixHTTPS @ h) s)) = trace s @ [EvDial (dial_function s) h] \<and>
   fst (dial E (PrefixHTTP @ h) s) = map_sum id NetConn (fst (dial_call E (dial_function s) h (ext s))) \<and>
   fst (dial E (PrefixHTTPS @ h) s) =
     map_sum id (\<lambda>i. case tlsConfig s of Some t \<Rightarrow> TLSClient (NetConn i) t | None \<Rightarrow> NetConn i)
       (fst (dial_call E (dial_function s) h (ext s)))"
proof -
  have "\<not> HasPrefix (PrefixHTTP @ h) PrefixHTTPS"
    using prefixes_disjoint [of "PrefixHTTP @ h"] by simp
  moreover have "(\<lambda>i. wrap_conn (PrefixHTTPS @ h) (tlsConfig s) (NetConn i)) =
      (\<lambda>i. case tlsConfig s of Some t \<Rightarrow> TLSClient (NetConn i) t | None \<Rightarrow> NetConn i)"
    by (auto simp: wrap_conn_def split: option.split)
  moreover have "(\<lambda>i. wrap_conn (PrefixHTTP @ h) (tlsConfig s) (NetConn i)) = NetConn"
    using calculation(1) by (auto simp: wrap_conn_def split: option.split)
  ultimately show ?thesis by (simp add: dial_snd dial_fst)
qed

end
