(* ===== verification/ConnPool.thy ===== *)
theory ConnPool
  imports Dial
begin

text \<open>
  internal/pool/pool.go and upstream_pool.go: one pool of connections per upstream
  address. \<open>cp_free\<close> is the slice of idle connections (the last one is the next one
  out), \<open>cp_count\<close> the atomic 32-bit number of connections that exist for the
  address, idle or in use. \<open>upstreamPool\<close> is the sync.Map from addresses to pools;
  no pool is ever removed from it, so a pointer to a pool is its address. The
  operations here run one after the other; PoolConcurrency takes the same code
  apart into the atomic actions of several goroutines.
\<close>

record idleConn =
  idle_conn :: net_conn
  returnedAt :: int

record connPool =
  cp_free :: "idleConn list"
  cp_count :: int32

definition connPool_zero :: connPool where
  "connPool_zero = \<lparr>cp_free = [], cp_count = 0\<rparr>"

record 'e pool_sys = "'e dial_sys" +
  upstreamPool :: "string \<Rightarrow> connPool option"
  maxUpstreamConnectionsPerHost :: int
  idleTimeout :: int

text \<open>Durations are nanoseconds: \<open>time.Second\<close>.\<close>

definition Second :: int where "Second = 1000000000"

section \<open>Settings\<close>

definition MaxConnectionsPerHost ::
  "int \<Rightarrow> ('e, 'm) pool_sys_scheme \<Rightarrow> ('e, 'm) pool_sys_scheme" where
  "MaxConnectionsPerHost n s =
     (if n < 1 then s else s\<lparr>maxUpstreamConnectionsPerHost := n\<rparr>)"

definition IdleTimeout ::
  "int \<Rightarrow> ('e, 'm) pool_sys_scheme \<Rightarrow> ('e, 'm) pool_sys_scheme" where
  "IdleTimeout d s = (if d < Second then s else s\<lparr>idleTimeout := d\<rparr>)"

section \<open>Operations\<close>

definition pool_at :: "string \<Rightarrow> ('e, 'm) pool_sys_scheme \<Rightarrow> connPool" where
  "pool_at addr s = (case upstreamPool s addr of Some cp \<Rightarrow> cp | None \<Rightarrow> connPool_zero)"

definition upd_pool ::
  "string \<Rightarrow> (connPool \<Rightarrow> connPool) \<Rightarrow> ('e, 'm) pool_sys_scheme \<Rightarrow> ('e, 'm) pool_sys_scheme" where
  "upd_pool addr f s = s\<lparr>upstreamPool := (upstreamPool s)(addr \<mapsto> f (pool_at addr s))\<rparr>"

text \<open>\<open>upstreamPool.LoadOrStore(addr, &connPool{})\<close>: a missing pool is created.\<close>

definition LoadOrStore ::
  "string \<Rightarrow> ('e, 'm) pool_sys_scheme \<Rightarrow> connPool \<times> ('e, 'm) pool_sys_scheme" where
  "LoadOrStore addr s = (pool_at addr s, upd_pool addr id s)"

text \<open>\<open>atomic.AddInt32(&cp.count, d)\<close> wraps around.\<close>

definition AddCount ::
  "string \<Rightarrow> int32 \<Rightarrow> ('e, 'm) pool_sys_scheme \<Rightarrow> ('e, 'm) pool_sys_scheme" where
  "AddCount addr d s = upd_pool addr (\<lambda>cp. cp\<lparr>cp_count := cp_count cp + d\<rparr>) s"

text \<open>\<open>if err := conn.Close(); err != nil { metrics.CloseErrors.Inc() }\<close>.\<close>

definition close_counted ::
  "('e, 'x) env_scheme \<Rightarrow> net_conn \<Rightarrow> ('e, 'm) sys_scheme \<Rightarrow> ('e, 'm) sys_scheme" where
  "close_counted E c s =
     (let (err, s1) = net_Close E c s in
      case err of None \<Rightarrow> s1 | Some _ \<Rightarrow> count_metric CloseErrors s1)"

definition dialNew ::
  "('e, 'x) env_scheme \<Rightarrow> string \<Rightarrow> ('e, 'm) pool_sys_scheme
     \<Rightarrow> (go_error + net_conn) \<times> ('e, 'm) pool_sys_scheme" where
  "dialNew E addr s =
     (if sint (to_int32 (maxUpstreamConnectionsPerHost s)) \<le> sint (cp_count (pool_at addr s))
      then (Inl ErrDialTimeout, s)
      else
        (let s1 = AddCount addr 1 s;
             (r, s2) = dial E addr s1
         in case r of
              Inl err \<Rightarrow> (Inl err, AddCount addr (-1) s2)
            | Inr conn \<Rightarrow> (Inr conn, s2)))"

definition AcquireUpstreamConnection ::
  "('e, 'x) env_scheme \<Rightarrow> string \<Rightarrow> ('e, 'm) pool_sys_scheme
     \<Rightarrow> (go_error + net_conn) \<times> ('e, 'm) pool_sys_scheme" where
  "AcquireUpstreamConnection E addr s =
     (let (cp, s0) = LoadOrStore addr s in
      if cp_free cp \<noteq> [] then
        (let l = last (cp_free cp);
             s1 = upd_pool addr (\<lambda>cp. cp\<lparr>cp_free := butlast (cp_free cp)\<rparr>) s0;
             (t, s2) = now E s1
         in
         if idleTimeout s2 < t - returnedAt l then
           (let s3 = count_metric IdleDropErrors s2;
                (_, s4) = now E s3;
                s5 = close_counted E (idle_conn l) s4;
                s6 = AddCount addr (-1) s5
            in dialNew E addr s6)
         else (Inr (idle_conn l), s2))
      else dialNew E addr s0)"

definition ReleaseUpstreamConnection ::
  "('e, 'x) env_scheme \<Rightarrow> string \<Rightarrow> net_conn \<Rightarrow> ('e, 'm) pool_sys_scheme
     \<Rightarrow> ('e, 'm) pool_sys_scheme" where
  "ReleaseUpstreamConnection E addr conn s =
     (let (cp, s0) = LoadOrStore addr s in
      if maxUpstreamConnectionsPerHost s0 \<le> int (length (cp_free cp)) then
        close_counted E conn (AddCount addr (-1) s0)
      else
        (let (t, s1) = now E s0 in
         upd_pool addr
           (\<lambda>cp. cp\<lparr>cp_free := cp_free cp @ [\<lparr>idle_conn = conn, returnedAt = t\<rparr>]\<rparr>) s1))"

definition CloseAndDropUpstreamConnection ::
  "('e, 'x) env_scheme \<Rightarrow> string \<Rightarrow> net_conn \<Rightarrow> ('e, 'm) pool_sys_scheme
     \<Rightarrow> ('e, 'm) pool_sys_scheme" where
  "CloseAndDropUpstreamConnection E addr conn s =
     (let (cp, s0) = LoadOrStore addr s in
      close_counted E conn (AddCount addr (-1) s0))"

text \<open>
  pool_test_helpers.go: set a variable without validation and answer with the function that
  puts the old value back.
\<close>

definition SetMaxUpstreamConnectionsForTest ::
  "int \<Rightarrow> ('e, 'm) pool_sys_scheme
     \<Rightarrow> (('e, 'm) pool_sys_scheme \<Rightarrow> ('e, 'm) pool_sys_scheme) \<times> ('e, 'm) pool_sys_scheme" where
  "SetMaxUpstreamConnectionsForTest n s =
     (let old = maxUpstreamConnectionsPerHost s
      in (\<lambda>t. t\<lparr>maxUpstreamConnectionsPerHost := old\<rparr>, s\<lparr>maxUpstreamConnectionsPerHost := n\<rparr>))"

definition SetIdleTimeoutForTest ::
  "int \<Rightarrow> ('e, 'm) pool_sys_scheme
     \<Rightarrow> (('e, 'm) pool_sys_scheme \<Rightarrow> ('e, 'm) pool_sys_scheme) \<times> ('e, 'm) pool_sys_scheme" where
  "SetIdleTimeoutForTest d s =
     (let old = idleTimeout s in (\<lambda>t. t\<lparr>idleTimeout := old\<rparr>, s\<lparr>idleTimeout := d\<rparr>))"

definition SetCustomDialForTest ::
  "dial_func option \<Rightarrow> ('e, 'm) pool_sys_scheme
     \<Rightarrow> (('e, 'm) pool_sys_scheme \<Rightarrow> ('e, 'm) pool_sys_scheme) \<times> ('e, 'm) pool_sys_scheme" where
  "SetCustomDialForTest fn s =
     (let old = customDial s in (\<lambda>t. t\<lparr>customDial := old\<rparr>, s\<lparr>customDial := fn\<rparr>))"

lemma test_helpers_restore:
  "(case SetMaxUpstreamConnectionsForTest n s of (restore, t) \<Rightarrow> restore t) = s"
  "(case SetIdleTimeoutForTest d s of (restore, t) \<Rightarrow> restore t) = s"
  "(case SetCustomDialForTest f s of (restore, t) \<Rightarrow> restore t) = s"
  by (simp_all add: SetMaxUpstreamConnectionsForTest_def SetIdleTimeoutForTest_def
      SetCustomDialForTest_def)

section \<open>Observations\<close>

text \<open>Connections that exist for an address, idle ones, and those handed out.\<close>

definition slots :: "string \<Rightarrow> ('e, 'm) pool_sys_scheme \<Rightarrow> int" where
  "slots a s = sint (cp_count (pool_at a s))"

definition idle_list :: "string \<Rightarrow> ('e, 'm) pool_sys_scheme \<Rightarrow> idleConn list" where
  "idle_list a s = cp_free (pool_at a s)"

definition in_use :: "string \<Rightarrow> ('e, 'm) pool_sys_scheme \<Rightarrow> int" where
  "in_use a s = slots a s - int (length (idle_list a s))"

definition pool_wf :: "('e, 'm) pool_sys_scheme \<Rightarrow> bool" where
  "pool_wf s \<longleftrightarrow>
     1 \<le> maxUpstreamConnectionsPerHost s \<and> maxUpstreamConnectionsPerHost s < 2 ^ 31 \<and>
     (\<forall>a. 0 \<le> in_use a s \<and> slots a s \<le> maxUpstreamConnectionsPerHost s)"

lemma pool_wfD:
  assumes "pool_wf s"
  shows "1 \<le> maxUpstreamConnectionsPerHost s" "maxUpstreamConnectionsPerHost s < 2 ^ 31"
    and "0 \<le> in_use a s" "slots a s \<le> maxUpstreamConnectionsPerHost s"
    and "int (length (idle_list a s)) \<le> slots a s" "0 \<le> slots a s" "slots a s < 2 ^ 31 - 1 + 1"
  using assms unfolding pool_wf_def in_use_def by (auto, smt (verit) of_nat_0_le_iff)+


section \<open>Primitive steps on one pool\<close>

lemma pool_at_upd_pool [simp]:
  "pool_at b (upd_pool a f s) = (if b = a then f (pool_at a s) else pool_at b s)"
  by (simp add: upd_pool_def pool_at_def)

lemma upd_pool_sel [simp]:
  "maxUpstreamConnectionsPerHost (upd_pool a f s) = maxUpstreamConnectionsPerHost s"
  "idleTimeout (upd_pool a f s) = idleTimeout s"
  "customDial (upd_pool a f s) = customDial s" "tlsConfig (upd_pool a f s) = tlsConfig s"
  "dialTimeout (upd_pool a f s) = dialTimeout s"
  "ext (upd_pool a f s) = ext s" "trace (upd_pool a f s) = trace s"
  "mets (upd_pool a f s) = mets s" "pool_sys.more (upd_pool a f s) = pool_sys.more s"
  by (simp_all add: upd_pool_def)

lemma AddCount_sel [simp]:
  "pool_at b (AddCount a d s) =
     (if b = a then (pool_at a s)\<lparr>cp_count := cp_count (pool_at a s) + d\<rparr> else pool_at b s)"
  "maxUpstreamConnectionsPerHost (AddCount a d s) = maxUpstreamConnectionsPerHost s"
  "idleTimeout (AddCount a d s) = idleTimeout s"
  "customDial (AddCount a d s) = customDial s" "tlsConfig (AddCount a d s) = tlsConfig s"
  "dialTimeout (AddCount a d s) = dialTimeout s"
  "ext (AddCount a d s) = ext s" "trace (AddCount a d s) = trace s"
  "mets (AddCount a d s) = mets s" "pool_sys.more (AddCount a d s) = pool_sys.more s"
  by (simp_all add: AddCount_def)

text \<open>The variables of this theory, and those of every extension of its state, survive
  whatever touches only the external state, the trace and the metrics.\<close>

lemma pool_vars_of_more:
  assumes "sys.more s = sys.more t"
  shows "upstreamPool s = upstreamPool t" "pool_at a s = pool_at a t"
    "maxUpstreamConnectionsPerHost s = maxUpstreamConnectionsPerHost t"
    "idleTimeout s = idleTimeout t" "customDial s = customDial t" "tlsConfig s = tlsConfig t"
    "dialTimeout s = dialTimeout t" "pool_sys.more s = pool_sys.more t"
  using assms by (cases s, cases t, simp add: pool_at_def)+

lemma close_counted_frame [frame_simps]:
  "sys.more (close_counted E c s) = sys.more s"
  "trace (close_counted E c s) = trace s @ [EvClose c]"
  "gauges (mets (close_counted E c s)) = gauges (mets s)"
  "observed (mets (close_counted E c s)) = observed (mets s)"
  by (simp_all add: close_counted_def split_beta frame_simps split: option.split)

lemma close_counted_metric:
  "mets (close_counted E c s) =
     (case fst (conn_Close E c (ext s)) of
        None \<Rightarrow> mets s | Some _ \<Rightarrow> Inc CloseErrors (mets s))"
  by (simp add: close_counted_def split_beta call_simps frame_simps split: option.split)

lemma dial_frame [frame_simps]:
  "sys.more (snd (dial E a s)) = sys.more s"
  "mets (snd (dial E a s)) = mets s"
  "trace (snd (dial E a s)) =
     trace s @ [EvDial (dial_function s) (parseUpstreamAddressForDial a)]"
  by (simp_all add: dial_snd)

text \<open>The primitives of sys that pool operations call, seen through the pool's variables.\<close>

lemma pool_frame [simp]:
  "pool_at b (snd (now E s)) = pool_at b s"
  "maxUpstreamConnectionsPerHost (snd (now E s)) = maxUpstreamConnectionsPerHost s"
  "idleTimeout (snd (now E s)) = idleTimeout s"
  "pool_at b (close_counted E c s) = pool_at b s"
  "maxUpstreamConnectionsPerHost (close_counted E c s) = maxUpstreamConnectionsPerHost s"
  "idleTimeout (close_counted E c s) = idleTimeout s"
  "pool_at b (count_metric k s) = pool_at b s"
  "maxUpstreamConnectionsPerHost (count_metric k s) = maxUpstreamConnectionsPerHost s"
  "idleTimeout (count_metric k s) = idleTimeout s"
  "pool_at b (snd (dial E a s)) = pool_at b s"
  "maxUpstreamConnectionsPerHost (snd (dial E a s)) = maxUpstreamConnectionsPerHost s"
  "idleTimeout (snd (dial E a s)) = idleTimeout s"
  by (rule pool_vars_of_more, simp add: frame_simps)+

section \<open>dialNew\<close>

text \<open>At the limit \<open>dialNew\<close> refuses without dialling and changes nothing.\<close>

lemma dialNew_full:
  "sint (to_int32 (maxUpstreamConnectionsPerHost s)) \<le> slots a s \<Longrightarrow>
   dialNew E a s = (Inl ErrDialTimeout, s)"
  by (simp add: dialNew_def slots_def)

text \<open>Below it, exactly one dial; a failed dial gives its slot back.\<close>

lemma dialNew_room:
  assumes "slots a s < sint (to_int32 (maxUpstreamConnectionsPerHost s))"
  shows "fst (dialNew E a s) = fst (dial E a (AddCount a 1 s))"
    and "pool_at b (snd (dialNew E a s)) =
           (if b = a \<and> \<not> isl (fst (dialNew E a s))
            then (pool_at a s)\<lparr>cp_count := cp_count (pool_at a s) + 1\<rparr> else pool_at b s)"
    and "trace (snd (dialNew E a s)) =
           trace s @ [EvDial (dial_function s) (parseUpstreamAddressForDial a)]"
  using assms
  by (cases "fst (dial E a (AddCount a 1 s))";
      simp add: dialNew_def slots_def Let_def split_beta frame_simps dial_function_def)+

lemma dialNew_sel [simp]:
  "maxUpstreamConnectionsPerHost (snd (dialNew E a s)) = maxUpstreamConnectionsPerHost s"
  "idleTimeout (snd (dialNew E a s)) = idleTimeout s"
  "mets (snd (dialNew E a s)) = mets s"
  by (simp_all add: dialNew_def Let_def split_beta frame_simps split: sum.split)

section \<open>The four ways through AcquireUpstreamConnection\<close>

text \<open>The most recently returned connection is still good: it is handed out.\<close>

lemma acquire_reuse:
  assumes "idle_list a s \<noteq> []" and "fst (time_Now E (ext s)) - returnedAt (last (idle_list a s)) \<le> idleTimeout s"
  shows "AcquireUpstreamConnection E a s =
     (Inr (idle_conn (last (idle_list a s))),
      (upd_pool a (\<lambda>cp. cp\<lparr>cp_free := butlast (cp_free cp)\<rparr>) s)\<lparr>ext := snd (time_Now E (ext s))\<rparr>)"
  using assms
  by (simp add: AcquireUpstreamConnection_def LoadOrStore_def idle_list_def Let_def split_beta
      call_simps upd_pool_def pool_at_def)

text \<open>The state in which a stale connection has been closed and its slot given back.\<close>

definition dropped_stale ::
  "('e, 'x) env_scheme \<Rightarrow> string \<Rightarrow> ('e, 'm) pool_sys_scheme \<Rightarrow> ('e, 'm) pool_sys_scheme" where
  "dropped_stale E a s =
     AddCount a (-1)
       (close_counted E (idle_conn (last (idle_list a s)))
         (snd (now E (count_metric IdleDropErrors
           (snd (now E (upd_pool a (\<lambda>cp. cp\<lparr>cp_free := butlast (cp_free cp)\<rparr>)
             (upd_pool a id s))))))))"

lemma acquire_stale:
  assumes "idle_list a s \<noteq> []" and "idleTimeout s < fst (time_Now E (ext s)) - returnedAt (last (idle_list a s))"
  shows "AcquireUpstreamConnection E a s = dialNew E a (dropped_stale E a s)"
  using assms
  by (simp add: AcquireUpstreamConnection_def LoadOrStore_def idle_list_def Let_def split_beta
      call_simps dropped_stale_def)

lemma acquire_empty:
  assumes "idle_list a s = []"
  shows "AcquireUpstreamConnection E a s = dialNew E a (upd_pool a id s)"
  using assms by (simp add: AcquireUpstreamConnection_def LoadOrStore_def idle_list_def Let_def)

lemma dropped_stale_sel [simp]:
  "pool_at b (dropped_stale E a s) =
     (if b = a then \<lparr>cp_free = butlast (idle_list a s), cp_count = cp_count (pool_at a s) - 1\<rparr>
      else pool_at b s)"
  "maxUpstreamConnectionsPerHost (dropped_stale E a s) = maxUpstreamConnectionsPerHost s"
  "idleTimeout (dropped_stale E a s) = idleTimeout s"
  "trace (dropped_stale E a s) = trace s @ [EvClose (idle_conn (last (idle_list a s)))]"
  "counters (mets (dropped_stale E a s)) IdleDropErrors =
     Suc (counters (mets s) IdleDropErrors)"
  by (simp_all add: dropped_stale_def idle_list_def frame_simps close_counted_metric
      split: option.split)


lemma dropped_stale_vars:
  "customDial (dropped_stale E a s) = customDial s" "tlsConfig (dropped_stale E a s) = tlsConfig s"
  by (simp_all add: dropped_stale_def call_simps count_metric_def
      pool_vars_of_more [OF close_counted_frame(1)])

section \<open>Accounting\<close>

text \<open>
  Under \<open>pool_wf\<close> no counter wraps around, and every operation moves \<open>in_use\<close> by
  exactly the connection it hands out or takes back.
\<close>

lemma to_int32_limit:
  "pool_wf s \<Longrightarrow> sint (to_int32 (maxUpstreamConnectionsPerHost s)) = maxUpstreamConnectionsPerHost s"
  using pool_wfD(1,2) [of s] by (intro sint_to_int32) simp_all

lemma pool_wf_cong:
  assumes "\<And>a. pool_at a s = pool_at a t"
    and "maxUpstreamConnectionsPerHost s = maxUpstreamConnectionsPerHost t"
  shows "pool_wf s = pool_wf t" "in_use a s = in_use a t" "slots a s = slots a t"
    "idle_list a s = idle_list a t"
  using assms by (simp_all add: pool_wf_def in_use_def slots_def idle_list_def)

lemma upd_pool_id [simp]:
  "pool_wf (upd_pool a id s) = pool_wf s" "in_use b (upd_pool a id s) = in_use b s"
  "slots b (upd_pool a id s) = slots b s" "idle_list b (upd_pool a id s) = idle_list b s"
  by (rule pool_wf_cong; simp)+

lemma slots_pred:
  assumes "pool_wf s" and "1 \<le> slots a s"
  shows "sint (cp_count (pool_at a s) - 1) = slots a s - 1"
  using assms sint32_diff_1 [of "cp_count (pool_at a s)"] by (simp add: slots_def)

lemma slots_succ:
  assumes "pool_wf s" and "slots a s < maxUpstreamConnectionsPerHost s"
  shows "sint (cp_count (pool_at a s) + 1) = slots a s + 1"
  using assms pool_wfD(2) [of s] sint32_add_1 [of "cp_count (pool_at a s)"]
  by (simp add: slots_def)

lemma dropped_stale_accounting:
  assumes wf: "pool_wf s" and ne: "idle_list a s \<noteq> []"
  shows "pool_wf (dropped_stale E a s)" "in_use b (dropped_stale E a s) = in_use b s"
    "slots a (dropped_stale E a s) = slots a s - 1"
proof -
  have "1 \<le> slots a s"
    using pool_wfD(5) [OF wf, of a] ne by (cases "idle_list a s") auto
  then have pred: "sint (cp_count (pool_at a s) - 1) = slots a s - 1"
    by (rule slots_pred [OF wf])
  have len: "int (length (butlast (idle_list a s))) = int (length (idle_list a s)) - 1"
    using ne by (cases "idle_list a s" rule: rev_cases) auto
  show 1: "in_use b (dropped_stale E a s) = in_use b s" for b
    using pred len unfolding in_use_def by (simp add: slots_def idle_list_def)
  show 2: "slots a (dropped_stale E a s) = slots a s - 1"
    using pred by (simp add: slots_def)
  have "slots b (dropped_stale E a s) \<le> slots b s" for b
    using 2 by (cases "b = a") (simp_all add: slots_def)
  then show "pool_wf (dropped_stale E a s)"
    using wf 1 unfolding pool_wf_def by (auto intro: order_trans)
qed

lemma dialNew_accounting:
  assumes wf: "pool_wf s"
  shows "pool_wf (snd (dialNew E a s))"
    and "in_use b (snd (dialNew E a s)) =
           in_use b s + (if b = a \<and> \<not> isl (fst (dialNew E a s)) then 1 else 0)"
    and "idle_list b (snd (dialNew E a s)) = idle_list b s"
proof -
  have "pool_wf (snd (dialNew E a s)) \<and>
      in_use b (snd (dialNew E a s)) =
        in_use b s + (if b = a \<and> \<not> isl (fst (dialNew E a s)) then 1 else 0) \<and>
      idle_list b (snd (dialNew E a s)) = idle_list b s" for b
  proof (cases "slots a s < maxUpstreamConnectionsPerHost s")
    case False
    then show ?thesis using wf by (simp add: dialNew_full to_int32_limit)
  next
    case True
    note room = dialNew_room [where a = a and s = s and E = E, unfolded to_int32_limit [OF wf], OF True]
    note succ = slots_succ [OF wf True]
    show ?thesis
    proof (cases "isl (fst (dialNew E a s))")
      case True
      with room(2) have "pool_at b (snd (dialNew E a s)) = pool_at b s" for b by simp
      from pool_wf_cong [OF this] wf True show ?thesis by simp
    next
      case False
      with room(2) have at: "pool_at b (snd (dialNew E a s)) =
          (if b = a then (pool_at a s)\<lparr>cp_count := cp_count (pool_at a s) + 1\<rparr>
           else pool_at b s)" for b by simp
      have use: "in_use b (snd (dialNew E a s)) = in_use b s + (if b = a then 1 else 0)" for b
        using at [of b] succ by (simp add: in_use_def slots_def idle_list_def)
      have "slots b (snd (dialNew E a s)) \<le> maxUpstreamConnectionsPerHost s" for b
        using at [of b] succ \<open>slots a s < _\<close> pool_wfD(4) [OF wf, of b]
        by (auto simp: slots_def)
      with use wf have "pool_wf (snd (dialNew E a s))"
        by (auto simp: pool_wf_def)
      with use False at [of b] show ?thesis by (simp add: idle_list_def)
    qed
  qed
  then show "pool_wf (snd (dialNew E a s))"
    and "in_use b (snd (dialNew E a s)) =
           in_use b s + (if b = a \<and> \<not> isl (fst (dialNew E a s)) then 1 else 0)"
    and "idle_list b (snd (dialNew E a s)) = idle_list b s" by blast+
qed

lemma reuse_accounting:
  fixes e :: "'e" and s :: "('e, 'm) pool_sys_scheme"
  assumes wf: "pool_wf s" and ne: "idle_list a s \<noteq> []"
  defines "s' \<equiv> (upd_pool a (\<lambda>cp. cp\<lparr>cp_free := butlast (cp_free cp)\<rparr>) s)\<lparr>ext := e\<rparr>"
  shows "pool_wf s'" "in_use b s' = in_use b s + (if b = a then 1 else 0)"
    "slots b s' = slots b s"
proof -
  have at: "pool_at b s' =
      (if b = a then (pool_at a s)\<lparr>cp_free := butlast (idle_list a s)\<rparr> else pool_at b s)" for b
    by (simp add: s'_def upd_pool_def pool_at_def idle_list_def)
  have len: "int (length (butlast (idle_list a s))) = int (length (idle_list a s)) - 1"
    using ne by (cases "idle_list a s" rule: rev_cases) auto
  show slots: "slots b s' = slots b s" for b using at [of b] by (simp add: slots_def)
  show use: "in_use b s' = in_use b s + (if b = a then 1 else 0)" for b
    using at [of b] slots [of b] len by (simp add: in_use_def idle_list_def)
  have "maxUpstreamConnectionsPerHost s' = maxUpstreamConnectionsPerHost s"
    by (simp add: s'_def)
  with wf use slots show "pool_wf s'" by (auto simp: pool_wf_def)
qed

lemma acquire_limit [simp]:
  "maxUpstreamConnectionsPerHost (snd (AcquireUpstreamConnection E a s)) = maxUpstreamConnectionsPerHost s"
  "idleTimeout (snd (AcquireUpstreamConnection E a s)) = idleTimeout s"
  by (simp_all add: AcquireUpstreamConnection_def LoadOrStore_def Let_def split_beta)

lemma acquire_accounting:
  assumes wf: "pool_wf s"
  shows "pool_wf (snd (AcquireUpstreamConnection E a s))"
    and "in_use b (snd (AcquireUpstreamConnection E a s)) =
           in_use b s + (if b = a \<and> \<not> isl (fst (AcquireUpstreamConnection E a s)) then 1 else 0)"
proof -
  let ?stale = "idleTimeout s < fst (time_Now E (ext s)) - returnedAt (last (idle_list a s))"
  consider (empty) "idle_list a s = []" | (stale) "idle_list a s \<noteq> []" ?stale
    | (reuse) "idle_list a s \<noteq> []" "\<not> ?stale" by blast
  then have "pool_wf (snd (AcquireUpstreamConnection E a s)) \<and>
      in_use b (snd (AcquireUpstreamConnection E a s)) =
        in_use b s + (if b = a \<and> \<not> isl (fst (AcquireUpstreamConnection E a s)) then 1 else 0)"
  proof cases
    case empty
    then show ?thesis using wf by (simp add: acquire_empty dialNew_accounting)
  next
    case stale
    then show ?thesis
      using wf by (simp add: acquire_stale dialNew_accounting dropped_stale_accounting)
  next
    case reuse
    then show ?thesis using wf by (simp add: acquire_reuse reuse_accounting)
  qed
  then show "pool_wf (snd (AcquireUpstreamConnection E a s))"
    and "in_use b (snd (AcquireUpstreamConnection E a s)) =
           in_use b s + (if b = a \<and> \<not> isl (fst (AcquireUpstreamConnection E a s)) then 1 else 0)"
    by blast+
qed


text \<open>Giving a connection back. Room for it is guaranteed while \<open>pool_wf\<close> holds.\<close>

lemma release_room:
  assumes "int (length (idle_list a s)) < maxUpstreamConnectionsPerHost s"
  shows "ReleaseUpstreamConnection E a c s =
    (upd_pool a (\<lambda>cp. cp\<lparr>cp_free := cp_free cp @
        [\<lparr>idle_conn = c, returnedAt = fst (time_Now E (ext s))\<rparr>]\<rparr>) s)
      \<lparr>ext := snd (time_Now E (ext s))\<rparr>"
  using assms
  by (simp add: ReleaseUpstreamConnection_def LoadOrStore_def idle_list_def Let_def split_beta
      call_simps upd_pool_def pool_at_def)

lemma release_overflow:
  assumes "maxUpstreamConnectionsPerHost s \<le> int (length (idle_list a s))"
  shows "ReleaseUpstreamConnection E a c s = CloseAndDropUpstreamConnection E a c s"
  using assms
  by (simp add: ReleaseUpstreamConnection_def CloseAndDropUpstreamConnection_def
      LoadOrStore_def idle_list_def Let_def)

lemma release_limit [simp]:
  "maxUpstreamConnectionsPerHost (ReleaseUpstreamConnection E a c s) = maxUpstreamConnectionsPerHost s"
  "idleTimeout (ReleaseUpstreamConnection E a c s) = idleTimeout s"
  by (simp_all add: ReleaseUpstreamConnection_def LoadOrStore_def Let_def split_beta)

lemma drop_sel [simp]:
  "pool_at b (CloseAndDropUpstreamConnection E a c s) =
     (if b = a then (pool_at a s)\<lparr>cp_count := cp_count (pool_at a s) - 1\<rparr> else pool_at b s)"
  "maxUpstreamConnectionsPerHost (CloseAndDropUpstreamConnection E a c s) = maxUpstreamConnectionsPerHost s"
  "idleTimeout (CloseAndDropUpstreamConnection E a c s) = idleTimeout s"
  "trace (CloseAndDropUpstreamConnection E a c s) = trace s @ [EvClose c]"
  by (simp_all add: CloseAndDropUpstreamConnection_def LoadOrStore_def frame_simps)

lemma in_use_room:
  assumes "pool_wf s" and "1 \<le> in_use a s"
  shows "int (length (idle_list a s)) < maxUpstreamConnectionsPerHost s" "1 \<le> slots a s"
  using assms(2) pool_wfD(4) [OF assms(1), of a] unfolding in_use_def by auto

lemma release_accounting:
  assumes wf: "pool_wf s" and use: "1 \<le> in_use a s"
  shows "pool_wf (ReleaseUpstreamConnection E a c s)"
    and "in_use b (ReleaseUpstreamConnection E a c s) = in_use b s - (if b = a then 1 else 0)"
    and "slots b (ReleaseUpstreamConnection E a c s) = slots b s"
    and "idle_list a (ReleaseUpstreamConnection E a c s) =
           idle_list a s @ [\<lparr>idle_conn = c, returnedAt = fst (time_Now E (ext s))\<rparr>]"
proof -
  define s' where "s' = ReleaseUpstreamConnection E a c s"
  define l where "l = idle_list a s @ [\<lparr>idle_conn = c, returnedAt = fst (time_Now E (ext s))\<rparr>]"
  have at: "pool_at b s' = (if b = a then (pool_at a s)\<lparr>cp_free := l\<rparr> else pool_at b s)" for b
    using release_room [OF in_use_room(1) [OF wf use], of E c]
    by (simp add: s'_def l_def upd_pool_def pool_at_def idle_list_def)
  have slots: "slots b s' = slots b s" for b using at [of b] by (simp add: slots_def)
  have idle: "idle_list b s' = (if b = a then l else idle_list b s)" for b
    using at [of b] by (simp add: idle_list_def)
  have used: "in_use b s' = in_use b s - (if b = a then 1 else 0)" for b
    using slots [of b] idle [of b] by (simp add: in_use_def l_def)
  have "maxUpstreamConnectionsPerHost s' = maxUpstreamConnectionsPerHost s"
    by (simp add: s'_def)
  with wf used slots use have "pool_wf s'" by (auto simp: pool_wf_def)
  with used slots idle show "pool_wf (ReleaseUpstreamConnection E a c s)"
    "in_use b (ReleaseUpstreamConnection E a c s) = in_use b s - (if b = a then 1 else 0)"
    "slots b (ReleaseUpstreamConnection E a c s) = slots b s"
    "idle_list a (ReleaseUpstreamConnection E a c s) =
       idle_list a s @ [\<lparr>idle_conn = c, returnedAt = fst (time_Now E (ext s))\<rparr>]"
    by (simp_all add: s'_def l_def)
qed

lemma drop_accounting:
  assumes wf: "pool_wf s" and use: "1 \<le> in_use a s"
  shows "pool_wf (CloseAndDropUpstreamConnection E a c s)"
    and "in_use b (CloseAndDropUpstreamConnection E a c s) = in_use b s - (if b = a then 1 else 0)"
    and "slots b (CloseAndDropUpstreamConnection E a c s) = slots b s - (if b = a then 1 else 0)"
    and "idle_list b (CloseAndDropUpstreamConnection E a c s) = idle_list b s"
proof -
  define s' where "s' = CloseAndDropUpstreamConnection E a c s"
  have slots: "slots b s' = slots b s - (if b = a then 1 else 0)" for b
    using slots_pred [OF wf in_use_room(2) [OF wf use]] by (simp add: s'_def slots_def)
  have idle: "idle_list b s' = idle_list b s" for b by (simp add: s'_def idle_list_def)
  have used: "in_use b s' = in_use b s - (if b = a then 1 else 0)" for b
    using slots [of b] idle [of b] by (simp add: in_use_def)
  have "maxUpstreamConnectionsPerHost s' = maxUpstreamConnectionsPerHost s"
    by (simp add: s'_def)
  moreover have "slots b s' \<le> slots b s" for b using slots [of b] by simp
  ultimately have "pool_wf s'"
    using wf used use unfolding pool_wf_def by (auto intro: order_trans)
  with used slots idle show "pool_wf (CloseAndDropUpstreamConnection E a c s)"
    "in_use b (CloseAndDropUpstreamConnection E a c s) = in_use b s - (if b = a then 1 else 0)"
    "slots b (CloseAndDropUpstreamConnection E a c s) = slots b s - (if b = a then 1 else 0)"
    "idle_list b (CloseAndDropUpstreamConnection E a c s) = idle_list b s"
    by (simp_all add: s'_def)
qed

section \<open>The contract of the pool\<close>

text \<open>
  What a user of the pool relies on: \<open>acquire\<close> either fails or hands out one
  connection, and \<open>release\<close> and \<open>drop\<close> take back a connection that is in use. The
  locale proves once, for any pool with this contract, that a client which returns
  only what it holds stays within the limit.
\<close>

text \<open>
  A client of a pool holds the connections it acquired, each with its address; it
  returns one by its position in that list.
\<close>

datatype pool_op = OpAcquire string | OpRelease nat | OpDrop nat

fun client_step ::
  "(string \<Rightarrow> 's \<Rightarrow> ('err + 'c) \<times> 's) \<Rightarrow> (string \<Rightarrow> 'c \<Rightarrow> 's \<Rightarrow> 's) \<Rightarrow>
   (string \<Rightarrow> 'c \<Rightarrow> 's \<Rightarrow> 's) \<Rightarrow> pool_op \<Rightarrow>
   (string \<times> 'c) list \<times> 's \<Rightarrow> (string \<times> 'c) list \<times> 's" where
  "client_step acquire release dropc (OpAcquire a) (held, s) =
     (case acquire a s of (Inl _, s') \<Rightarrow> (held, s') | (Inr c, s') \<Rightarrow> ((a, c) # held, s'))"
| "client_step acquire release dropc (OpRelease i) (held, s) =
     (if i < length held
      then (take i held @ drop (Suc i) held, release (fst (held ! i)) (snd (held ! i)) s)
      else (held, s))"
| "client_step acquire release dropc (OpDrop i) (held, s) =
     (if i < length held
      then (take i held @ drop (Suc i) held, dropc (fst (held ! i)) (snd (held ! i)) s)
      else (held, s))"

fun client_run ::
  "(string \<Rightarrow> 's \<Rightarrow> ('err + 'c) \<times> 's) \<Rightarrow> (string \<Rightarrow> 'c \<Rightarrow> 's \<Rightarrow> 's) \<Rightarrow>
   (string \<Rightarrow> 'c \<Rightarrow> 's \<Rightarrow> 's) \<Rightarrow> pool_op list \<Rightarrow>
   (string \<times> 'c) list \<times> 's \<Rightarrow> (string \<times> 'c) list \<times> 's" where
  "client_run acquire release dropc [] st = st"
| "client_run acquire release dropc (op # ops) st =
     client_run acquire release dropc ops (client_step acquire release dropc op st)"

definition held_of :: "string \<Rightarrow> (string \<times> 'c) list \<Rightarrow> int" where
  "held_of a held = (\<Sum>h\<leftarrow>held. if fst h = a then 1 else 0)"

lemma held_of_simps [simp]:
  "held_of a [] = 0" "held_of a (h # held) = (if fst h = a then 1 else 0) + held_of a held"
  by (simp_all add: held_of_def)

lemma held_of_append: "held_of a (xs @ ys) = held_of a xs + held_of a ys"
  by (simp add: held_of_def)

lemma held_of_nonneg: "0 \<le> held_of a held"
  by (induction held) simp_all

lemma held_of_remove:
  assumes "i < length held"
  shows "held_of a (take i held @ drop (Suc i) held) =
     held_of a held - (if a = fst (held ! i) then 1 else 0)"
proof -
  have "held_of a held = held_of a (take i held @ held ! i # drop (Suc i) held)"
    using id_take_nth_drop [OF assms] by simp
  then show ?thesis by (simp add: held_of_append)
qed

lemma held_of_nth:
  assumes "i < length held"
  shows "1 \<le> held_of (fst (held ! i)) held"
  using held_of_remove [OF assms, of "fst (held ! i)"]
    held_of_nonneg [of "fst (held ! i)" "take i held @ drop (Suc i) held"] by simp

locale slot_pool =
  fixes acquire :: "string \<Rightarrow> 's \<Rightarrow> ('err + 'c) \<times> 's"
    and release :: "string \<Rightarrow> 'c \<Rightarrow> 's \<Rightarrow> 's"
    and dropc :: "string \<Rightarrow> 'c \<Rightarrow> 's \<Rightarrow> 's"
    and wf :: "'s \<Rightarrow> bool"
    and used :: "string \<Rightarrow> 's \<Rightarrow> int"
    and total :: "string \<Rightarrow> 's \<Rightarrow> int"
    and limit :: "'s \<Rightarrow> int"
  assumes wf_bounds: "wf s \<Longrightarrow> 0 \<le> used a s \<and> used a s \<le> total a s \<and> total a s \<le> limit s"
    and acquire_wf: "wf s \<Longrightarrow> wf (snd (acquire a s))"
    and acquire_used: "wf s \<Longrightarrow> used b (snd (acquire a s)) =
          used b s + (if b = a \<and> \<not> isl (fst (acquire a s)) then 1 else 0)"
    and acquire_keeps_limit: "limit (snd (acquire a s)) = limit s"
    and release_wf: "wf s \<Longrightarrow> 1 \<le> used a s \<Longrightarrow> wf (release a c s)"
    and release_used: "wf s \<Longrightarrow> 1 \<le> used a s \<Longrightarrow>
          used b (release a c s) = used b s - (if b = a then 1 else 0)"
    and release_keeps_limit: "limit (release a c s) = limit s"
    and drop_wf: "wf s \<Longrightarrow> 1 \<le> used a s \<Longrightarrow> wf (dropc a c s)"
    and drop_used: "wf s \<Longrightarrow> 1 \<le> used a s \<Longrightarrow>
          used b (dropc a c s) = used b s - (if b = a then 1 else 0)"
    and drop_keeps_limit: "limit (dropc a c s) = limit s"
begin

definition consistent :: "(string \<times> 'c) list \<times> 's \<Rightarrow> bool" where
  "consistent st \<longleftrightarrow> wf (snd st) \<and> (\<forall>a. used a (snd st) = held_of a (fst st))"

lemma consistent_step: "consistent st \<Longrightarrow> consistent (client_step acquire release dropc op st)"
proof (cases st)
  case (Pair held s)
  assume "consistent st"
  with Pair have wf: "wf s" and used: "\<And>a. used a s = held_of a held"
    by (simp_all add: consistent_def)
  show ?thesis
  proof (cases op)
    case (OpAcquire a)
    obtain r s' where r: "acquire a s = (r, s')" by fastforce
    show ?thesis
      using acquire_wf [OF wf, of a] acquire_used [OF wf, of _ a] used
      by (cases r) (auto simp: Pair OpAcquire r consistent_def held_of_def)
  next
    case (OpRelease i)
    show ?thesis
    proof (cases "i < length held")
      case True
      with used have "1 \<le> used (fst (held ! i)) s" by (simp add: held_of_nth)
      from release_wf [OF wf this] release_used [OF wf this] True used show ?thesis
        by (simp add: Pair OpRelease consistent_def held_of_remove)
    qed (use wf used in \<open>simp add: Pair OpRelease consistent_def\<close>)
  next
    case (OpDrop i)
    show ?thesis
    proof (cases "i < length held")
      case True
      with used have "1 \<le> used (fst (held ! i)) s" by (simp add: held_of_nth)
      from drop_wf [OF wf this] drop_used [OF wf this] True used show ?thesis
        by (simp add: Pair OpDrop consistent_def held_of_remove)
    qed (use wf used in \<open>simp add: Pair OpDrop consistent_def\<close>)
  qed
qed

lemma limit_step: "limit (snd (client_step acquire release dropc op st)) = limit (snd st)"
proof (cases st)
  case (Pair held s)
  show ?thesis
  proof (cases op)
    case (OpAcquire a)
    obtain r s' where r: "acquire a s = (r, s')" by fastforce
    then show ?thesis
      using acquire_keeps_limit [of a s] by (cases r) (simp_all add: Pair OpAcquire)
  qed (simp_all add: Pair release_keeps_limit drop_keeps_limit)
qed

lemma consistent_run: "consistent st \<Longrightarrow> consistent (client_run acquire release dropc ops st)"
  by (induction ops arbitrary: st) (simp_all add: consistent_step)

lemma limit_run: "limit (snd (client_run acquire release dropc ops st)) = limit (snd st)"
  by (induction ops arbitrary: st) (simp_all add: limit_step)

lemma client_within_limit:
  assumes "consistent st" and "client_run acquire release dropc ops st = (held, s)"
  shows "held_of a held \<le> total a s" "total a s \<le> limit (snd st)"
    "used a s = held_of a held"
  using consistent_run [OF assms(1), of ops] limit_run [of ops st] wf_bounds [of s a] assms(2)
  by (auto simp: consistent_def)

end


lemma pool_wf_bounds:
  assumes "pool_wf s"
  shows "0 \<le> in_use a s" "in_use a s \<le> slots a s" "slots a s \<le> maxUpstreamConnectionsPerHost s"
  using assms by (simp_all add: pool_wf_def in_use_def)

interpretation conn_pool: slot_pool
  "AcquireUpstreamConnection E" "ReleaseUpstreamConnection E"
  "CloseAndDropUpstreamConnection E" pool_wf in_use slots maxUpstreamConnectionsPerHost
  for E :: "('e, 'x) env_scheme"
  by unfold_locales
    (simp_all add: pool_wf_bounds acquire_accounting release_accounting drop_accounting)

section \<open>Properties\<close>

text \<open>The start state of the pool variables, for examples.\<close>

definition pool_init :: "'e \<Rightarrow> 'e pool_sys" where
  "pool_init e =
     \<lparr>ext = e, trace = [], mets = metrics_init, customDial = None, tlsConfig = None,
      dialTimeout = 0, upstreamPool = (\<lambda>_. None),
      maxUpstreamConnectionsPerHost = 100, idleTimeout = 45 * Second\<rparr>"

lemma pool_init_wf: "pool_wf (pool_init e)" "in_use a (pool_init e) = 0"
  "slots a (pool_init e) = 0" "idle_list a (pool_init e) = []"
  by (simp_all add: pool_wf_def in_use_def slots_def idle_list_def pool_at_def pool_init_def
      connPool_zero_def)

lemmas pool_eval =
  AcquireUpstreamConnection_def ReleaseUpstreamConnection_def
  CloseAndDropUpstreamConnection_def LoadOrStore_def dialNew_def dial_def dial_function_def
  upd_pool_def AddCount_def pool_at_def close_counted_def pool_init_def connPool_zero_def
  to_int32_def Second_def parseUpstreamAddressForDial_def HasPrefix_def PrefixHTTP_def
  PrefixHTTPS_def Let_def

text \<open>
  C21. Requests served one after the other never break the connection limit: a client
  that acquires connections and gives back, by Release or CloseAndDrop, only what it
  holds ends, from a pool with nothing in use, with the number of connections in use
  equal to what it holds at each address, and at no address do more connections exist
  than \<open>maxUpstreamConnectionsPerHost\<close>. The 32-bit counter never wraps.
\<close>
theorem pool_within_limit:
  assumes "pool_wf s" and "\<forall>a. in_use a s = 0"
    and "client_run (AcquireUpstreamConnection E) (ReleaseUpstreamConnection E)
           (CloseAndDropUpstreamConnection E) ops ([], s) = (held, s')"
  shows "in_use a s' = held_of a held \<and> held_of a held \<le> slots a s' \<and>
     slots a s' \<le> maxUpstreamConnectionsPerHost s"
proof -
  have "conn_pool.consistent ([], s)"
    using assms(1,2) by (simp add: conn_pool.consistent_def)
  from conn_pool.client_within_limit [OF this assms(3)] show ?thesis by simp
qed

theorem pool_within_limit_witness:
  "\<exists>held s'. client_run (AcquireUpstreamConnection sample_env)
       (ReleaseUpstreamConnection sample_env) (CloseAndDropUpstreamConnection sample_env)
       [OpAcquire ''h'', OpAcquire ''h'', OpRelease 1] ([], pool_init (0, [])) = (held, s') \<and>
     in_use ''h'' s' = held_of ''h'' held \<and> slots ''h'' s' \<le> 100"
proof -
  obtain held s' where run: "client_run (AcquireUpstreamConnection sample_env)
       (ReleaseUpstreamConnection sample_env) (CloseAndDropUpstreamConnection sample_env)
       [OpAcquire ''h'', OpAcquire ''h'', OpRelease 1] ([], pool_init (0, [])) = (held, s')"
    by fastforce
  have max: "maxUpstreamConnectionsPerHost (pool_init (0, [])) = 100"
    by (simp add: pool_init_def)
  have "in_use ''h'' s' = held_of ''h'' held \<and> slots ''h'' s' \<le> 100"
    using pool_within_limit [OF pool_init_wf(1) _ run, of "''h''"] unfolding max
    by (simp add: pool_init_wf(2))
  with run show ?thesis by blast
qed

text \<open>
  C28. Round trip: a connection that was just given back to a pool is the next one that
  Acquire hands out (last in, first out), as long as no more than \<open>idleTimeout\<close> passes
  between the two looks at the clock. Nothing is dialled or closed, the other idle
  connections stay where they are and the number of connections is the same.
\<close>
theorem release_acquire_roundtrip:
  assumes "pool_wf s" and "1 \<le> in_use a s"
    and "fst (time_Now E (ext (ReleaseUpstreamConnection E a c s))) -
         fst (time_Now E (ext s)) \<le> idleTimeout s"
  shows "fst (AcquireUpstreamConnection E a (ReleaseUpstreamConnection E a c s)) = Inr c \<and>
     idle_list a (snd (AcquireUpstreamConnection E a (ReleaseUpstreamConnection E a c s))) =
       idle_list a s \<and>
     slots a (snd (AcquireUpstreamConnection E a (ReleaseUpstreamConnection E a c s))) =
       slots a s \<and>
     trace (snd (AcquireUpstreamConnection E a (ReleaseUpstreamConnection E a c s))) = trace s"
proof -
  let ?s1 = "ReleaseUpstreamConnection E a c s"
  note rel = release_accounting [OF assms(1,2), where E = E and c = c]
  have tr: "trace ?s1 = trace s"
    using release_room [OF in_use_room(1) [OF assms(1,2)], of E c] by simp
  have reuse: "AcquireUpstreamConnection E a ?s1 =
     (Inr c, (upd_pool a (\<lambda>cp. cp\<lparr>cp_free := butlast (cp_free cp)\<rparr>) ?s1)
        \<lparr>ext := snd (time_Now E (ext ?s1))\<rparr>)"
    using acquire_reuse [where a = a and s = ?s1 and E = E] rel(4) assms(3) by simp
  have free: "cp_free (pool_at a ?s1) =
      idle_list a s @ [\<lparr>idle_conn = c, returnedAt = fst (time_Now E (ext s))\<rparr>]"
    using rel(4) by (simp add: idle_list_def)
  show ?thesis
    unfolding reuse using rel(3) [of a] tr free
    by (simp add: slots_def idle_list_def upd_pool_def pool_at_def)
qed


theorem release_acquire_roundtrip_witness:
  "\<exists>s :: sample_state pool_sys. pool_wf s \<and> 1 \<le> in_use ''h'' s \<and>
     fst (AcquireUpstreamConnection sample_env ''h''
       (ReleaseUpstreamConnection sample_env ''h'' (NetConn 0) s)) = Inr (NetConn 0)"
proof -
  define s where "s = snd (AcquireUpstreamConnection sample_env ''h'' (pool_init (0, [])))"
  have wf: "pool_wf s"
    unfolding s_def by (rule acquire_accounting(1)) (rule pool_init_wf)
  have ext: "ext s = (1, [])" and ok: "\<not> isl (fst (AcquireUpstreamConnection sample_env ''h''
      (pool_init (0, []))))" and tmo: "idleTimeout s = 45 * Second"
    by (simp_all add: s_def pool_eval sample_simps)
  have use: "1 \<le> in_use ''h'' s"
    using acquire_accounting(2) [OF pool_init_wf(1), of "''h''" sample_env "''h''" "(0, [])"] ok
    by (simp add: s_def pool_init_wf(2))
  have "ext (ReleaseUpstreamConnection sample_env ''h'' (NetConn 0) s) = (2, [])"
    using release_room [OF in_use_room(1) [OF wf use], of sample_env "NetConn 0"] ext
    by (simp add: sample_simps)
  then have "fst (AcquireUpstreamConnection sample_env ''h''
      (ReleaseUpstreamConnection sample_env ''h'' (NetConn 0) s)) = Inr (NetConn 0)"
    using release_acquire_roundtrip [OF wf use, of sample_env "NetConn 0"] ext tmo
    by (simp add: Second_def)
  with wf use show ?thesis by blast
qed

text \<open>
  Acquire hands out a connection from the pool only if it has been idle for at most
  \<open>idleTimeout\<close>; then it is the one returned last and nothing is dialled or closed.
  Every other connection it hands out comes from exactly one dial, made after the stale
  connection at the end of the free list, if there was one, has been closed.
\<close>
theorem acquire_never_stale:
  assumes "fst (AcquireUpstreamConnection E a s) = Inr c"
  shows "(\<exists>l. idle_list a s \<noteq> [] \<and> l = last (idle_list a s) \<and> c = idle_conn l \<and>
            fst (time_Now E (ext s)) - returnedAt l \<le> idleTimeout s \<and>
            trace (snd (AcquireUpstreamConnection E a s)) = trace s) \<or>
         (\<exists>f. trace (snd (AcquireUpstreamConnection E a s)) =
            trace s @ (if idle_list a s = [] then [] else [EvClose (idle_conn (last (idle_list a s)))]) @
              [EvDial f (parseUpstreamAddressForDial a)])"
proof -
  have dialled: "\<exists>f. trace (snd (dialNew E a t)) = trace t @ [EvDial f (parseUpstreamAddressForDial a)]"
    if "fst (dialNew E a t) = Inr c" for t
    using that dialNew_full [of t a E] dialNew_room(3) [of a t E]
    by (cases "slots a t < sint (to_int32 (maxUpstreamConnectionsPerHost t))") auto
  consider (empty) "idle_list a s = []"
    | (stale) "idle_list a s \<noteq> []"
        "idleTimeout s < fst (time_Now E (ext s)) - returnedAt (last (idle_list a s))"
    | (reuse) "idle_list a s \<noteq> []"
        "fst (time_Now E (ext s)) - returnedAt (last (idle_list a s)) \<le> idleTimeout s"
    by linarith
  then show ?thesis
  proof cases
    case empty
    with assms dialled [of "upd_pool a id s"] show ?thesis by (simp add: acquire_empty)
  next
    case stale
    with assms dialled [of "dropped_stale E a s"] show ?thesis by (simp add: acquire_stale)
  next
    case reuse
    with assms show ?thesis by (simp add: acquire_reuse)
  qed
qed

theorem acquire_never_stale_witness:
  "fst (AcquireUpstreamConnection sample_env ''h'' (pool_init (0, []))) = Inr (NetConn 0) \<and>
   (\<exists>f. trace (snd (AcquireUpstreamConnection sample_env ''h'' (pool_init (0, [])))) =
      [EvDial f ''h''])"
proof -
  have ok: "fst (AcquireUpstreamConnection sample_env ''h'' (pool_init (0, []))) = Inr (NetConn 0)"
    by (simp add: pool_eval sample_simps)
  from acquire_never_stale [OF this] ok show ?thesis
    by (simp add: pool_init_wf(4) parseUpstreamAddressForDial_def HasPrefix_def PrefixHTTP_def
        PrefixHTTPS_def) (simp add: pool_init_def)
qed

text \<open>A dialNew that fails below the limit has asked the dialer once and passes its error on.\<close>

lemma dialNew_failed:
  assumes "fst (dialNew E a t) = Inl e" and room: "slots a t < sint (to_int32 (maxUpstreamConnectionsPerHost t))"
  shows "fst (dial_call E (dial_function t) (parseUpstreamAddressForDial a) (ext t)) = Inl e"
proof -
  have "fst (dial E a (AddCount a 1 t)) = Inl e"
    using assms(1) dialNew_room(1) [OF room, of E] by simp
  then show ?thesis
    by (cases "fst (dial_call E (dial_function t) (parseUpstreamAddressForDial a) (ext t))")
      (simp_all add: dial_fst dial_function_def)
qed

text \<open>Whatever Acquire does, the idle list of its upstream loses its last entry, if it has one.\<close>

lemma dialNew_idle: "idle_list b (snd (dialNew E a s)) = idle_list b s"
  by (simp add: dialNew_def Let_def split_beta idle_list_def split: sum.split)

lemma acquire_idle:
  fixes s :: "('e, 'm) pool_sys_scheme"
  shows "idle_list b (snd (AcquireUpstreamConnection E a s)) =
    (if b = a then butlast (idle_list a s) else idle_list b s)"
proof (cases "idle_list a s = []")
  case True
  then show ?thesis by (simp add: acquire_empty dialNew_idle)
next
  case False
  show ?thesis
  proof (cases "fst (time_Now E (ext s)) - returnedAt (last (idle_list a s)) \<le> idleTimeout s")
    case True
    then show ?thesis by (simp add: acquire_reuse [OF False] idle_list_def pool_at_def upd_pool_def)
  next
    case stale: False
    then have "AcquireUpstreamConnection E a s = dialNew E a (dropped_stale E a s)"
      by (intro acquire_stale [OF False]) simp
    then show ?thesis by (simp add: dialNew_idle) (simp add: idle_list_def)
  qed
qed

text \<open>The three places where Acquire can fail or not, for a well-formed pool.\<close>

lemma acquire_cases:
  assumes "pool_wf s"
  obtains (full) "idle_list a s = []" "slots a s = maxUpstreamConnectionsPerHost s"
      "AcquireUpstreamConnection E a s = (Inl ErrDialTimeout, upd_pool a id s)"
  | (dials) t where "AcquireUpstreamConnection E a s = dialNew E a t" "pool_wf t"
      "slots a t < sint (to_int32 (maxUpstreamConnectionsPerHost t))"
      "idle_list a t = butlast (idle_list a s)" "in_use a t = in_use a s"
      "customDial t = customDial s" "tlsConfig t = tlsConfig s"
      "idle_list a s = [] \<Longrightarrow> slots a s < maxUpstreamConnectionsPerHost s"
      "idle_list a s \<noteq> [] \<Longrightarrow>
         idleTimeout s < fst (time_Now E (ext s)) - returnedAt (last (idle_list a s))"
  | (reuse) "idle_list a s \<noteq> []"
      "fst (time_Now E (ext s)) - returnedAt (last (idle_list a s)) \<le> idleTimeout s"
proof -
  note lim = to_int32_limit [OF assms]
  show thesis
  proof (cases "idle_list a s = []")
    case True
    note eq = acquire_empty [where E = E, OF True]
    show thesis
    proof (cases "slots a s < maxUpstreamConnectionsPerHost s")
      case room: True
      show thesis by (rule dials [of "upd_pool a id s"]) (use assms eq room True lim in simp_all)
    next
      case False
      then have "slots a s = maxUpstreamConnectionsPerHost s"
        using pool_wf_bounds(3) [OF assms, of a] by simp
      then show thesis
        using full True eq dialNew_full [where s = "upd_pool a id s" and a = a and E = E] lim by simp
    qed
  next
    case False
    show thesis
    proof (cases "fst (time_Now E (ext s)) - returnedAt (last (idle_list a s)) \<le> idleTimeout s")
      case True
      with False show thesis by (rule reuse)
    next
      case stale: False
      note t = dropped_stale_accounting [OF assms False, where E = E]
      show thesis
      proof (rule dials [of "dropped_stale E a s"])
        show "AcquireUpstreamConnection E a s = dialNew E a (dropped_stale E a s)"
          using stale by (intro acquire_stale [OF False]) simp
        show "slots a (dropped_stale E a s) <
            sint (to_int32 (maxUpstreamConnectionsPerHost (dropped_stale E a s)))"
          using t(3) pool_wf_bounds(3) [OF assms, of a] lim by simp
      qed (use t stale False in \<open>simp_all add: idle_list_def dropped_stale_vars\<close>)
    qed
  qed
qed

text \<open>
  C29. A failing Acquire takes no slot and reports why. If no connection is idle and as many are in use as
  the limit allows, the error is \<open>ErrDialTimeout\<close> and nothing has been dialled. In every other case the error
  is the dialer's own, from exactly one dial with the dial function in force and no retry, before which at
  most the stale idle connection has been closed. Afterwards the connections in use are as if the call had
  not been made, and of the idle ones only the stale one is gone.
\<close>
theorem acquire_error_leaks_nothing:
  fixes s :: "('e, 'm) pool_sys_scheme" and E :: "('e, 'x) env_scheme"
  assumes wf: "pool_wf s" and err: "AcquireUpstreamConnection E a s = (Inl e, t)"
  shows "in_use a t = in_use a s \<and> idle_list a t = butlast (idle_list a s) \<and>
    (if idle_list a s = [] \<and> in_use a s = maxUpstreamConnectionsPerHost s
     then e = ErrDialTimeout \<and> trace t = trace s
     else (\<exists>w. fst (dial_call E (dial_function s) (parseUpstreamAddressForDial a) w) = Inl e \<and>
            (idle_list a s = [] \<longrightarrow> w = ext s)) \<and>
       trace t = trace s @
         (if idle_list a s = [] then [] else [EvClose (idle_conn (last (idle_list a s)))]) @
         [EvDial (dial_function s) (parseUpstreamAddressForDial a)])"
proof -
  have use: "in_use a t = in_use a s" "idle_list a t = butlast (idle_list a s)"
    using acquire_accounting(2) [OF wf, where a = a and b = a and E = E]
      acquire_idle [of a E a s] err by simp_all
  have dialled: "fst (dial_call E (dial_function u) (parseUpstreamAddressForDial a) (ext u)) = Inl e \<and>
      trace t = trace u @ [EvDial (dial_function u) (parseUpstreamAddressForDial a)]"
    if "AcquireUpstreamConnection E a s = dialNew E a u"
      "slots a u < sint (to_int32 (maxUpstreamConnectionsPerHost u))" for u :: "('e, 'm) pool_sys_scheme"
  proof -
    have eq: "dialNew E a u = (Inl e, t)" using that(1) err by simp
    with dialNew_failed [OF _ that(2), of E e] dialNew_room(3) [OF that(2), of E] show ?thesis by simp
  qed
  note lim = to_int32_limit [OF wf]
  show ?thesis
  proof (cases "idle_list a s = []")
    case True
    note eq = acquire_empty [where E = E, OF True]
    have slots: "slots a s = in_use a s" using True by (simp add: in_use_def)
    show ?thesis
    proof (cases "slots a s < maxUpstreamConnectionsPerHost s")
      case room: True
      with dialled [OF eq] lim True slots use show ?thesis
        by (auto simp: dial_function_def)
    next
      case False
      then have "slots a s = maxUpstreamConnectionsPerHost s" using pool_wf_bounds(3) [OF wf, of a] by simp
      with dialNew_full [where s = "upd_pool a id s" and a = a and E = E] eq err lim True slots use
      show ?thesis by simp
    qed
  next
    case False
    have stale: "\<not> fst (time_Now E (ext s)) - returnedAt (last (idle_list a s)) \<le> idleTimeout s"
      using acquire_reuse [where E = E, OF False] err by auto
    then have eq: "AcquireUpstreamConnection E a s = dialNew E a (dropped_stale E a s)"
      by (intro acquire_stale [OF False]) simp
    have "slots a (dropped_stale E a s) < sint (to_int32 (maxUpstreamConnectionsPerHost (dropped_stale E a s)))"
      using dropped_stale_accounting(3) [OF wf False, of E] pool_wf_bounds(3) [OF wf, of a] lim by simp
    from dialled [OF eq this] False use show ?thesis
      by (auto simp: dial_function_def dropped_stale_vars)
  qed
qed

text \<open>An environment in which nothing can be dialled.\<close>

definition dead_env :: "sample_state env" where
  "dead_env = sample_env\<lparr>dial_call := (\<lambda>f a st. (Inl (OtherError ''refused''), st))\<rparr>"

lemma dead_env_sel [simp]:
  "time_Now dead_env = time_Now sample_env"
  "dial_call dead_env f a st = (Inl (OtherError ''refused''), st)"
  "conn_Close dead_env = conn_Close sample_env"
  by (simp_all add: dead_env_def)

theorem acquire_error_leaks_nothing_witness:
  "\<exists>t. AcquireUpstreamConnection dead_env ''h'' (pool_init (0, [])) = (Inl (OtherError ''refused''), t) \<and>
   in_use ''h'' t = 0 \<and> trace t = [EvDial FasthttpDial ''h'']"
proof -
  obtain t where err: "AcquireUpstreamConnection dead_env ''h'' (pool_init (0, [])) =
      (Inl (OtherError ''refused''), t)"
    by (simp add: pool_eval sample_simps)
  have "parseUpstreamAddressForDial ''h'' = ''h''"
    by (simp add: parseUpstreamAddressForDial_def HasPrefix_def PrefixHTTP_def PrefixHTTPS_def)
  with acquire_error_leaks_nothing [OF pool_init_wf(1) err] err show ?thesis
    by (auto simp: pool_init_wf) (auto simp: pool_init_def dial_function_def idle_list_def pool_at_def connPool_zero_def)
qed

text \<open>
  Upstreams do not disturb each other: an operation on one address leaves the pool
  of every other address, its idle connections and its counter, exactly as it was.
\<close>
theorem pools_isolated:
  fixes s :: "('e, 'm) pool_sys_scheme"
  assumes "b \<noteq> a"
  shows "pool_at b (snd (AcquireUpstreamConnection E a s)) = pool_at b s \<and>
    pool_at b (ReleaseUpstreamConnection E a c s) = pool_at b s \<and>
    pool_at b (CloseAndDropUpstreamConnection E a c s) = pool_at b s"
proof (intro conjI)
  have dialNew: "pool_at b (snd (dialNew E a t)) = pool_at b t" for t :: "('e, 'm) pool_sys_scheme"
    using assms by (simp add: dialNew_def Let_def split_beta split: sum.split)
  then show "pool_at b (snd (AcquireUpstreamConnection E a s)) = pool_at b s"
    using assms by (simp add: AcquireUpstreamConnection_def LoadOrStore_def Let_def split_beta)
  show "pool_at b (ReleaseUpstreamConnection E a c s) = pool_at b s"
    using assms by (simp add: ReleaseUpstreamConnection_def LoadOrStore_def Let_def split_beta)
  show "pool_at b (CloseAndDropUpstreamConnection E a c s) = pool_at b s"
    using assms by simp
qed

theorem pools_isolated_witness:
  "pool_at ''b'' (snd (AcquireUpstreamConnection sample_env ''a'' (pool_init (0, [])))) =
     connPool_zero"
  using pools_isolated [of "''b''" "''a''" sample_env "pool_init (0, [])"]
  by (simp add: pool_init_def pool_at_def)

text \<open>
  C40. The limit is an int but is compared as an int32. A limit from \<open>2^31\<close> up to, but not
  including, \<open>2^32\<close> is accepted by \<open>MaxConnectionsPerHost\<close> (its only check is the
  minimum of 1) and turns negative in \<open>dialNew\<close>: every Acquire at an address without
  idle connections then fails with \<open>ErrDialTimeout\<close>, with nothing dialled.
\<close>
theorem max_conns_int32_truncation:
  assumes "2 ^ 31 \<le> n" and "n < 2 ^ 32" and "idle_list a s = []" and "0 \<le> slots a s"
  shows "fst (AcquireUpstreamConnection E a (MaxConnectionsPerHost n s)) = Inl ErrDialTimeout \<and>
    trace (snd (AcquireUpstreamConnection E a (MaxConnectionsPerHost n s))) = trace s"
proof -
  let ?s = "MaxConnectionsPerHost n s"
  have set: "?s = s\<lparr>maxUpstreamConnectionsPerHost := n\<rparr>"
    using assms(1) by (simp add: MaxConnectionsPerHost_def)
  have at: "pool_at b ?s = pool_at b s" for b by (simp add: set pool_at_def)
  have "to_int32 n = to_int32 (n - 2 ^ 32)"
    by (simp add: to_int32_def word_of_int_eq_iff take_bit_eq_mod)
  then have "sint (to_int32 n) = n - 2 ^ 32"
    using assms(1,2) by (simp add: sint_to_int32)
  then have "sint (to_int32 (maxUpstreamConnectionsPerHost (upd_pool a id ?s))) \<le>
      slots a (upd_pool a id ?s)"
    using assms(2,4) at by (simp add: slots_def set)
  from dialNew_full [OF this, of E] show ?thesis
    using assms(3) at by (simp add: acquire_empty idle_list_def set)
qed

theorem max_conns_int32_truncation_witness:
  "fst (AcquireUpstreamConnection sample_env ''h''
     (MaxConnectionsPerHost 2147483648 (pool_init (0, [])))) = Inl ErrDialTimeout"
  using max_conns_int32_truncation
    [of 2147483648 "''h''" "pool_init (0, []) :: sample_state pool_sys" sample_env]
  by (simp add: pool_init_wf)


section \<open>The abstract pool\<close>

text \<open>
  What a pool promises, without maps, counters and words: a stack of idle connections
  and a number of connections in use. \<open>t\<close> is the time of the call and \<open>d\<close> the answer
  of the dialer if it is asked.
\<close>

record abs_pool =
  ap_idle :: "idleConn list"
  ap_used :: nat

definition acquire_spec ::
  "int \<Rightarrow> int \<Rightarrow> int \<Rightarrow> go_error + net_conn \<Rightarrow> abs_pool \<Rightarrow> (go_error + net_conn) \<times> abs_pool" where
  "acquire_spec limit timeout t d p =
     (if ap_idle p \<noteq> [] \<and> t - returnedAt (last (ap_idle p)) \<le> timeout then
        (Inr (idle_conn (last (ap_idle p))),
         \<lparr>ap_idle = butlast (ap_idle p), ap_used = Suc (ap_used p)\<rparr>)
      else if ap_idle p = [] \<and> limit \<le> int (ap_used p) then (Inl ErrDialTimeout, p)
      else
        (d, \<lparr>ap_idle = butlast (ap_idle p),
             ap_used = (if isl d then ap_used p else Suc (ap_used p))\<rparr>))"

definition release_spec :: "int \<Rightarrow> net_conn \<Rightarrow> abs_pool \<Rightarrow> abs_pool" where
  "release_spec t c p =
     \<lparr>ap_idle = ap_idle p @ [\<lparr>idle_conn = c, returnedAt = t\<rparr>], ap_used = ap_used p - 1\<rparr>"

definition drop_spec :: "abs_pool \<Rightarrow> abs_pool" where
  "drop_spec p = p\<lparr>ap_used := ap_used p - 1\<rparr>"

definition abs_pool_of :: "string \<Rightarrow> ('e, 'm) pool_sys_scheme \<Rightarrow> abs_pool" where
  "abs_pool_of a s = \<lparr>ap_idle = idle_list a s, ap_used = nat (in_use a s)\<rparr>"

lemma abs_pool_dialNew:
  assumes "pool_wf s"
  shows "abs_pool_of a (snd (dialNew E a s)) =
    \<lparr>ap_idle = idle_list a s,
     ap_used = (if isl (fst (dialNew E a s)) then nat (in_use a s) else Suc (nat (in_use a s)))\<rparr>"
  using dialNew_accounting(2,3) [OF assms, where a = a and b = a and E = E]
    pool_wf_bounds(1) [OF assms, of a]
  by (simp add: abs_pool_of_def Suc_nat_eq_nat_zadd1 add.commute)

lemma abs_pool_of_eq: "abs_pool_of a s = \<lparr>ap_idle = idle_list a s, ap_used = nat (in_use a s)\<rparr>"
  by (simp add: abs_pool_of_def)

text \<open>An answer of the dialer: of \<open>dial\<close> in any state with the same dialer and TLS configuration.\<close>

definition dial_answer ::
  "('e, 'x) env_scheme \<Rightarrow> string \<Rightarrow> ('e, 'm) pool_sys_scheme \<Rightarrow> go_error + net_conn \<Rightarrow> bool" where
  "dial_answer E a s d \<longleftrightarrow>
     (\<exists>st :: ('e, 'm) pool_sys_scheme. customDial st = customDial s \<and> tlsConfig st = tlsConfig s \<and>
        d = fst (dial E a st))"

lemma acquire_refines:
  assumes wf: "pool_wf s"
  shows "\<exists>d. dial_answer E a s d \<and>
    (fst (AcquireUpstreamConnection E a s), abs_pool_of a (snd (AcquireUpstreamConnection E a s))) =
      acquire_spec (maxUpstreamConnectionsPerHost s) (idleTimeout s)
        (fst (time_Now E (ext s))) d (abs_pool_of a s)"
proof (cases rule: acquire_cases [where a = a and E = E, OF wf])
  case 1
  have "dial_answer E a s (fst (dial E a s))" by (auto simp: dial_answer_def)
  with 1 show ?thesis
    by (intro exI [of _ "fst (dial E a s)"]) (simp add: acquire_spec_def abs_pool_of_eq in_use_def)
next
  case (2 t)
  have "customDial (AddCount a 1 t) = customDial s \<and> tlsConfig (AddCount a 1 t) = tlsConfig s \<and>
      fst (dialNew E a t) = fst (dial E a (AddCount a 1 t))"
    using dialNew_room(1) [OF 2(3), of E] 2(6,7) by simp
  then have "dial_answer E a s (fst (dialNew E a t))" unfolding dial_answer_def by blast
  moreover have "idle_list a s = [] \<Longrightarrow> \<not> maxUpstreamConnectionsPerHost s \<le> int (nat (in_use a s))"
    using 2(8) pool_wfD(1) [OF wf] by (simp add: in_use_def)
  ultimately show ?thesis
    using abs_pool_dialNew [OF 2(2), of a E] 2(1,4,5,9)
    by (intro exI [of _ "fst (dialNew E a t)"]) (auto simp: acquire_spec_def abs_pool_of_eq)
next
  case 3
  have "nat (in_use a s + 1) = Suc (nat (in_use a s))"
    using pool_wf_bounds(1) [OF wf, of a] by simp
  moreover have "dial_answer E a s (fst (dial E a s))" by (auto simp: dial_answer_def)
  ultimately show ?thesis
    using 3 reuse_accounting(2) [OF wf 3(1)]
    by (intro exI [of _ "fst (dial E a s)"])
      (simp add: acquire_reuse acquire_spec_def abs_pool_of_def,
        simp add: idle_list_def upd_pool_def pool_at_def)
qed

text \<open>
  C12. Refinement: seen through \<open>abs_pool_of\<close>, the connection pool of an address is the
  abstract pool. Acquire is \<open>acquire_spec\<close> at the time it looks at the clock, with an
  answer of the dialer in force; Release and CloseAndDrop of a connection in use are
  \<open>release_spec\<close> and \<open>drop_spec\<close>; all three keep \<open>pool_wf\<close>.
\<close>
theorem pool_refines_abstract:
  assumes wf: "pool_wf s"
  shows "(\<exists>d. dial_answer E a s d \<and>
      (fst (AcquireUpstreamConnection E a s), abs_pool_of a (snd (AcquireUpstreamConnection E a s))) =
        acquire_spec (maxUpstreamConnectionsPerHost s) (idleTimeout s)
          (fst (time_Now E (ext s))) d (abs_pool_of a s)) \<and>
    pool_wf (snd (AcquireUpstreamConnection E a s)) \<and>
    (1 \<le> in_use a s \<longrightarrow>
       abs_pool_of a (ReleaseUpstreamConnection E a c s) =
         release_spec (fst (time_Now E (ext s))) c (abs_pool_of a s) \<and>
       abs_pool_of a (CloseAndDropUpstreamConnection E a c s) = drop_spec (abs_pool_of a s) \<and>
       pool_wf (ReleaseUpstreamConnection E a c s) \<and>
       pool_wf (CloseAndDropUpstreamConnection E a c s))"
proof (intro conjI impI)
  show "pool_wf (snd (AcquireUpstreamConnection E a s))" by (rule acquire_accounting(1) [OF wf])
  assume use: "1 \<le> in_use a s"
  note rel = release_accounting [OF wf use, where E = E and c = c]
  note drp = drop_accounting [OF wf use, where E = E and c = c]
  show "abs_pool_of a (ReleaseUpstreamConnection E a c s) =
      release_spec (fst (time_Now E (ext s))) c (abs_pool_of a s)"
    using rel(2) [of a] rel(4) use by (simp add: abs_pool_of_def release_spec_def nat_diff_distrib)
  show "abs_pool_of a (CloseAndDropUpstreamConnection E a c s) = drop_spec (abs_pool_of a s)"
    using drp(2,4) [of a] use by (simp add: abs_pool_of_def drop_spec_def nat_diff_distrib)
  show "pool_wf (ReleaseUpstreamConnection E a c s)" by (rule rel(1))
  show "pool_wf (CloseAndDropUpstreamConnection E a c s)" by (rule drp(1))
qed (rule acquire_refines [OF wf])

theorem pool_refines_abstract_witness:
  "\<exists>d. dial_answer sample_env ''h'' (pool_init (0, [])) d \<and>
       (fst (AcquireUpstreamConnection sample_env ''h'' (pool_init (0, []))),
        abs_pool_of ''h'' (snd (AcquireUpstreamConnection sample_env ''h'' (pool_init (0, []))))) =
     acquire_spec 100 (45 * Second) 0 d \<lparr>ap_idle = [], ap_used = 0\<rparr>"
  using pool_refines_abstract [OF pool_init_wf(1), of sample_env "''h''" "(0, [])"]
  by (simp add: abs_pool_of_def pool_init_wf) (simp add: pool_init_def)

end
