(* ===== verification/PoolConcurrency.thy ===== *)
theory PoolConcurrency
  imports ConnPool "HOL-Library.Multiset"
begin

text \<open>
  The pool of one upstream address under \<open>N\<close> goroutines. The operations of pool.go and
  upstream_pool.go are cut at their atomic actions: a critical section of \<open>cp.mu\<close> is one
  step when nothing in it can be seen from outside before it ends, and each
  \<open>atomic.LoadInt32\<close>, \<open>atomic.AddInt32\<close>, dial and Close is a step of its own. A
  goroutine is a program counter that says which action comes next and which
  connection it has in hand. Steps of different goroutines interleave freely.
\<close>

section \<open>Steps\<close>

datatype pc =
    Outside                \<comment> \<open>not in the pool's code, no connection\<close>
  | Popped idleConn        \<comment> \<open>Acquire: popped under the lock, age not yet checked\<close>
  | Stale net_conn         \<comment> \<open>Acquire: too old, to be closed\<close>
  | StaleClosed            \<comment> \<open>Acquire: closed, counter to be decremented\<close>
  | DialLoad               \<comment> \<open>dialNew: about to load the counter\<close>
  | DialAdd                \<comment> \<open>dialNew: below the limit, about to increment\<close>
  | Dialing                \<comment> \<open>dialNew: in dial\<close>
  | DialUndo               \<comment> \<open>dialNew: dial failed, about to decrement\<close>
  | Holding net_conn       \<comment> \<open>Acquire returned this connection\<close>
  | RelOverflow net_conn   \<comment> \<open>Release: lock held, pool full, about to decrement\<close>
  | RelClose net_conn      \<comment> \<open>Release: lock held, about to close\<close>
  | DropClose net_conn     \<comment> \<open>CloseAndDrop: decremented, about to close\<close>

text \<open>\<open>c_known\<close> and \<open>c_closed\<close> record the connections dialled and closed so far.\<close>

record cpool =
  c_free :: "idleConn list"
  c_count :: int32
  c_lock :: "nat option"
  c_pc :: "nat \<Rightarrow> pc"
  c_now :: int
  c_known :: "net_conn set"
  c_closed :: "net_conn list"

definition cpool_init :: cpool where
  "cpool_init =
     \<lparr>c_free = [], c_count = 0, c_lock = None, c_pc = (\<lambda>_. Outside), c_now = 0,
      c_known = {}, c_closed = []\<rparr>"

definition goto :: "nat \<Rightarrow> pc \<Rightarrow> cpool \<Rightarrow> cpool" where
  "goto t p s = s\<lparr>c_pc := (c_pc s)(t := p)\<rparr>"

lemma goto_sel [simp]:
  "c_pc (goto t p s) = (c_pc s)(t := p)" "c_free (goto t p s) = c_free s"
  "c_count (goto t p s) = c_count s" "c_lock (goto t p s) = c_lock s"
  "c_now (goto t p s) = c_now s" "c_known (goto t p s) = c_known s"
  "c_closed (goto t p s) = c_closed s"
  by (simp_all add: goto_def)

inductive pool_step :: "nat \<Rightarrow> int \<Rightarrow> int \<Rightarrow> cpool \<Rightarrow> cpool \<Rightarrow> bool"
  for N :: nat and limit :: int and timeout :: int where
  tick: "0 \<le> d \<Longrightarrow> pool_step N limit timeout s (s\<lparr>c_now := c_now s + d\<rparr>)"
| acquire_pop: "t < N \<Longrightarrow> c_pc s t = Outside \<Longrightarrow> c_lock s = None \<Longrightarrow> c_free s \<noteq> [] \<Longrightarrow>
    pool_step N limit timeout s
      (goto t (Popped (last (c_free s))) (s\<lparr>c_free := butlast (c_free s)\<rparr>))"
| acquire_none: "t < N \<Longrightarrow> c_pc s t = Outside \<Longrightarrow> c_lock s = None \<Longrightarrow> c_free s = [] \<Longrightarrow>
    pool_step N limit timeout s (goto t DialLoad s)"
| check_fresh: "t < N \<Longrightarrow> c_pc s t = Popped l \<Longrightarrow> \<not> timeout < c_now s - returnedAt l \<Longrightarrow>
    pool_step N limit timeout s (goto t (Holding (idle_conn l)) s)"
| check_stale: "t < N \<Longrightarrow> c_pc s t = Popped l \<Longrightarrow> timeout < c_now s - returnedAt l \<Longrightarrow>
    pool_step N limit timeout s (goto t (Stale (idle_conn l)) s)"
| stale_close: "t < N \<Longrightarrow> c_pc s t = Stale c \<Longrightarrow>
    pool_step N limit timeout s (goto t StaleClosed (s\<lparr>c_closed := c_closed s @ [c]\<rparr>))"
| stale_dec: "t < N \<Longrightarrow> c_pc s t = StaleClosed \<Longrightarrow>
    pool_step N limit timeout s (goto t DialLoad (s\<lparr>c_count := c_count s - 1\<rparr>))"
| load_full: "t < N \<Longrightarrow> c_pc s t = DialLoad \<Longrightarrow> sint (to_int32 limit) \<le> sint (c_count s) \<Longrightarrow>
    pool_step N limit timeout s (goto t Outside s)"
| load_room: "t < N \<Longrightarrow> c_pc s t = DialLoad \<Longrightarrow> \<not> sint (to_int32 limit) \<le> sint (c_count s) \<Longrightarrow>
    pool_step N limit timeout s (goto t DialAdd s)"
| dial_add: "t < N \<Longrightarrow> c_pc s t = DialAdd \<Longrightarrow>
    pool_step N limit timeout s (goto t Dialing (s\<lparr>c_count := c_count s + 1\<rparr>))"
| dial_ok: "t < N \<Longrightarrow> c_pc s t = Dialing \<Longrightarrow> c \<notin> c_known s \<Longrightarrow>
    pool_step N limit timeout s (goto t (Holding c) (s\<lparr>c_known := insert c (c_known s)\<rparr>))"
| dial_fail: "t < N \<Longrightarrow> c_pc s t = Dialing \<Longrightarrow> pool_step N limit timeout s (goto t DialUndo s)"
| dial_undo: "t < N \<Longrightarrow> c_pc s t = DialUndo \<Longrightarrow>
    pool_step N limit timeout s (goto t Outside (s\<lparr>c_count := c_count s - 1\<rparr>))"
| release_push: "t < N \<Longrightarrow> c_pc s t = Holding c \<Longrightarrow> c_lock s = None \<Longrightarrow>
    \<not> limit \<le> int (length (c_free s)) \<Longrightarrow>
    pool_step N limit timeout s
      (goto t Outside (s\<lparr>c_free := c_free s @ [\<lparr>idle_conn = c, returnedAt = c_now s\<rparr>]\<rparr>))"
| release_full: "t < N \<Longrightarrow> c_pc s t = Holding c \<Longrightarrow> c_lock s = None \<Longrightarrow>
    limit \<le> int (length (c_free s)) \<Longrightarrow>
    pool_step N limit timeout s (goto t (RelOverflow c) (s\<lparr>c_lock := Some t\<rparr>))"
| overflow_dec: "t < N \<Longrightarrow> c_pc s t = RelOverflow c \<Longrightarrow>
    pool_step N limit timeout s (goto t (RelClose c) (s\<lparr>c_count := c_count s - 1\<rparr>))"
| overflow_close: "t < N \<Longrightarrow> c_pc s t = RelClose c \<Longrightarrow>
    pool_step N limit timeout s
      (goto t Outside (s\<lparr>c_lock := None, c_closed := c_closed s @ [c]\<rparr>))"
| drop_dec: "t < N \<Longrightarrow> c_pc s t = Holding c \<Longrightarrow> c_lock s = None \<Longrightarrow>
    pool_step N limit timeout s (goto t (DropClose c) (s\<lparr>c_count := c_count s - 1\<rparr>))"
| drop_close: "t < N \<Longrightarrow> c_pc s t = DropClose c \<Longrightarrow>
    pool_step N limit timeout s (goto t Outside (s\<lparr>c_closed := c_closed s @ [c]\<rparr>))"

inductive reachable :: "nat \<Rightarrow> int \<Rightarrow> int \<Rightarrow> cpool \<Rightarrow> bool"
  for N :: nat and limit :: int and timeout :: int where
  start: "reachable N limit timeout cpool_init"
| step: "reachable N limit timeout s \<Longrightarrow> pool_step N limit timeout s s' \<Longrightarrow>
    reachable N limit timeout s'"

text \<open>An invariant of the steps holds in every reachable state.\<close>

locale pool_invariant =
  fixes N :: nat and limit timeout :: int and I :: "cpool \<Rightarrow> bool"
  assumes init: "I cpool_init"
    and pres: "I s \<Longrightarrow> pool_step N limit timeout s s' \<Longrightarrow> I s'"
begin

lemma holds: "reachable N limit timeout s \<Longrightarrow> I s"
  by (induction rule: reachable.induct) (auto intro: init pres)

end

section \<open>Where the connections are\<close>

text \<open>A sum over the goroutines, split into one of them and the rest.\<close>

definition rest :: "nat \<Rightarrow> nat \<Rightarrow> ('p \<Rightarrow> 'b) \<Rightarrow> (nat \<Rightarrow> 'p) \<Rightarrow> 'b :: comm_monoid_add" where
  "rest N t f p = (\<Sum>i\<in>{..<N} - {t}. f (p i))"

lemma rest_upd [simp]: "rest N t f (p(t := x)) = rest N t f p"
  unfolding rest_def by (rule sum.cong) auto

lemma sum_split: "t < N \<Longrightarrow> (\<Sum>i<N. f (p i)) = f (p t) + rest N t f p"
  unfolding rest_def by (rule sum.remove) auto

text \<open>The connection a goroutine is responsible for, and whether it occupies a slot.\<close>

fun owned :: "pc \<Rightarrow> net_conn multiset" where
  "owned (Popped l) = {#idle_conn l#}"
| "owned (Stale c) = {#c#}"
| "owned (Holding c) = {#c#}"
| "owned (RelOverflow c) = {#c#}"
| "owned (RelClose c) = {#c#}"
| "owned (DropClose c) = {#c#}"
| "owned _ = {#}"

fun slot :: "pc \<Rightarrow> int" where
  "slot (Popped l) = 1" | "slot (Stale c) = 1" | "slot StaleClosed = 1"
| "slot Dialing = 1" | "slot DialUndo = 1" | "slot (Holding c) = 1"
| "slot (RelOverflow c) = 1" | "slot _ = 0"

text \<open>A goroutine between the check of the counter and its increment.\<close>

fun pending :: "pc \<Rightarrow> int" where
  "pending DialAdd = 1" | "pending _ = 0"

definition ledger :: "nat \<Rightarrow> cpool \<Rightarrow> net_conn multiset" where
  "ledger N s = mset (map idle_conn (c_free s)) + (\<Sum>t<N. owned (c_pc s t)) + mset (c_closed s)"

definition slots_used :: "nat \<Rightarrow> cpool \<Rightarrow> int" where
  "slots_used N s = int (length (c_free s)) + (\<Sum>t<N. slot (c_pc s t))"

definition pending_adds :: "nat \<Rightarrow> cpool \<Rightarrow> int" where
  "pending_adds N s = (\<Sum>t<N. pending (c_pc s t))"

lemma slot_range: "0 \<le> slot p" "slot p \<le> 1"
  by (cases p; simp)+

lemma pending_range: "0 \<le> pending p" "pending p \<le> 1" "slot p + pending p \<le> 1"
  by (cases p; simp)+

lemma ledger_split:
  "t < N \<Longrightarrow> ledger N s = mset (map idle_conn (c_free s)) + owned (c_pc s t) +
     rest N t owned (c_pc s) + mset (c_closed s)"
  by (simp add: ledger_def sum_split)

lemma slots_split:
  "t < N \<Longrightarrow> slots_used N s =
     int (length (c_free s)) + slot (c_pc s t) + rest N t slot (c_pc s)"
  by (simp add: slots_used_def sum_split)

lemma pending_split:
  "t < N \<Longrightarrow> pending_adds N s = pending (c_pc s t) + rest N t pending (c_pc s)"
  by (simp add: pending_adds_def sum_split)

text \<open>Every connection ever dialled is in one place: idle, with one goroutine, or closed.\<close>

definition conserved :: "nat \<Rightarrow> cpool \<Rightarrow> bool" where
  "conserved N s \<longleftrightarrow> finite (c_known s) \<and> ledger N s = mset_set (c_known s)"

lemma mset_last_butlast: "xs \<noteq> [] \<Longrightarrow> mset (map f xs) = add_mset (f (last xs)) (mset (map f (butlast xs)))"
  by (cases xs rule: rev_cases) simp_all

lemma step_ledger:
  assumes "pool_step N limit timeout s s'"
  shows "ledger N s' = ledger N s \<and> c_known s' = c_known s \<or>
    (\<exists>c. c \<notin> c_known s \<and> c_known s' = insert c (c_known s) \<and> ledger N s' = add_mset c (ledger N s))"
  using assms
proof cases
  case (tick d)
  then show ?thesis by (simp add: ledger_def)
next
  case (acquire_pop t)
  then show ?thesis
    using mset_last_butlast [of "c_free s" idle_conn] by (simp add: ledger_split [of t N])
next
  case (acquire_none t)
  then show ?thesis by (simp add: ledger_split [of t N])
next
  case (check_fresh t l)
  then show ?thesis by (simp add: ledger_split [of t N])
next
  case (check_stale t l)
  then show ?thesis by (simp add: ledger_split [of t N])
next
  case (stale_close t c)
  then show ?thesis by (simp add: ledger_split [of t N])
next
  case (stale_dec t)
  then show ?thesis by (simp add: ledger_split [of t N])
next
  case (load_full t)
  then show ?thesis by (simp add: ledger_split [of t N])
next
  case (load_room t)
  then show ?thesis by (simp add: ledger_split [of t N])
next
  case (dial_add t)
  then show ?thesis by (simp add: ledger_split [of t N])
next
  case (dial_ok t c)
  then show ?thesis by (simp add: ledger_split [of t N])
next
  case (dial_fail t)
  then show ?thesis by (simp add: ledger_split [of t N])
next
  case (dial_undo t)
  then show ?thesis by (simp add: ledger_split [of t N])
next
  case (release_push t c)
  then show ?thesis by (simp add: ledger_split [of t N])
next
  case (release_full t c)
  then show ?thesis by (simp add: ledger_split [of t N])
next
  case (overflow_dec t c)
  then show ?thesis by (simp add: ledger_split [of t N])
next
  case (overflow_close t c)
  then show ?thesis by (simp add: ledger_split [of t N])
next
  case (drop_dec t c)
  then show ?thesis by (simp add: ledger_split [of t N])
next
  case (drop_close t c)
  then show ?thesis by (simp add: ledger_split [of t N])
qed


section \<open>How many there are\<close>

text \<open>
  The counter is the number of occupied slots, and occupied slots plus increments that
  are already decided exceed the limit by less than the number of goroutines.
\<close>

definition counted :: "nat \<Rightarrow> int \<Rightarrow> cpool \<Rightarrow> bool" where
  "counted N limit s \<longleftrightarrow>
     sint (c_count s) = slots_used N s \<and>
     slots_used N s + pending_adds N s \<le> limit + int N - 1 \<and>
     int (length (c_free s)) \<le> limit"

lemma rest_slot_nonneg: "0 \<le> rest N t slot p"
  unfolding rest_def by (rule sum_nonneg) (simp add: slot_range)

lemma rest_pending_range:
  assumes "t < N"
  shows "0 \<le> rest N t pending p" "rest N t pending p \<le> int N - 1"
proof -
  show "0 \<le> rest N t pending p"
    unfolding rest_def by (rule sum_nonneg) (simp add: pending_range)
  have "rest N t pending p \<le> (\<Sum>i\<in>{..<N} - {t}. 1)"
    unfolding rest_def by (rule sum_mono) (simp add: pending_range)
  also have "\<dots> = int N - 1" using assms by (simp add: card_Diff_singleton)
  finally show "rest N t pending p \<le> int N - 1" .
qed

lemma slots_used_nonneg: "0 \<le> slots_used N s"
  unfolding slots_used_def by (simp add: sum_nonneg slot_range)

lemma pending_adds_nonneg: "0 \<le> pending_adds N s"
  unfolding pending_adds_def by (simp add: sum_nonneg pending_range)

text \<open>The two counter updates, when the goroutine's slot says they are due.\<close>

lemma counted_dec:
  assumes "counted N limit s" and "t < N" and "slot (c_pc s t) = 1"
  shows "sint (c_count s - 1) = slots_used N s - 1"
proof -
  have "1 \<le> slots_used N s"
    using assms(3) rest_slot_nonneg [of N t "c_pc s"] by (simp add: slots_split [OF assms(2)])
  then show ?thesis
    using assms(1) sint32_diff_1 [of "c_count s"] by (simp add: counted_def)
qed

lemma counted_inc:
  assumes "counted N limit s" and "t < N" and "pending (c_pc s t) = 1"
    and "limit + int N \<le> 2 ^ 31"
  shows "sint (c_count s + 1) = slots_used N s + 1"
proof -
  have "1 \<le> pending_adds N s"
    using assms(3) rest_pending_range(1) [OF assms(2), of "c_pc s"]
    by (simp add: pending_split [OF assms(2)])
  then show ?thesis
    using assms(1,4) sint32_add_1 [of "c_count s"] by (simp add: counted_def)
qed

lemma step_counted:
  assumes step: "pool_step N limit timeout s s'" and inv: "counted N limit s"
    and limit: "1 \<le> limit" "limit + int N \<le> 2 ^ 31"
  shows "counted N limit s'"
  using step
proof cases
  case (tick d)
  with inv show ?thesis by (simp add: counted_def slots_used_def pending_adds_def)
next
  case (load_room t)
  have "sint (to_int32 limit) = limit"
    using limit load_room(2) by (intro sint_to_int32) simp_all
  with load_room inv rest_pending_range(2) [OF load_room(2), of "c_pc s"] show ?thesis
    by (simp add: counted_def slots_split [of t N] pending_split [of t N])
next
  case (acquire_pop t)
  obtain xs x where "c_free s = xs @ [x]"
    using acquire_pop(5) by (cases "c_free s" rule: rev_cases) simp_all
  with acquire_pop inv show ?thesis
    by (simp add: counted_def slots_split [of t N] pending_split [of t N])
next
  case (dial_add t)
  with inv counted_inc [OF inv dial_add(2) _ limit(2)] show ?thesis
    by (simp add: counted_def slots_split [of t N] pending_split [of t N])
next
  case (stale_dec t)
  with inv counted_dec [OF inv stale_dec(2)] show ?thesis
    by (simp add: counted_def slots_split [of t N] pending_split [of t N])
next
  case (dial_undo t)
  with inv counted_dec [OF inv dial_undo(2)] show ?thesis
    by (simp add: counted_def slots_split [of t N] pending_split [of t N])
next
  case (overflow_dec t c)
  with inv counted_dec [OF inv overflow_dec(2)] show ?thesis
    by (simp add: counted_def slots_split [of t N] pending_split [of t N])
next
  case (drop_dec t c)
  with inv counted_dec [OF inv drop_dec(2)] show ?thesis
    by (simp add: counted_def slots_split [of t N] pending_split [of t N])
next
  case (acquire_none t)
  with inv show ?thesis by (simp add: counted_def slots_split [of t N] pending_split [of t N])
next
  case (check_fresh t l)
  with inv show ?thesis by (simp add: counted_def slots_split [of t N] pending_split [of t N])
next
  case (check_stale t l)
  with inv show ?thesis by (simp add: counted_def slots_split [of t N] pending_split [of t N])
next
  case (stale_close t c)
  with inv show ?thesis by (simp add: counted_def slots_split [of t N] pending_split [of t N])
next
  case (load_full t)
  with inv show ?thesis by (simp add: counted_def slots_split [of t N] pending_split [of t N])
next
  case (dial_ok t c)
  with inv show ?thesis by (simp add: counted_def slots_split [of t N] pending_split [of t N])
next
  case (dial_fail t)
  with inv show ?thesis by (simp add: counted_def slots_split [of t N] pending_split [of t N])
next
  case (release_push t c)
  with inv show ?thesis by (simp add: counted_def slots_split [of t N] pending_split [of t N])
next
  case (release_full t c)
  with inv show ?thesis by (simp add: counted_def slots_split [of t N] pending_split [of t N])
next
  case (overflow_close t c)
  with inv show ?thesis by (simp add: counted_def slots_split [of t N] pending_split [of t N])
next
  case (drop_close t c)
  with inv show ?thesis by (simp add: counted_def slots_split [of t N] pending_split [of t N])
qed


section \<open>Invariants of every run\<close>

interpretation conservation: pool_invariant N limit timeout "conserved N"
  for N :: nat and limit timeout :: int
proof unfold_locales
  show "conserved N cpool_init"
    by (simp add: conserved_def ledger_def cpool_init_def)
  show "conserved N s \<Longrightarrow> pool_step N limit timeout s s' \<Longrightarrow> conserved N s'" for s s'
    using step_ledger [of N limit timeout s s'] by (auto simp: conserved_def)
qed

interpretation counting: pool_invariant N limit timeout
  "\<lambda>s. 1 \<le> limit \<and> limit + int N \<le> 2 ^ 31 \<longrightarrow> counted N limit s"
  for N :: nat and limit timeout :: int
proof unfold_locales
  show "1 \<le> limit \<and> limit + int N \<le> 2 ^ 31 \<longrightarrow> counted N limit cpool_init"
    by (simp add: counted_def slots_used_def pending_adds_def cpool_init_def)
  show "1 \<le> limit \<and> limit + int N \<le> 2 ^ 31 \<longrightarrow> counted N limit s'"
    if "1 \<le> limit \<and> limit + int N \<le> 2 ^ 31 \<longrightarrow> counted N limit s"
      and "pool_step N limit timeout s s'" for s s'
    using that step_counted [of N limit timeout s s'] by blast
qed

text \<open>The lock is held only by a goroutine on Release's overflow path.\<close>

fun in_overflow :: "pc \<Rightarrow> bool" where
  "in_overflow (RelOverflow c) = True" | "in_overflow (RelClose c) = True"
| "in_overflow _ = False"

definition lock_ok :: "nat \<Rightarrow> cpool \<Rightarrow> bool" where
  "lock_ok N s \<longleftrightarrow>
     (\<forall>t. in_overflow (c_pc s t) \<longleftrightarrow> c_lock s = Some t) \<and> (\<forall>t. N \<le> t \<longrightarrow> c_pc s t = Outside)"

lemma lock_ok_step: "lock_ok N s \<Longrightarrow> pool_step N limit timeout s s' \<Longrightarrow> lock_ok N s'"
  by (erule pool_step.cases; simp add: lock_ok_def)
    (metis in_overflow.simps option.inject option.distinct(1) leD)+

interpretation locking: pool_invariant N limit timeout "lock_ok N"
  for N :: nat and limit timeout :: int
proof unfold_locales
  show "lock_ok N cpool_init" by (simp add: lock_ok_def cpool_init_def)
qed (rule lock_ok_step)


section \<open>Properties\<close>

lemma ledger_count_le_1: "conserved N s \<Longrightarrow> count (ledger N s) c \<le> 1"
  by (simp add: conserved_def count_mset_set')

lemma owned_sum_two:
  fixes p :: "nat \<Rightarrow> pc"
  assumes "t < N" "u < N" "t \<noteq> u"
  shows "count (owned (p t)) c + count (owned (p u)) c \<le> count (\<Sum>i<N. owned (p i)) c"
proof -
  have "rest N t owned p = owned (p u) + (\<Sum>i\<in>{..<N} - {t} - {u}. owned (p i))"
    unfolding rest_def using assms by (intro sum.remove) auto
  then show ?thesis by (simp add: sum_split [OF assms(1)])
qed

text \<open>
  C11. Exclusive ownership under concurrency: whatever the interleaving of any number of
  goroutines, every connection ever dialled is in exactly one place, counted with
  multiplicity: in the free list, in the hands of one goroutine, or closed. So two
  goroutines never hold the same connection, a connection that is held is neither idle
  nor closed, and no connection is closed twice.
\<close>
theorem connection_exclusive:
  assumes "reachable N limit timeout s"
  shows "mset (map idle_conn (c_free s)) + (\<Sum>t<N. owned (c_pc s t)) + mset (c_closed s) =
           mset_set (c_known s) \<and>
    (c_pc s t = Holding c \<and> c_pc s u = Holding c \<longrightarrow> t = u) \<and>
    (c_pc s t = Holding c \<longrightarrow> c \<notin> idle_conn ` set (c_free s) \<and> c \<notin> set (c_closed s)) \<and>
    distinct (c_closed s)"
proof (intro conjI impI)
  note inv = conservation.holds [OF assms]
  note outside = locking.holds [OF assms]
  have bound: "count (mset (map idle_conn (c_free s))) c +
      count (\<Sum>t<N. owned (c_pc s t)) c + count (mset (c_closed s)) c \<le> 1" for c
    using ledger_count_le_1 [OF inv, of c] by (simp add: ledger_def)
  have in_N: "t < N" if "c_pc s t = Holding c" for t
    using outside that unfolding lock_ok_def by (metis linorder_not_less pc.distinct(15))
  have one: "1 \<le> count (\<Sum>t<N. owned (c_pc s t)) c" if "c_pc s t = Holding c" for t
    using that by (simp add: sum_split [OF in_N [OF that]])
  show "mset (map idle_conn (c_free s)) + (\<Sum>t<N. owned (c_pc s t)) + mset (c_closed s) =
      mset_set (c_known s)"
    using inv by (simp add: conserved_def ledger_def)
  show "t = u" if "c_pc s t = Holding c \<and> c_pc s u = Holding c"
  proof (rule ccontr)
    assume "t \<noteq> u"
    with that owned_sum_two [OF in_N in_N, of t u "c_pc s" c] bound [of c] show False by simp
  qed
  show "c \<notin> idle_conn ` set (c_free s)" if "c_pc s t = Holding c"
  proof
    assume "c \<in> idle_conn ` set (c_free s)"
    then have "1 \<le> count (mset (map idle_conn (c_free s))) c"
      by (metis count_greater_eq_one_iff in_image_mset mset_map set_mset_mset)
    with one [OF that] bound [of c] show False by linarith
  qed
  show "c \<notin> set (c_closed s)" if "c_pc s t = Holding c"
  proof
    assume "c \<in> set (c_closed s)"
    then have "1 \<le> count (mset (c_closed s)) c" by (metis count_greater_eq_one_iff set_mset_mset)
    with one [OF that] bound [of c] show False by linarith
  qed
  have "count (mset (c_closed s)) c \<le> 1" for c using bound [of c] by simp
  then have "mset (c_closed s) = mset_set (set (c_closed s))"
    by (intro multiset_eqI) (simp add: count_mset_set' le_Suc_eq)
  then show "distinct (c_closed s)" by (metis finite_set mset_set_set mset_eq_setD
      distinct_count_atmost_1 count_mset_set' set_mset_mset)
qed

text \<open>
  C22. The limit under concurrency: with \<open>N\<close> goroutines and a limit for which limit plus \<open>N\<close> is at
  most \<open>2^31\<close>, the counter of an upstream is always the true number of slots (idle connections plus
  goroutines that hold one or are dialling), so that it does not wrap, the idle list
  never exceeds the limit, and the number of connections exceeds the limit by at most \<open>N - 1\<close>.
  (Nearer to \<open>2^31\<close> the int32 counter can wrap.)
\<close>
theorem connection_bound_concurrent:
  assumes "reachable N limit timeout s" and "1 \<le> limit" and "limit + int N \<le> 2 ^ 31"
  shows "sint (c_count s) = slots_used N s \<and> 0 \<le> slots_used N s \<and>
    slots_used N s \<le> limit + int N - 1 \<and> int (length (c_free s)) \<le> limit"
  using counting.holds [OF assms(1)] assms(2,3) slots_used_nonneg [of N s]
    pending_adds_nonneg [of N s]
  by (simp add: counted_def)

lemma lock_holder_steps:
  assumes "lock_ok N s" and "c_lock s = Some u"
  shows "u < N \<and> (\<exists>s'. pool_step N limit timeout s s' \<and> c_pc s' u \<noteq> c_pc s u)"
proof -
  from assms have over: "in_overflow (c_pc s u)" by (simp add: lock_ok_def)
  with assms(1) have u: "u < N"
    unfolding lock_ok_def by (metis in_overflow.simps(3) linorder_not_less)
  from over consider c where "c_pc s u = RelOverflow c" | c where "c_pc s u = RelClose c"
    by (cases "c_pc s u") auto
  then have "\<exists>s'. pool_step N limit timeout s s' \<and> c_pc s' u \<noteq> c_pc s u"
  proof cases
    case (1 c)
    from overflow_dec [OF u 1, of limit timeout] 1 show ?thesis by fastforce
  next
    case (2 c)
    from overflow_close [OF u 2, of limit timeout] 2 show ?thesis by fastforce
  qed
  with u show ?thesis by blast
qed

lemma unlocked_steps:
  assumes "t < N" and "c_lock s = None \<or> (\<forall>c. c_pc s t \<noteq> Holding c) \<and> c_pc s t \<noteq> Outside"
  shows "\<exists>s'. pool_step N limit timeout s s' \<and> c_pc s' t \<noteq> c_pc s t"
proof (cases "c_pc s t")
  case Outside
  with assms(2) have "c_lock s = None" by simp
  then show ?thesis
    using acquire_pop [OF assms(1) Outside] acquire_none [OF assms(1) Outside] Outside
    by (cases "c_free s = []") fastforce+
next
  case (Popped l)
  then show ?thesis
    using check_fresh [OF assms(1) Popped, of timeout limit]
      check_stale [OF assms(1) Popped, of timeout limit]
    by (cases "timeout < c_now s - returnedAt l") fastforce+
next
  case DialLoad
  then show ?thesis
    using load_full [OF assms(1) DialLoad, of limit timeout]
      load_room [OF assms(1) DialLoad, of limit timeout]
    by (cases "sint (to_int32 limit) \<le> sint (c_count s)") fastforce+
next
  case (Holding c)
  with assms(2) have "c_lock s = None" by simp
  then show ?thesis
    using drop_dec [OF assms(1) Holding, of limit timeout] Holding by fastforce
next
  case (Stale c)
  then show ?thesis using stale_close [OF assms(1) Stale, of limit timeout] by fastforce
next
  case StaleClosed
  then show ?thesis using stale_dec [OF assms(1) StaleClosed, of limit timeout] by fastforce
next
  case DialAdd
  then show ?thesis using dial_add [OF assms(1) DialAdd, of limit timeout] by fastforce
next
  case Dialing
  then show ?thesis using dial_fail [OF assms(1) Dialing, of limit timeout] by fastforce
next
  case DialUndo
  then show ?thesis using dial_undo [OF assms(1) DialUndo, of limit timeout] by fastforce
next
  case (RelOverflow c)
  then show ?thesis using overflow_dec [OF assms(1) RelOverflow, of limit timeout] by fastforce
next
  case (RelClose c)
  then show ?thesis using overflow_close [OF assms(1) RelClose, of limit timeout] by fastforce
next
  case (DropClose c)
  then show ?thesis using drop_close [OF assms(1) DropClose, of limit timeout] by fastforce
qed

text \<open>
  C23. No goroutine is stuck inside the pool: in every reachable state each goroutine can
  take a step of its own, or \<open>cp.mu\<close> is held by another goroutine that can.
\<close>
theorem pool_progress:
  assumes "reachable N limit timeout s" and "t < N"
  shows "(\<exists>s'. pool_step N limit timeout s s' \<and> c_pc s' t \<noteq> c_pc s t) \<or>
    (\<exists>u s'. c_lock s = Some u \<and> u \<noteq> t \<and> u < N \<and>
       pool_step N limit timeout s s' \<and> c_pc s' u \<noteq> c_pc s u)"
proof (cases "c_lock s = None \<or> (\<forall>c. c_pc s t \<noteq> Holding c) \<and> c_pc s t \<noteq> Outside")
  case True
  then show ?thesis using unlocked_steps [OF assms(2)] by blast
next
  case False
  note ok = locking.holds [OF assms(1)]
  from False obtain u where u: "c_lock s = Some u" by auto
  with ok have "in_overflow (c_pc s u)" by (simp add: lock_ok_def)
  with False have "u \<noteq> t" by auto
  with u lock_holder_steps [OF ok u, of limit timeout] show ?thesis by blast
qed

section \<open>The race between the check and the increment\<close>

text \<open>The state in which the first \<open>k\<close> of the goroutines have reached a program point.\<close>

definition at_points :: "nat \<Rightarrow> pc \<Rightarrow> pc \<Rightarrow> nat \<Rightarrow> nat \<Rightarrow> cpool" where
  "at_points k done todo N n =
     cpool_init\<lparr>c_pc := (\<lambda>i. if i < k then done else if i < N then todo else Outside),
       c_count := of_nat n\<rparr>"

lemma race_check:
  assumes "k \<le> N" and "1 \<le> limit" and "limit < 2 ^ 31"
  shows "reachable N limit timeout (at_points k DialAdd Outside N 0)"
  using assms(1)
proof (induction k)
  case 0
  have "at_points 0 DialAdd Outside N 0 = cpool_init"
    by (simp add: at_points_def cpool_init_def)
  then show ?case by (simp add: reachable.start)
next
  case (Suc k)
  let ?s = "at_points k DialAdd Outside N 0"
  have k: "k < N" using Suc.prems by simp
  have "pool_step N limit timeout ?s (goto k DialLoad ?s)"
    by (rule acquire_none) (simp_all add: k at_points_def cpool_init_def)
  moreover have "pool_step N limit timeout (goto k DialLoad ?s) (goto k DialAdd (goto k DialLoad ?s))"
    using assms(2,3) by (intro load_room) (simp_all add: k at_points_def cpool_init_def sint_to_int32)
  moreover have "goto k DialAdd (goto k DialLoad ?s) = at_points (Suc k) DialAdd Outside N 0"
    using k by (auto simp: goto_def at_points_def fun_eq_iff less_Suc_eq)
  ultimately show ?case using Suc by (metis reachable.step Suc_leD)
qed

lemma race_add:
  assumes "k \<le> N" and "1 \<le> limit" and "limit < 2 ^ 31"
  shows "reachable N limit timeout (at_points k Dialing DialAdd N k)"
  using assms(1)
proof (induction k)
  case 0
  have "at_points 0 Dialing DialAdd N 0 = at_points N DialAdd Outside N 0"
    by (simp add: at_points_def cong: if_cong)
  then show ?case using race_check [OF order_refl assms(2,3)] by simp
next
  case (Suc k)
  let ?s = "at_points k Dialing DialAdd N k"
  have k: "k < N" using Suc.prems by simp
  have "pool_step N limit timeout ?s (goto k Dialing (?s\<lparr>c_count := c_count ?s + 1\<rparr>))"
    by (rule dial_add) (simp_all add: k at_points_def)
  moreover have "goto k Dialing (?s\<lparr>c_count := c_count ?s + 1\<rparr>) =
      at_points (Suc k) Dialing DialAdd N (Suc k)"
    using k by (auto simp: goto_def at_points_def fun_eq_iff less_Suc_eq add.commute)
  ultimately show ?case using Suc by (metis reachable.step Suc_leD)
qed

text \<open>
  C34. The bound of connection_bound_concurrent is reached: the limit is loaded in one
  atomic action and the counter incremented in another, so \<open>N\<close> goroutines that find the
  pool empty can all pass the check before any of them counts itself. Even with
  \<open>maxUpstreamConnectionsPerHost = 1\<close> all \<open>N\<close> are then dialling, and the counter is \<open>N\<close>.
\<close>
theorem limit_race:
  assumes "int N < 2 ^ 31"
  shows "\<exists>s. reachable N 1 timeout s \<and> sint (c_count s) = int N \<and>
    (\<forall>t<N. c_pc s t = Dialing)"
proof (intro exI conjI)
  show "reachable N 1 timeout (at_points N Dialing DialAdd N N)"
    by (rule race_add) simp_all
  show "sint (c_count (at_points N Dialing DialAdd N N)) = int N"
    using assms sint_to_int32 [of "int N"] by (simp add: at_points_def to_int32_def)
  show "\<forall>t<N. c_pc (at_points N Dialing DialAdd N N) t = Dialing"
    by (simp add: at_points_def)
qed

theorem limit_race_witness:
  "\<exists>s. reachable 2 1 45 s \<and> sint (c_count s) = 2 \<and> c_pc s 0 = Dialing \<and> c_pc s 1 = Dialing"
  using limit_race [of 2 45] by auto


text \<open>A reachable state in which a goroutine holds a connection, for the examples.\<close>

lemma reachable_holding:
  "\<exists>s. reachable 2 100 45 s \<and> c_pc s 0 = Holding (NetConn 7)"
proof -
  let ?s = "at_points 1 Dialing DialAdd 2 1"
  have "reachable 2 100 45 ?s" by (rule race_add) simp_all
  moreover have "pool_step 2 100 45 ?s
      (goto 0 (Holding (NetConn 7)) (?s\<lparr>c_known := insert (NetConn 7) (c_known ?s)\<rparr>))"
    by (rule dial_ok) (simp_all add: at_points_def cpool_init_def)
  ultimately show ?thesis by (metis reachable.step goto_sel(1) fun_upd_same)
qed

theorem connection_exclusive_witness:
  "\<exists>s. reachable 2 100 45 s \<and> c_pc s 0 = Holding (NetConn 7) \<and>
     NetConn 7 \<notin> set (c_closed s) \<and> NetConn 7 \<notin> idle_conn ` set (c_free s)"
proof -
  obtain s where s: "reachable 2 100 45 s" "c_pc s 0 = Holding (NetConn 7)"
    using reachable_holding by blast
  with connection_exclusive [OF s(1), of 0 "NetConn 7"] show ?thesis by blast
qed

theorem connection_bound_concurrent_witness:
  "\<exists>s. reachable 2 100 45 s \<and> sint (c_count s) = slots_used 2 s \<and> slots_used 2 s \<le> 101"
proof -
  obtain s where s: "reachable 2 100 45 s" using reachable_holding by blast
  with connection_bound_concurrent [OF s] show ?thesis by auto
qed

theorem pool_progress_witness:
  "(\<exists>s'. pool_step 2 100 45 cpool_init s' \<and> c_pc s' 1 \<noteq> c_pc cpool_init 1) \<or>
   (\<exists>u s'. c_lock cpool_init = Some u \<and> u \<noteq> 1 \<and> u < 2 \<and>
      pool_step 2 100 45 cpool_init s' \<and> c_pc s' u \<noteq> c_pc cpool_init u)"
  using pool_progress [OF reachable.start, of 1 2 100 45] by simp

end
