(* ===== verification/BufioPool.thy ===== *)
theory BufioPool
  imports ConnPool
begin

text \<open>
  internal/pool/bufio_pool.go: pooled bufio readers and writers, the pooled buffer of
  PipeCopy, and the gauges that count them. A sync.Pool is the list of the objects put
  into it; which one Get answers with, if any, is the environment's choice. The
  int64 gauge variables move by one per request and are kept as \<open>int\<close>.
\<close>

section \<open>bufio readers and writers\<close>

text \<open>The state of \<open>bufio.Reader\<close> and \<open>bufio.Writer\<close>: unread (unflushed) bytes, sticky error.\<close>

record bufio_reader =
  br_src :: net_conn
  br_buf :: "byte list"
  br_err :: "go_error option"
  br_size :: nat

record bufio_writer =
  bw_dst :: net_conn
  bw_buf :: "byte list"
  bw_err :: "go_error option"
  bw_size :: nat

text \<open>\<open>bufio.NewReaderSize\<close> (at least 16 bytes) and \<open>NewWriterSize\<close> (4096 if not positive).\<close>

definition NewReaderSize :: "net_conn \<Rightarrow> int \<Rightarrow> bufio_reader" where
  "NewReaderSize r n = \<lparr>br_src = r, br_buf = [], br_err = None, br_size = max 16 (nat n)\<rparr>"

definition NewWriterSize :: "net_conn \<Rightarrow> int \<Rightarrow> bufio_writer" where
  "NewWriterSize w n =
     \<lparr>bw_dst = w, bw_buf = [], bw_err = None, bw_size = (if n \<le> 0 then 4096 else nat n)\<rparr>"

definition reader_Reset :: "net_conn \<Rightarrow> bufio_reader \<Rightarrow> bufio_reader" where
  "reader_Reset r br = br\<lparr>br_src := r, br_buf := [], br_err := None\<rparr>"

definition writer_Reset :: "net_conn \<Rightarrow> bufio_writer \<Rightarrow> bufio_writer" where
  "writer_Reset w bw = bw\<lparr>bw_dst := w, bw_buf := [], bw_err := None\<rparr>"

text \<open>
  \<open>bufio.Reader.Read\<close>: buffered bytes first; otherwise one read of the source, straight
  into \<open>p\<close> when \<open>p\<close> is no shorter than the buffer, else through the buffer. A pending
  error is reported once and cleared.
\<close>

definition bufio_Read ::
  "('e, 'x) env_scheme \<Rightarrow> bufio_reader \<Rightarrow> nat \<Rightarrow> ('e, 'm) sys_scheme
     \<Rightarrow> (byte list \<times> go_error option) \<times> bufio_reader \<times> ('e, 'm) sys_scheme" where
  "bufio_Read E br n s =
     (if n = 0 then
        (if br_buf br \<noteq> [] then (([], None), br, s)
         else (([], br_err br), br\<lparr>br_err := None\<rparr>, s))
      else if br_buf br = [] then
        (if br_err br \<noteq> None then (([], br_err br), br\<lparr>br_err := None\<rparr>, s)
         else if br_size br \<le> n then
           (let ((b, err), s1) = net_Read E (br_src br) n s in ((b, err), br, s1))
         else
           (let ((b, err), s1) = net_Read E (br_src br) (br_size br) s in
            if b = [] then (([], err), br, s1)
            else ((take n b, None), br\<lparr>br_buf := drop n b, br_err := err\<rparr>, s1)))
      else ((take n (br_buf br), None), br\<lparr>br_buf := drop n (br_buf br)\<rparr>, s))"

text \<open>\<open>bufio.Writer.Flush\<close>: one write of all buffered bytes; a short one is an error.\<close>

definition bufio_Flush ::
  "('e, 'x) env_scheme \<Rightarrow> bufio_writer \<Rightarrow> ('e, 'm) sys_scheme
     \<Rightarrow> go_error option \<times> bufio_writer \<times> ('e, 'm) sys_scheme" where
  "bufio_Flush E bw s =
     (case bw_err bw of
        Some err \<Rightarrow> (Some err, bw, s)
      | None \<Rightarrow>
          if bw_buf bw = [] then (None, bw, s)
          else
            (let ((n, err0), s1) = net_Write E (bw_dst bw) (bw_buf bw) s;
                 err = (if n < int (length (bw_buf bw)) \<and> err0 = None then Some ErrShortWrite
                        else err0)
             in case err of
                  Some e \<Rightarrow>
                    (Some e, bw\<lparr>bw_buf := drop (nat n) (bw_buf bw), bw_err := Some e\<rparr>, s1)
                | None \<Rightarrow> (None, bw\<lparr>bw_buf := []\<rparr>, s1)))"

text \<open>
  \<open>bufio.Writer.Write\<close>: while the rest of \<open>p\<close> does not fit, write it out at once if the
  buffer is empty, else fill the buffer and flush it; what is left is buffered. A writer
  that took no bytes and reported no error would be called for ever.
\<close>

partial_function (option) bufio_Write ::
  "('e, 'x) env_scheme \<Rightarrow> bufio_writer \<Rightarrow> byte list \<Rightarrow> ('e, 'm) sys_scheme
     \<Rightarrow> (go_error option \<times> bufio_writer \<times> ('e, 'm) sys_scheme) option" where
  "bufio_Write E bw p s =
     (if bw_size bw - length (bw_buf bw) < length p \<and> bw_err bw = None then
        (if bw_buf bw = [] then
           (case net_Write E (bw_dst bw) p s of
              ((n, err), s1) \<Rightarrow> bufio_Write E (bw\<lparr>bw_err := err\<rparr>) (drop (nat n) p) s1)
         else
           (case bufio_Flush E
                   (bw\<lparr>bw_buf := bw_buf bw @ take (bw_size bw - length (bw_buf bw)) p\<rparr>) s of
              (_, bw1, s1) \<Rightarrow> bufio_Write E bw1 (drop (bw_size bw - length (bw_buf bw)) p) s1))
      else
        (case bw_err bw of
           Some err \<Rightarrow> Some (Some err, bw, s)
         | None \<Rightarrow> Some (None, bw\<lparr>bw_buf := bw_buf bw @ p\<rparr>, s)))"

section \<open>The package variables\<close>

text \<open>\<open>_ MetricTrend = iota*2 - 3; Down; Up\<close>.\<close>

datatype metric_trend = Down | Up

fun trend_iota :: "metric_trend \<Rightarrow> int" where
  "trend_iota Down = 1" | "trend_iota Up = 2"

definition trend_value :: "metric_trend \<Rightarrow> int" where
  "trend_value t = trend_iota t * 2 - 3"

lemma trend_value_simps [simp]: "trend_value Down = -1" "trend_value Up = 1"
  by (simp_all add: trend_value_def)

record 'e bufio_sys = "'e pool_sys" +
  defaultBufSize :: int
  pipeCopyBufferSize :: int
  bufIOReaderPoolInUse :: int
  bufIOReaderPoolIdle :: int
  bufIOReaderPool :: "bufio_reader list"
  bufIOWriterPoolInUse :: int
  bufIOWriterPoolIdle :: int
  bufIOWriterPool :: "bufio_writer list"
  pipeCopyBufPoolInUse :: int
  pipeCopyBufPoolIdle :: int
  pipeCopyBufPool :: "nat list"

text \<open>\<open>sync.Pool.Get\<close>: an object of the pool, taken out of it, or nothing.\<close>

definition sync_Get ::
  "('e, 'x) env_scheme \<Rightarrow> 'a list \<Rightarrow> ('e, 'm) sys_scheme
     \<Rightarrow> 'a option \<times> 'a list \<times> ('e, 'm) sys_scheme" where
  "sync_Get E xs s =
     (let (r, e) = pool_Get E (length xs) (ext s) in
      case r of
        Some i \<Rightarrow>
          if i < length xs then (Some (xs ! i), take i xs @ drop (Suc i) xs, s\<lparr>ext := e\<rparr>)
          else (None, xs, s\<lparr>ext := e\<rparr>)
      | None \<Rightarrow> (None, xs, s\<lparr>ext := e\<rparr>))"

definition BufferSize :: "int \<Rightarrow> ('e, 'm) bufio_sys_scheme \<Rightarrow> ('e, 'm) bufio_sys_scheme" where
  "BufferSize n s = (if n < 64 then s else s\<lparr>defaultBufSize := n\<rparr>)"

definition PipeCopyBufferSize ::
  "int \<Rightarrow> ('e, 'm) bufio_sys_scheme \<Rightarrow> ('e, 'm) bufio_sys_scheme" where
  "PipeCopyBufferSize n s =
     (if n < 256 then s
      else set_gauge PipeCopyBufPoolIdle 0
        (s\<lparr>pipeCopyBufferSize := n, pipeCopyBufPool := [], pipeCopyBufPoolIdle := 0\<rparr>))"

section \<open>Gauges\<close>

text \<open>Both reader gauges are published from their variables; likewise writer and pipe.\<close>

definition publish_reader :: "('e, 'm) bufio_sys_scheme \<Rightarrow> ('e, 'm) bufio_sys_scheme" where
  "publish_reader s =
     set_gauge BufIOReaderPoolIdle (bufIOReaderPoolIdle s)
       (set_gauge BufIOReaderPoolInUse (bufIOReaderPoolInUse s) s)"

definition publish_writer :: "('e, 'm) bufio_sys_scheme \<Rightarrow> ('e, 'm) bufio_sys_scheme" where
  "publish_writer s =
     set_gauge BufIOWriterPoolIdle (bufIOWriterPoolIdle s)
       (set_gauge BufIOWriterPoolInUse (bufIOWriterPoolInUse s) s)"

definition publish_pipe :: "('e, 'm) bufio_sys_scheme \<Rightarrow> ('e, 'm) bufio_sys_scheme" where
  "publish_pipe s =
     set_gauge PipeCopyBufPoolIdle (pipeCopyBufPoolIdle s)
       (set_gauge PipeCopyBufPoolInUse (pipeCopyBufPoolInUse s) s)"

definition metricsBufIOReaderNew :: "('e, 'm) bufio_sys_scheme \<Rightarrow> ('e, 'm) bufio_sys_scheme" where
  "metricsBufIOReaderNew s =
     publish_reader (s\<lparr>bufIOReaderPoolInUse := bufIOReaderPoolInUse s + 1\<rparr>)"

definition metricsBufIOReader ::
  "metric_trend \<Rightarrow> ('e, 'm) bufio_sys_scheme \<Rightarrow> ('e, 'm) bufio_sys_scheme" where
  "metricsBufIOReader v s =
     publish_reader
       (s\<lparr>bufIOReaderPoolInUse := bufIOReaderPoolInUse s + 1 * trend_value v,
          bufIOReaderPoolIdle := bufIOReaderPoolIdle s + -1 * trend_value v\<rparr>)"

definition metricsBufIOWriterNew :: "('e, 'm) bufio_sys_scheme \<Rightarrow> ('e, 'm) bufio_sys_scheme" where
  "metricsBufIOWriterNew s =
     publish_writer (s\<lparr>bufIOWriterPoolInUse := bufIOWriterPoolInUse s + 1\<rparr>)"

text \<open>As in the code, this one moves and publishes the reader's variables.\<close>

definition metricsBufIOWriter ::
  "metric_trend \<Rightarrow> ('e, 'm) bufio_sys_scheme \<Rightarrow> ('e, 'm) bufio_sys_scheme" where
  "metricsBufIOWriter v s =
     publish_reader
       (s\<lparr>bufIOReaderPoolInUse := bufIOReaderPoolInUse s + 1 * trend_value v,
          bufIOReaderPoolIdle := bufIOReaderPoolIdle s + -1 * trend_value v\<rparr>)"

definition metricsDownPipeCopy :: "('e, 'm) bufio_sys_scheme \<Rightarrow> ('e, 'm) bufio_sys_scheme" where
  "metricsDownPipeCopy s =
     publish_pipe
       (s\<lparr>pipeCopyBufPoolInUse := pipeCopyBufPoolInUse s + -1,
          pipeCopyBufPoolIdle := pipeCopyBufPoolIdle s + 1\<rparr>)"

definition metricsUpPipeCopy :: "('e, 'm) bufio_sys_scheme \<Rightarrow> ('e, 'm) bufio_sys_scheme" where
  "metricsUpPipeCopy s =
     publish_pipe
       (s\<lparr>pipeCopyBufPoolInUse := pipeCopyBufPoolInUse s + 1,
          pipeCopyBufPoolIdle := pipeCopyBufPoolIdle s + -1\<rparr>)"

section \<open>Acquire and release\<close>

definition AcquireBufIOReader ::
  "('e, 'x) env_scheme \<Rightarrow> net_conn \<Rightarrow> ('e, 'm) bufio_sys_scheme
     \<Rightarrow> bufio_reader \<times> ('e, 'm) bufio_sys_scheme" where
  "AcquireBufIOReader E r s =
     (let (v, p, s1) = sync_Get E (bufIOReaderPool s) s; s2 = s1\<lparr>bufIOReaderPool := p\<rparr> in
      case v of
        None \<Rightarrow> (NewReaderSize r (defaultBufSize s2), metricsBufIOReaderNew s2)
      | Some br \<Rightarrow> (reader_Reset r br, metricsBufIOReader Up s2))"

definition ReleaseBufIOReader ::
  "bufio_reader \<Rightarrow> ('e, 'm) bufio_sys_scheme \<Rightarrow> ('e, 'm) bufio_sys_scheme" where
  "ReleaseBufIOReader br s =
     metricsBufIOReader Down (s\<lparr>bufIOReaderPool := bufIOReaderPool s @ [br]\<rparr>)"

definition AcquireBufIOWriter ::
  "('e, 'x) env_scheme \<Rightarrow> net_conn \<Rightarrow> ('e, 'm) bufio_sys_scheme
     \<Rightarrow> bufio_writer \<times> ('e, 'm) bufio_sys_scheme" where
  "AcquireBufIOWriter E w s =
     (let (v, p, s1) = sync_Get E (bufIOWriterPool s) s; s2 = s1\<lparr>bufIOWriterPool := p\<rparr> in
      case v of
        None \<Rightarrow> (NewWriterSize w (defaultBufSize s2), metricsBufIOWriterNew s2)
      | Some bw \<Rightarrow> (writer_Reset w bw, metricsBufIOWriter Up s2))"

definition ReleaseBufIOWriter ::
  "bufio_writer \<Rightarrow> ('e, 'm) bufio_sys_scheme \<Rightarrow> ('e, 'm) bufio_sys_scheme" where
  "ReleaseBufIOWriter bw s =
     metricsBufIOWriter Down (s\<lparr>bufIOWriterPool := bufIOWriterPool s @ [bw]\<rparr>)"

section \<open>PipeCopy\<close>

text \<open>
  One turn of the loop: read, write what was read, then look at the read's error. The
  result is \<open>None\<close> when the loop goes on, and otherwise what PipeCopy returns.
\<close>

definition pipe_turn ::
  "('e, 'x) env_scheme \<Rightarrow> nat \<Rightarrow> net_conn \<Rightarrow> nat \<Rightarrow> ('e, 'm) sys_scheme
     \<Rightarrow> go_error option option \<times> ('e, 'm) sys_scheme" where
  "pipe_turn E src dst n s =
     (let ((buf, err), s1) = stream_Read E src n s;
          (errWrite, s2) =
            (if 0 < length buf then (let ((_, e), s') = net_Write E dst buf s1 in (e, s'))
             else (None, s1))
      in case errWrite of
           Some e \<Rightarrow> (Some (Some e), s2)
         | None \<Rightarrow>
             (if err = Some EOF then (Some None, s2)
              else if err \<noteq> None then (Some err, s2)
              else (None, s2)))"

partial_function (option) pipe_loop ::
  "('e, 'x) env_scheme \<Rightarrow> nat \<Rightarrow> net_conn \<Rightarrow> nat \<Rightarrow> ('e, 'm) sys_scheme
     \<Rightarrow> (go_error option \<times> ('e, 'm) sys_scheme) option" where
  "pipe_loop E src dst n s =
     (case pipe_turn E src dst n s of
        (Some r, s') \<Rightarrow> Some (r, s')
      | (None, s') \<Rightarrow> pipe_loop E src dst n s')"

text \<open>\<open>Get\<close> of this pool always answers: its New function allocates a buffer.\<close>

definition PipeCopy ::
  "('e, 'x) env_scheme \<Rightarrow> nat \<Rightarrow> net_conn \<Rightarrow> ('e, 'm) bufio_sys_scheme
     \<Rightarrow> (go_error option \<times> ('e, 'm) bufio_sys_scheme) option" where
  "PipeCopy E src dst s =
     (let (v, p, s1) = sync_Get E (pipeCopyBufPool s) s;
          n = (case v of Some n \<Rightarrow> n | None \<Rightarrow> nat (pipeCopyBufferSize s1));
          s2 = metricsUpPipeCopy (s1\<lparr>pipeCopyBufPool := p\<rparr>)
      in map_option
           (\<lambda>(r, s3). (r, metricsDownPipeCopy (s3\<lparr>pipeCopyBufPool := pipeCopyBufPool s3 @ [n]\<rparr>)))
           (pipe_loop E src dst n s2))"


section \<open>What PipeCopy does on the wire\<close>

text \<open>
  The specification of a copy: the calls it makes and what it returns. Every non-empty
  read is followed by one write of the same bytes; the copy stops at the first write
  error, or at the read error that comes after the data of that read has been written.
\<close>

inductive copied :: "net_conn \<Rightarrow> io_event list \<Rightarrow> go_error option \<Rightarrow> bool" for dst :: net_conn where
  eof: "copied dst [EvBodyRead [] (Some EOF)] None"
| eof_data: "b \<noteq> [] \<Longrightarrow> copied dst [EvBodyRead b (Some EOF), EvWrite dst b None] None"
| read_error: "e \<noteq> EOF \<Longrightarrow> copied dst [EvBodyRead [] (Some e)] (Some e)"
| read_error_data: "b \<noteq> [] \<Longrightarrow> e \<noteq> EOF \<Longrightarrow>
    copied dst [EvBodyRead b (Some e), EvWrite dst b None] (Some e)"
| write_error: "b \<noteq> [] \<Longrightarrow> copied dst [EvBodyRead b x, EvWrite dst b (Some e)] (Some e)"
| more: "copied dst evs r \<Longrightarrow> copied dst (EvBodyRead [] None # evs) r"
| more_data: "b \<noteq> [] \<Longrightarrow> copied dst evs r \<Longrightarrow>
    copied dst (EvBodyRead b None # EvWrite dst b None # evs) r"

fun body_bytes :: "io_event list \<Rightarrow> byte list" where
  "body_bytes [] = []"
| "body_bytes (EvBodyRead b _ # evs) = b @ body_bytes evs"
| "body_bytes (_ # evs) = body_bytes evs"

fun written_to :: "net_conn \<Rightarrow> io_event list \<Rightarrow> byte list" where
  "written_to c [] = []"
| "written_to c (EvWrite d b _ # evs) = (if d = c then b else []) @ written_to c evs"
| "written_to c (_ # evs) = written_to c evs"

fun write_failed :: "io_event \<Rightarrow> bool" where
  "write_failed (EvWrite _ _ (Some _)) = True" | "write_failed _ = False"

text \<open>What can go wrong on the way: a write error, or a read error other than EOF.\<close>

fun io_failed :: "io_event \<Rightarrow> bool" where
  "io_failed (EvWrite _ _ (Some _)) = True" | "io_failed (EvBodyRead _ (Some e)) = (e \<noteq> EOF)"
| "io_failed _ = False"

lemma copied_failed: "copied dst evs r \<Longrightarrow> r = None \<longleftrightarrow> (\<forall>ev \<in> set evs. \<not> io_failed ev)"
  by (induction rule: copied.induct) simp_all

lemma copied_bytes: "copied dst evs r \<Longrightarrow> written_to dst evs = body_bytes evs"
  by (induction rule: copied.induct) simp_all

lemma copied_ok:
  "copied dst evs None \<Longrightarrow>
   (\<forall>ev \<in> set evs. \<not> write_failed ev) \<and> (\<exists>b. EvBodyRead b (Some EOF) \<in> set evs)"
  by (induction evs "None :: go_error option" rule: copied.induct) auto

lemma stream_Read_cases:
  obtains b err s1 where "stream_Read E src n s = ((b, err), s1)"
    and "trace s1 = trace s @ [EvBodyRead b err]" and "length b \<le> n"
    and "sys.more s1 = sys.more s" and "mets s1 = mets s"
    and "ext s1 = snd (body_Read E src n (ext s))"
    and "err = snd (fst (body_Read E src n (ext s)))"
  by (rule that [of "fst (fst (stream_Read E src n s))" "snd (fst (stream_Read E src n s))"
        "snd (stream_Read E src n s)"])
    (simp_all add: frame_simps stream_Read_length, simp_all add: stream_Read_def split_beta)

text \<open>A turn of the loop either finishes a copy or is the beginning of one.\<close>

lemma pipe_turn_spec:
  obtains r evs where "pipe_turn E src dst n s = (r, snd (pipe_turn E src dst n s))"
    and "trace (snd (pipe_turn E src dst n s)) = trace s @ evs"
    and "\<And>x. r = Some x \<Longrightarrow> copied dst evs x"
    and "\<And>evs' x. r = None \<Longrightarrow> copied dst evs' x \<Longrightarrow> copied dst (evs @ evs') x"
proof -
  obtain b err s1 where rd: "stream_Read E src n s = ((b, err), s1)"
    and tr: "trace s1 = trace s @ [EvBodyRead b err]"
    by (rule stream_Read_cases)
  obtain k ew s2 where wr: "net_Write E dst b s1 = ((k, ew), s2)"
    by (metis prod.exhaust)
  have tr2: "trace s2 = trace s1 @ [EvWrite dst b ew]"
    using net_Write_frame(1) [of E dst b s1] by (simp add: wr)
  show thesis
  proof (cases "b = []")
    case True
    then have turn: "pipe_turn E src dst n s =
        (if err = Some EOF then Some None else if err \<noteq> None then Some err else None, s1)"
      by (simp add: pipe_turn_def rd)
    then show thesis
      using tr True
      by (intro that [of "fst (pipe_turn E src dst n s)" "[EvBodyRead [] err]"])
        (auto intro: copied.intros split: if_splits)
  next
    case False
    then have turn: "pipe_turn E src dst n s =
        (case ew of Some e \<Rightarrow> Some (Some e)
         | None \<Rightarrow> if err = Some EOF then Some None else if err \<noteq> None then Some err else None, s2)"
      by (simp add: pipe_turn_def rd wr split: option.split)
    then show thesis
      using tr tr2 False
      by (intro that [of "fst (pipe_turn E src dst n s)" "[EvBodyRead b err, EvWrite dst b ew]"];
          cases ew) (auto intro: copied.intros split: if_splits)
  qed
qed

lemma pipe_turn_frame:
  "sys.more (snd (pipe_turn E src dst n s)) = sys.more s"
  "mets (snd (pipe_turn E src dst n s)) = mets s"
  by (simp_all add: pipe_turn_def split_beta Let_def frame_simps split: option.split)

lemma pipe_loop_copied:
  assumes "pipe_loop E src dst n s = Some (r, s')"
  shows "\<exists>evs. trace s' = trace s @ evs \<and> copied dst evs r"
    and "sys.more s' = sys.more s" and "mets s' = mets s"
proof -
  have "(\<exists>evs. trace (snd res) = trace s @ evs \<and> copied dst evs (fst res)) \<and>
      sys.more (snd res) = sys.more s \<and> mets (snd res) = mets s"
    if "pipe_loop E src dst n s = Some res" for res
  proof (rule pipe_loop.raw_induct [where
        P = "\<lambda>E src dst n s res. (\<exists>evs. trace (snd res) = trace s @ evs \<and> copied dst evs (fst res)) \<and>
      sys.more (snd res) = sys.more s \<and> mets (snd res) = mets s",
        OF _ that])
    fix loop :: "('a, 'c) env_scheme \<Rightarrow> nat \<Rightarrow> net_conn \<Rightarrow> nat \<Rightarrow> ('a, 'b) sys_scheme
      \<Rightarrow> (go_error option \<times> ('a, 'b) sys_scheme) option"
    fix E :: "('a, 'c) env_scheme" and src dst n and s :: "('a, 'b) sys_scheme" and res
    assume IH: "\<And>E src dst n s res. loop E src dst n s = Some res \<Longrightarrow>
        (\<exists>evs. trace (snd res) = trace s @ evs \<and> copied dst evs (fst res)) \<and>
      sys.more (snd res) = sys.more s \<and> mets (snd res) = mets s"
      and step: "(case pipe_turn E src dst n s of (None, s') \<Rightarrow> loop E src dst n s'
        | (Some r, s') \<Rightarrow> Some (r, s')) = Some res"
    show "(\<exists>evs. trace (snd res) = trace s @ evs \<and> copied dst evs (fst res)) \<and>
      sys.more (snd res) = sys.more s \<and> mets (snd res) = mets s"
    proof (rule pipe_turn_spec [of E src dst n s])
      fix r evs
      assume turn: "pipe_turn E src dst n s = (r, snd (pipe_turn E src dst n s))"
        "trace (snd (pipe_turn E src dst n s)) = trace s @ evs"
        and fin: "\<And>x. r = Some x \<Longrightarrow> copied dst evs x"
        and go: "\<And>evs' x. r = None \<Longrightarrow> copied dst evs' x \<Longrightarrow> copied dst (evs @ evs') x"
      define s1 where "s1 = snd (pipe_turn E src dst n s)"
      have turn': "pipe_turn E src dst n s = (r, s1)" "trace s1 = trace s @ evs"
        "sys.more s1 = sys.more s" "mets s1 = mets s"
        using turn pipe_turn_frame [of E src dst n s] by (simp_all add: s1_def)
      show ?thesis
      proof (cases r)
        case (Some x)
        with step turn' have "res = (x, s1)" by simp
        with turn'(2-4) fin [OF Some] show ?thesis by auto
      next
        case None
        with step turn' have "loop E src dst n s1 = Some res" by simp
        from IH [OF this] obtain evs' where "trace (snd res) = trace s1 @ evs'"
          and "copied dst evs' (fst res)" and "sys.more (snd res) = sys.more s1"
          and "mets (snd res) = mets s1" by blast
        with turn'(2-4) go [OF None] show ?thesis
          by (intro conjI exI [of _ "evs @ evs'"]) simp_all
      qed
    qed
  qed
  from this [OF assms] show "\<exists>evs. trace s' = trace s @ evs \<and> copied dst evs r"
    and "sys.more s' = sys.more s" and "mets s' = mets s" by simp_all
qed


text \<open>A turn after which the loop goes on has read without an error.\<close>

lemma pipe_turn_goes_on:
  assumes "fst (pipe_turn E src dst n s) = None"
  defines "e1 \<equiv> snd (body_Read E src n (ext s))"
  shows "snd (fst (body_Read E src n (ext s))) = None"
    and "ext (snd (pipe_turn E src dst n s)) = e1 \<or>
         (\<exists>b. ext (snd (pipe_turn E src dst n s)) = snd (conn_Write E dst b e1))"
proof -
  obtain b err s1 where rd: "stream_Read E src n s = ((b, err), s1)"
    and ext1: "ext s1 = e1" and err: "err = snd (fst (body_Read E src n (ext s)))"
    unfolding e1_def by (rule stream_Read_cases [of E src n s])
  from assms(1) have "err = None"
    by (cases err) (auto simp: pipe_turn_def rd split_beta split: option.splits if_splits)
  with err show "snd (fst (body_Read E src n (ext s))) = None" by simp
  have "ext (snd (pipe_turn E src dst n s)) =
      (if b = [] then e1 else snd (conn_Write E dst b e1))"
    by (simp add: pipe_turn_def rd split_beta call_simps ext1 split: option.split)
  then show "ext (snd (pipe_turn E src dst n s)) = e1 \<or>
      (\<exists>b. ext (snd (pipe_turn E src dst n s)) = snd (conn_Write E dst b e1))"
    by auto
qed

lemma pipe_loop_terminates:
  assumes rd: "\<And>e. snd (fst (body_Read E src n e)) = None \<Longrightarrow> m (snd (body_Read E src n e)) < (m e :: nat)"
    and wr: "\<And>e b. m (snd (conn_Write E dst b e)) \<le> m e"
  shows "\<exists>res. pipe_loop E src dst n s = Some res"
proof (induction "m (ext s)" arbitrary: s rule: less_induct)
  case less
  obtain r s' where turn: "pipe_turn E src dst n s = (r, s')" by fastforce
  show ?case
  proof (cases r)
    case (Some x)
    then show ?thesis by (simp add: pipe_loop.simps [of E src dst n s] turn)
  next
    case None
    with turn have fst: "fst (pipe_turn E src dst n s) = None" by simp
    have "m (ext s') < m (ext s)"
      using pipe_turn_goes_on(2) [OF fst] rd [OF pipe_turn_goes_on(1) [OF fst]] wr
      by (metis le_less_trans snd_conv turn)
    from less [OF this] show ?thesis
      by (simp add: pipe_loop.simps [of E src dst n s] turn None)
  qed
qed

section \<open>What a buffered writer puts on the wire\<close>

text \<open>\<open>io.Writer\<close>: a Write of a connection takes all bytes or reports an error.\<close>

definition writes_all :: "('e, 'x) env_scheme \<Rightarrow> bool" where
  "writes_all E \<longleftrightarrow>
     (\<forall>c b e. 0 \<le> fst (fst (conn_Write E c b e)) \<and> fst (fst (conn_Write E c b e)) \<le> int (length b) \<and>
        (snd (fst (conn_Write E c b e)) = None \<longrightarrow> fst (fst (conn_Write E c b e)) = int (length b)))"

lemma writes_allD:
  assumes "writes_all E" and "net_Write E c b s = ((k, None), s1)"
  shows "k = int (length b)"
proof -
  have "fst (conn_Write E c b (ext s)) = (k, None)"
    using assms(2) by (simp add: net_Write_def split_beta)
  moreover have "snd (fst (conn_Write E c b (ext s))) = None \<longrightarrow>
      fst (fst (conn_Write E c b (ext s))) = int (length b)"
    using assms(1) unfolding writes_all_def by blast
  ultimately show ?thesis by simp
qed

lemma written_to_append [simp]: "written_to c (xs @ ys) = written_to c xs @ written_to c ys"
  by (induction xs rule: written_to.induct) simp_all

lemma body_bytes_append [simp]: "body_bytes (xs @ ys) = body_bytes xs @ body_bytes ys"
  by (induction xs rule: body_bytes.induct) simp_all

text \<open>Events of one connection: writes to it and reads of a request body.\<close>

fun on_conn :: "net_conn \<Rightarrow> io_event \<Rightarrow> bool" where
  "on_conn c (EvWrite d _ _) = (d = c)" | "on_conn c (EvBodyRead _ _) = True"
| "on_conn c (EvDial _ _) = False" | "on_conn c (EvClose _) = False"

lemma copied_on_conn: "copied dst evs r \<Longrightarrow> list_all (on_conn dst) evs"
  by (induction rule: copied.induct) simp_all

text \<open>
  A buffered writer is sound after a call: what was accepted without an error is on the
  wire or in the buffer, nothing else is; an error is one of the connection, and it is kept.
\<close>

definition wrote ::
  "bufio_writer \<Rightarrow> byte list \<Rightarrow> ('e, 'm) sys_scheme \<Rightarrow> go_error option \<Rightarrow> bufio_writer
     \<Rightarrow> ('e, 'm) sys_scheme \<Rightarrow> bool" where
  "wrote bw p s r bw' s' \<longleftrightarrow>
     (\<exists>evs. trace s' = trace s @ evs \<and> body_bytes evs = [] \<and> list_all (on_conn (bw_dst bw)) evs \<and>
        (r = None \<longleftrightarrow> (\<forall>ev \<in> set evs. \<not> io_failed ev)) \<and>
        (r = None \<longrightarrow> written_to (bw_dst bw) evs @ bw_buf bw' = bw_buf bw @ p \<and>
                     (\<forall>ev \<in> set evs. \<not> write_failed ev))) \<and>
     sys.more s' = sys.more s \<and> mets s' = mets s \<and>
     bw_dst bw' = bw_dst bw \<and> bw_size bw' = bw_size bw \<and> bw_err bw' = r"

lemma bufio_Flush_wrote:
  assumes "writes_all E" and "bw_err bw = None" and "bufio_Flush E bw s = (r, bw', s')"
  shows "wrote bw [] s r bw' s'" and "r = None \<Longrightarrow> bw_buf bw' = []"
proof -
  obtain k err s1 where wr: "net_Write E (bw_dst bw) (bw_buf bw) s = ((k, err), s1)"
    by (metis prod.exhaust)
  have tr: "trace s1 = trace s @ [EvWrite (bw_dst bw) (bw_buf bw) err]"
    "mets s1 = mets s" "sys.more s1 = sys.more s"
    using net_Write_frame [of E "bw_dst bw" "bw_buf bw" s] by (simp_all add: wr)
  have "err = None \<Longrightarrow> k = int (length (bw_buf bw))"
    using writes_allD [OF assms(1), of "bw_dst bw" "bw_buf bw" s k s1] wr by simp
  then show "wrote bw [] s r bw' s'" and "r = None \<Longrightarrow> bw_buf bw' = []"
    using assms(2,3) tr
    by (auto simp: bufio_Flush_def wr wrote_def Let_def split: if_splits option.splits)
qed

lemma bufio_Write_fits:
  assumes "length p \<le> bw_size bw - length (bw_buf bw)" and "bw_err bw = None"
  shows "bufio_Write E bw p s = Some (None, bw\<lparr>bw_buf := bw_buf bw @ p\<rparr>, s)"
  using assms by (simp add: bufio_Write.simps [of E bw p s])

lemma bufio_Write_error:
  "bw_err bw = Some e \<Longrightarrow> bufio_Write E bw p s = Some (Some e, bw, s)"
  by (simp add: bufio_Write.simps [of E bw p s])

text \<open>An empty buffer: one direct write if the data is longer than the buffer.\<close>

lemma bufio_Write_empty:
  assumes "writes_all E" and "bw_err bw = None" and "bw_buf bw = []"
  shows "\<exists>r bw' s'. bufio_Write E bw p s = Some (r, bw', s') \<and> wrote bw p s r bw' s'"
proof (cases "length p \<le> bw_size bw")
  case True
  with assms have "bufio_Write E bw p s = Some (None, bw\<lparr>bw_buf := bw_buf bw @ p\<rparr>, s)"
    by (intro bufio_Write_fits) simp_all
  with assms show ?thesis by (simp add: wrote_def)
next
  case False
  obtain k err s1 where wr: "net_Write E (bw_dst bw) p s = ((k, err), s1)"
    by (metis prod.exhaust)
  have tr: "trace s1 = trace s @ [EvWrite (bw_dst bw) p err]"
    "mets s1 = mets s" "sys.more s1 = sys.more s"
    using net_Write_frame [of E "bw_dst bw" p s] by (simp_all add: wr)
  have step: "bufio_Write E bw p s = bufio_Write E (bw\<lparr>bw_err := err\<rparr>) (drop (nat k) p) s1"
    using False assms(2,3) by (simp add: bufio_Write.simps [of E bw p s] wr)
  show ?thesis
  proof (cases err)
    case None
    have "k = int (length p)"
      using writes_allD [OF assms(1), of "bw_dst bw" p s k s1] wr None by simp
    with None step have "bufio_Write E bw p s = bufio_Write E bw [] s1"
      using assms(2) by (metis bufio_writer.surjective bufio_writer.update_convs(3) drop_all nat_int order_refl)
    with assms(2,3) have "bufio_Write E bw p s = Some (None, bw, s1)"
      by (simp add: bufio_Write_fits)
    with tr None assms(2,3) show ?thesis by (simp add: wrote_def)
  next
    case (Some e)
    with step have "bufio_Write E bw p s = Some (Some e, bw\<lparr>bw_err := Some e\<rparr>, s1)"
      by (simp add: bufio_Write_error)
    with tr Some show ?thesis by (simp add: wrote_def)
  qed
qed

lemma bufio_Write_wrote:
  assumes "writes_all E" and "bw_err bw = None"
  shows "\<exists>r bw' s'. bufio_Write E bw p s = Some (r, bw', s') \<and> wrote bw p s r bw' s'"
proof (cases "bw_buf bw = []")
  case True
  with bufio_Write_empty [OF assms] show ?thesis by blast
next
  case False
  define k where "k = bw_size bw - length (bw_buf bw)"
  show ?thesis
  proof (cases "length p \<le> k")
    case True
    with assms(2) have "bufio_Write E bw p s = Some (None, bw\<lparr>bw_buf := bw_buf bw @ p\<rparr>, s)"
      by (intro bufio_Write_fits) (simp_all add: k_def)
    with assms(2) show ?thesis by (simp add: wrote_def)
  next
    case longer: False
    define bw0 where "bw0 = bw\<lparr>bw_buf := bw_buf bw @ take k p\<rparr>"
    obtain r1 bw1 s1 where fl: "bufio_Flush E bw0 s = (r1, bw1, s1)" by (metis prod.exhaust)
    have bw0: "bw_err bw0 = None" "bw_dst bw0 = bw_dst bw" "bw_size bw0 = bw_size bw"
      "bw_buf bw0 = bw_buf bw @ take k p"
      using assms(2) by (simp_all add: bw0_def)
    note flushed = bufio_Flush_wrote [OF assms(1) bw0(1) fl]
    have step: "bufio_Write E bw p s = bufio_Write E bw1 (drop k p) s1"
      using False longer assms(2) fl
      by (simp add: bufio_Write.simps [of E bw p s] k_def bw0_def)
    show ?thesis
    proof (cases r1)
      case None
      then have bw1: "bw_err bw1 = None" "bw_buf bw1 = []" "bw_dst bw1 = bw_dst bw"
        "bw_size bw1 = bw_size bw"
        using flushed bw0 by (simp_all add: wrote_def)
      obtain r bw' s' where "bufio_Write E bw1 (drop k p) s1 = Some (r, bw', s')"
        and rest: "wrote bw1 (drop k p) s1 r bw' s'"
        using bufio_Write_empty [OF assms(1) bw1(1,2)] by blast
      moreover have "wrote bw p s r bw' s'"
      proof -
        obtain evs1 where "trace s1 = trace s @ evs1" "body_bytes evs1 = []" "list_all (on_conn (bw_dst bw)) evs1"
          "\<forall>ev \<in> set evs1. \<not> io_failed ev"
          "written_to (bw_dst bw) evs1 = bw_buf bw @ take k p" "\<forall>ev \<in> set evs1. \<not> write_failed ev"
          using flushed None bw0 bw1 by (auto simp: wrote_def)
        moreover obtain evs2 where "trace s' = trace s1 @ evs2" "body_bytes evs2 = []" "list_all (on_conn (bw_dst bw)) evs2"
          "r = None \<longleftrightarrow> (\<forall>ev \<in> set evs2. \<not> io_failed ev)"
          "r = None \<longrightarrow> written_to (bw_dst bw) evs2 @ bw_buf bw' = drop k p \<and>
             (\<forall>ev \<in> set evs2. \<not> write_failed ev)"
          using rest unfolding wrote_def bw1 append_Nil by (elim conjE exE) (rule that)
        ultimately have "\<exists>evs. trace s' = trace s @ evs \<and> body_bytes evs = [] \<and> list_all (on_conn (bw_dst bw)) evs \<and>
            (r = None \<longleftrightarrow> (\<forall>ev \<in> set evs. \<not> io_failed ev)) \<and>
            (r = None \<longrightarrow> written_to (bw_dst bw) evs @ bw_buf bw' = bw_buf bw @ p \<and>
               (\<forall>ev \<in> set evs. \<not> write_failed ev))"
          by (intro exI [of _ "evs1 @ evs2"]) auto
        then show ?thesis using rest flushed(1) bw0 bw1 by (simp add: wrote_def)
      qed
      ultimately show ?thesis using step by auto
    next
      case (Some e)
      with flushed(1) have "bw_err bw1 = Some e" by (simp add: wrote_def)
      with step have "bufio_Write E bw p s = Some (Some e, bw1, s1)"
        by (simp add: bufio_Write_error)
      moreover have "wrote bw p s (Some e) bw1 s1"
        using flushed(1) Some bw0 by (auto simp: wrote_def)
      ultimately show ?thesis by blast
    qed
  qed
qed

section \<open>Frames and gauges\<close>

lemma bufio_vars_of_more:
  assumes "sys.more s = sys.more t"
  shows "defaultBufSize s = defaultBufSize t" "pipeCopyBufferSize s = pipeCopyBufferSize t"
    "bufIOReaderPoolInUse s = bufIOReaderPoolInUse t" "bufIOReaderPoolIdle s = bufIOReaderPoolIdle t"
    "bufIOReaderPool s = bufIOReaderPool t" "bufIOWriterPoolInUse s = bufIOWriterPoolInUse t"
    "bufIOWriterPoolIdle s = bufIOWriterPoolIdle t" "bufIOWriterPool s = bufIOWriterPool t"
    "pipeCopyBufPoolInUse s = pipeCopyBufPoolInUse t" "pipeCopyBufPoolIdle s = pipeCopyBufPoolIdle t"
    "pipeCopyBufPool s = pipeCopyBufPool t" "bufio_sys.more s = bufio_sys.more t"
  using assms by (cases s, cases t, simp)+

lemma sync_Get_frame [frame_simps]:
  "sys.more (snd (snd (sync_Get E xs s))) = sys.more s"
  "trace (snd (snd (sync_Get E xs s))) = trace s"
  "mets (snd (snd (sync_Get E xs s))) = mets s"
  by (simp_all add: sync_Get_def split_beta split: option.split)

lemma sync_Get_vars [simp]:
  "defaultBufSize (snd (snd (sync_Get E xs s))) = defaultBufSize s"
  "pipeCopyBufferSize (snd (snd (sync_Get E xs s))) = pipeCopyBufferSize s"
  "bufIOReaderPoolInUse (snd (snd (sync_Get E xs s))) = bufIOReaderPoolInUse s"
  "bufIOReaderPoolIdle (snd (snd (sync_Get E xs s))) = bufIOReaderPoolIdle s"
  "bufIOWriterPoolInUse (snd (snd (sync_Get E xs s))) = bufIOWriterPoolInUse s"
  "bufIOWriterPoolIdle (snd (snd (sync_Get E xs s))) = bufIOWriterPoolIdle s"
  "pipeCopyBufPoolInUse (snd (snd (sync_Get E xs s))) = pipeCopyBufPoolInUse s"
  "pipeCopyBufPoolIdle (snd (snd (sync_Get E xs s))) = pipeCopyBufPoolIdle s"
  "pool_at a (snd (snd (sync_Get E xs s))) = pool_at a s"
  by (rule bufio_vars_of_more pool_vars_of_more, simp add: frame_simps)+

lemma pipe_copy_wire:
  assumes "PipeCopy E src dst s = Some (r, s')"
  shows "\<exists>evs. trace s' = trace s @ evs \<and> copied dst evs r"
proof -
  obtain v p s1 where get: "sync_Get E (pipeCopyBufPool s) s = (v, p, s1)"
    by (metis prod.exhaust)
  from assms obtain n s3 where loop:
      "pipe_loop E src dst n (metricsUpPipeCopy (s1\<lparr>pipeCopyBufPool := p\<rparr>)) = Some (r, s3)"
    and s': "s' = metricsDownPipeCopy (s3\<lparr>pipeCopyBufPool := pipeCopyBufPool s3 @ [n]\<rparr>)"
    unfolding PipeCopy_def Let_def get by auto
  have "trace (metricsUpPipeCopy (s1\<lparr>pipeCopyBufPool := p\<rparr>)) = trace s"
    using sync_Get_frame(2) [of E "pipeCopyBufPool s" s]
    by (simp add: get metricsUpPipeCopy_def publish_pipe_def set_gauge_def)
  moreover have "trace s' = trace s3"
    by (simp add: s' metricsDownPipeCopy_def publish_pipe_def set_gauge_def)
  ultimately show ?thesis using pipe_loop_copied(1) [OF loop] by simp
qed

lemma AcquireBufIOWriter_clean:
  "bw_dst (fst (AcquireBufIOWriter E c s)) = c" "bw_buf (fst (AcquireBufIOWriter E c s)) = []"
  "bw_err (fst (AcquireBufIOWriter E c s)) = None"
  by (simp_all add: AcquireBufIOWriter_def Let_def split_beta NewWriterSize_def writer_Reset_def
      split: option.split)

lemma metric_defs:
  "publish_reader s = s\<lparr>mets := SetGauge BufIOReaderPoolIdle (bufIOReaderPoolIdle s)
     (SetGauge BufIOReaderPoolInUse (bufIOReaderPoolInUse s) (mets s))\<rparr>"
  "publish_writer s = s\<lparr>mets := SetGauge BufIOWriterPoolIdle (bufIOWriterPoolIdle s)
     (SetGauge BufIOWriterPoolInUse (bufIOWriterPoolInUse s) (mets s))\<rparr>"
  "publish_pipe s = s\<lparr>mets := SetGauge PipeCopyBufPoolIdle (pipeCopyBufPoolIdle s)
     (SetGauge PipeCopyBufPoolInUse (pipeCopyBufPoolInUse s) (mets s))\<rparr>"
  by (simp_all add: publish_reader_def publish_writer_def publish_pipe_def set_gauge_def)

lemmas gauge_defs = metric_defs metricsBufIOReaderNew_def metricsBufIOReader_def
  metricsBufIOWriterNew_def metricsBufIOWriter_def metricsDownPipeCopy_def metricsUpPipeCopy_def

text \<open>A gauge of objects in use: taking one counts one up, giving it back one down.\<close>

fun gauge_run :: "('s \<Rightarrow> 's) \<Rightarrow> ('s \<Rightarrow> 's) \<Rightarrow> bool list \<Rightarrow> 's \<Rightarrow> 's" where
  "gauge_run tak giv [] s = s"
| "gauge_run tak giv (True # ops) s = gauge_run tak giv ops (tak s)"
| "gauge_run tak giv (False # ops) s = gauge_run tak giv ops (giv s)"

fun balance :: "bool list \<Rightarrow> int" where
  "balance [] = 0"
| "balance (True # ops) = balance ops + 1"
| "balance (False # ops) = balance ops - 1"

locale usage_gauge =
  fixes tak giv :: "'s \<Rightarrow> 's" and used :: "'s \<Rightarrow> int" and shown :: "'s \<Rightarrow> int"
  assumes take_used: "used (tak s) = used s + 1"
    and give_used: "used (giv s) = used s - 1"
    and take_shown: "shown (tak s) = used (tak s)"
    and give_shown: "shown (giv s) = used (giv s)"
begin

lemma run_used: "used (gauge_run tak giv ops s) = used s + balance ops"
  by (induction ops arbitrary: s rule: balance.induct) (simp_all add: take_used give_used)

lemma run_shown: "shown s = used s \<Longrightarrow> shown (gauge_run tak giv ops s) = used s + balance ops"
  by (induction ops arbitrary: s rule: balance.induct)
    (simp_all add: take_used give_used take_shown give_shown)

end

lemma acquire_reader_used:
  "bufIOReaderPoolInUse (snd (AcquireBufIOReader E r s)) = bufIOReaderPoolInUse s + 1"
  "gauges (mets (snd (AcquireBufIOReader E r s))) BufIOReaderPoolInUse = bufIOReaderPoolInUse s + 1"
  "bufIOWriterPoolInUse (snd (AcquireBufIOReader E r s)) = bufIOWriterPoolInUse s"
  by (simp_all add: AcquireBufIOReader_def Let_def split_beta gauge_defs split: option.split)

lemma release_reader_used:
  "bufIOReaderPoolInUse (ReleaseBufIOReader br s) = bufIOReaderPoolInUse s - 1"
  "gauges (mets (ReleaseBufIOReader br s)) BufIOReaderPoolInUse = bufIOReaderPoolInUse s - 1"
  by (simp_all add: ReleaseBufIOReader_def gauge_defs)

interpretation reader_gauge: usage_gauge
  "\<lambda>s. snd (AcquireBufIOReader E r s)" "ReleaseBufIOReader br"
  bufIOReaderPoolInUse "\<lambda>s. gauges (mets s) BufIOReaderPoolInUse"
  for E :: "('e, 'x) env_scheme" and r br
  by unfold_locales (simp_all add: acquire_reader_used release_reader_used)

interpretation pipe_gauge: usage_gauge
  metricsUpPipeCopy metricsDownPipeCopy
  pipeCopyBufPoolInUse "\<lambda>s. gauges (mets s) PipeCopyBufPoolInUse"
  by unfold_locales (simp_all add: gauge_defs)


section \<open>Properties\<close>

text \<open>The package's initial variables, for examples.\<close>

definition bufio_init :: "'e \<Rightarrow> 'e bufio_sys" where
  "bufio_init e =
     \<lparr>ext = e, trace = [], mets = metrics_init, customDial = None, tlsConfig = None,
      dialTimeout = 0, upstreamPool = (\<lambda>_. None),
      maxUpstreamConnectionsPerHost = 100, idleTimeout = 45 * Second,
      defaultBufSize = 4096, pipeCopyBufferSize = 64 * 1024,
      bufIOReaderPoolInUse = 0, bufIOReaderPoolIdle = 0, bufIOReaderPool = [],
      bufIOWriterPoolInUse = 0, bufIOWriterPoolIdle = 0, bufIOWriterPool = [],
      pipeCopyBufPoolInUse = 0, pipeCopyBufPoolIdle = 0, pipeCopyBufPool = []\<rparr>"

text \<open>
  C20. PipeCopy copies: when it returns, its calls on the wire are those of the
  specification \<open>copied\<close>, so the bytes handed to the connection are exactly the bytes
  read from the body, in order; it returns nil only if no write failed and the body
  was read to EOF. The copy buffer is back in its pool and the connection pools are
  untouched.
\<close>
theorem pipe_copy_correct:
  assumes "PipeCopy E src dst s = Some (r, s')"
  shows "(\<exists>evs. trace s' = trace s @ evs \<and> copied dst evs r \<and>
            written_to dst evs = body_bytes evs \<and>
            (r = None \<longrightarrow> (\<forall>ev \<in> set evs. \<not> write_failed ev) \<and>
               (\<exists>b. EvBodyRead b (Some EOF) \<in> set evs))) \<and>
    pipeCopyBufPool s' \<noteq> [] \<and> upstreamPool s' = upstreamPool s"
proof -
  obtain v p s1 where get: "sync_Get E (pipeCopyBufPool s) s = (v, p, s1)"
    by (metis prod.exhaust)
  have s1: "sys.more s1 = sys.more s" "trace s1 = trace s"
    using sync_Get_frame(1,2) [of E "pipeCopyBufPool s" s] by (simp_all add: get)
  define n where "n = (case v of Some n \<Rightarrow> n | None \<Rightarrow> nat (pipeCopyBufferSize s1))"
  define s2 where "s2 = metricsUpPipeCopy (s1\<lparr>pipeCopyBufPool := p\<rparr>)"
  from assms obtain s3 where loop: "pipe_loop E src dst n s2 = Some (r, s3)"
    and s': "s' = metricsDownPipeCopy (s3\<lparr>pipeCopyBufPool := pipeCopyBufPool s3 @ [n]\<rparr>)"
    unfolding PipeCopy_def Let_def get by (auto simp: n_def s2_def)
  obtain evs where evs: "trace s3 = trace s2 @ evs" "copied dst evs r"
    using pipe_loop_copied(1) [OF loop] by blast
  have "trace s2 = trace s" using s1 by (simp add: s2_def gauge_defs)
  moreover have "trace s' = trace s3" by (simp add: s' gauge_defs)
  moreover have "upstreamPool s' = upstreamPool s3" by (simp add: s' gauge_defs)
  moreover have "upstreamPool s3 = upstreamPool s2"
    by (rule pool_vars_of_more(1) [OF pipe_loop_copied(2) [OF loop]])
  moreover have "upstreamPool s2 = upstreamPool s"
    using pool_vars_of_more(1) [OF s1(1)] by (simp add: s2_def gauge_defs)
  moreover have "pipeCopyBufPool s' \<noteq> []" by (simp add: s' gauge_defs)
  ultimately show ?thesis
    using evs copied_bytes [OF evs(2)] copied_ok [of dst evs] by auto
qed

theorem pipe_copy_correct_witness:
  "\<exists>r s' evs. PipeCopy sample_env 0 (NetConn 9) (bufio_init (0, [([1, 2], None), ([3], Some EOF)])) =
     Some (r, s') \<and> r = None \<and> trace s' = evs \<and> written_to (NetConn 9) evs = body_bytes evs"
proof -
  have run: "PipeCopy sample_env 0 (NetConn 9) (bufio_init (0, [([1, 2], None), ([3], Some EOF)])) =
    Some (None, snd (the (PipeCopy sample_env 0 (NetConn 9)
      (bufio_init (0, [([1, 2], None), ([3], Some EOF)])))))"
    by (simp add: PipeCopy_def sync_Get_def bufio_init_def gauge_defs Let_def
        pipe_loop.simps [of sample_env 0 "NetConn 9"] pipe_turn_def sample_simps)
  from pipe_copy_correct [OF run] run show ?thesis
    by (auto simp: bufio_init_def)
qed

lemma PipeCopy_total:
  fixes E :: "('e, 'x) env_scheme" and s :: "('e, 'm) bufio_sys_scheme"
  assumes "\<And>n e. snd (fst (body_Read E src n e)) = None \<Longrightarrow>
             m (snd (body_Read E src n e)) < (m e :: nat)"
    and "\<And>e b. m (snd (conn_Write E dst b e)) \<le> m e"
  shows "\<exists>r. PipeCopy E src dst s = Some r"
proof -
  obtain v p s1 where get: "sync_Get E (pipeCopyBufPool s) s = (v, p, s1)"
    by (metis prod.exhaust)
  have "\<exists>res. pipe_loop E src dst n t = Some res" for n and t :: "('e, 'm) bufio_sys_scheme"
    by (rule pipe_loop_terminates [of E src n m dst]) (use assms in auto)
  then obtain res where "pipe_loop E src dst
      (case v of Some n \<Rightarrow> n | None \<Rightarrow> nat (pipeCopyBufferSize s1))
      (metricsUpPipeCopy (s1\<lparr>pipeCopyBufPool := p\<rparr>)) = Some res"
    by blast
  then show ?thesis by (cases res) (simp add: PipeCopy_def get Let_def)
qed

text \<open>
  C27. PipeCopy returns whenever the body is finite: if some measure of the external
  state falls with every body read that reports no error, and no write raises it, then
  PipeCopy returns for every buffer and every start state.
\<close>
theorem pipe_copy_terminates:
  fixes E :: "('e, 'x) env_scheme" and s :: "('e, 'm) bufio_sys_scheme"
  assumes "\<And>n e. snd (fst (body_Read E src n e)) = None \<Longrightarrow>
             m (snd (body_Read E src n e)) < (m e :: nat)"
    and "\<And>e b. m (snd (conn_Write E dst b e)) \<le> m e"
  shows "\<exists>r s'. PipeCopy E src dst s = Some (r, s')"
proof -
  have "\<exists>r. PipeCopy E src dst s = Some r"
    by (rule PipeCopy_total [where m = m, OF assms])
  then show ?thesis by auto
qed

theorem pipe_copy_terminates_witness:
  "\<exists>r s'. PipeCopy sample_env 0 (NetConn 9) (bufio_init (0, [([1, 2], None)])) = Some (r, s')"
proof (rule pipe_copy_terminates [where m = "\<lambda>e :: sample_state. length (snd e)"])
  fix n e
  assume "snd (fst (body_Read sample_env 0 n e)) = None"
  then show "length (snd (snd (body_Read sample_env 0 n e))) < length (snd e)"
    by (cases e rule: sample_read.cases) simp_all
qed simp

text \<open>
  Whatever objects sync.Pool reuses, a bufio reader or writer handed out by the pool
  is bound to the given connection, holds no bytes and no error of its previous user;
  a fresh one has the configured buffer size (at least 16 for a reader).
\<close>
theorem pooled_buffers_are_clean:
  "br_src (fst (AcquireBufIOReader E c s)) = c \<and>
   br_buf (fst (AcquireBufIOReader E c s)) = [] \<and>
   br_err (fst (AcquireBufIOReader E c s)) = None \<and>
   bw_dst (fst (AcquireBufIOWriter E c s)) = c \<and>
   bw_buf (fst (AcquireBufIOWriter E c s)) = [] \<and>
   bw_err (fst (AcquireBufIOWriter E c s)) = None"
  by (simp add: AcquireBufIOReader_def AcquireBufIOWriter_def Let_def split_beta
      NewReaderSize_def NewWriterSize_def reader_Reset_def writer_Reset_def split: option.split)

text \<open>
  The reader gauge is exact as long as only readers move it: after any sequence of
  AcquireBufIOReader and ReleaseBufIOReader calls, BufIOReaderPoolInUse shows the number
  of readers acquired and not yet released.
\<close>
theorem reader_gauge_exact:
  assumes "gauges (mets s) BufIOReaderPoolInUse = bufIOReaderPoolInUse s"
  shows "bufIOReaderPoolInUse (gauge_run (\<lambda>s. snd (AcquireBufIOReader E c s)) (ReleaseBufIOReader br) ops s) =
      bufIOReaderPoolInUse s + balance ops \<and>
    gauges (mets (gauge_run (\<lambda>s. snd (AcquireBufIOReader E c s)) (ReleaseBufIOReader br) ops s))
      BufIOReaderPoolInUse = bufIOReaderPoolInUse s + balance ops"
  using reader_gauge.run_used reader_gauge.run_shown [OF assms] by blast

theorem reader_gauge_exact_witness:
  "gauges (mets (gauge_run (\<lambda>s. snd (AcquireBufIOReader sample_env (NetConn 0) s))
     (ReleaseBufIOReader (NewReaderSize (NetConn 0) 64)) [True, True, False]
     (bufio_init (0, [])))) BufIOReaderPoolInUse = 1"
proof -
  have "gauges (mets (bufio_init (0, []))) BufIOReaderPoolInUse =
      bufIOReaderPoolInUse (bufio_init (0, []))"
    by (simp add: bufio_init_def metrics_init_def)
  from reader_gauge_exact [OF this, of sample_env "NetConn 0"
      "NewReaderSize (NetConn 0) 64" "[True, True, False]"] show ?thesis
    by (simp add: bufio_init_def)
qed

text \<open>
  C39. The writer gauge is wrong: metricsBufIOWriter moves the reader's variables. Over any
  sequence of AcquireBufIOWriter and ReleaseBufIOWriter calls that gives back as many
  writers as it takes, BufIOWriterPoolIdle never moves, BufIOWriterPoolInUse never falls,
  and every increment it keeps is missing from BufIOReaderPoolInUse.
\<close>
theorem writer_gauge_skew:
  assumes "balance ops = 0"
    and "s' = gauge_run (\<lambda>s. snd (AcquireBufIOWriter E c s)) (ReleaseBufIOWriter bw) ops s"
  shows "bufIOWriterPoolIdle s' = bufIOWriterPoolIdle s \<and>
    bufIOWriterPoolInUse s \<le> bufIOWriterPoolInUse s' \<and>
    bufIOReaderPoolInUse s' =
      bufIOReaderPoolInUse s - (bufIOWriterPoolInUse s' - bufIOWriterPoolInUse s)"
proof -
  have "bufIOWriterPoolIdle (gauge_run (\<lambda>s. snd (AcquireBufIOWriter E c s)) (ReleaseBufIOWriter bw) ops s) =
        bufIOWriterPoolIdle s \<and>
      bufIOWriterPoolInUse s \<le>
        bufIOWriterPoolInUse (gauge_run (\<lambda>s. snd (AcquireBufIOWriter E c s)) (ReleaseBufIOWriter bw) ops s) \<and>
      bufIOReaderPoolInUse (gauge_run (\<lambda>s. snd (AcquireBufIOWriter E c s)) (ReleaseBufIOWriter bw) ops s) +
        bufIOWriterPoolInUse (gauge_run (\<lambda>s. snd (AcquireBufIOWriter E c s)) (ReleaseBufIOWriter bw) ops s) =
      bufIOReaderPoolInUse s + bufIOWriterPoolInUse s + balance ops" for ops
  proof (induction ops arbitrary: s rule: balance.induct)
    case 1
    then show ?case by simp
  next
    case (2 ops)
    let ?t = "snd (AcquireBufIOWriter E c s)"
    have "bufIOWriterPoolIdle ?t = bufIOWriterPoolIdle s"
      "bufIOWriterPoolInUse s \<le> bufIOWriterPoolInUse ?t"
      "bufIOReaderPoolInUse ?t + bufIOWriterPoolInUse ?t =
         bufIOReaderPoolInUse s + bufIOWriterPoolInUse s + 1"
      by (simp_all add: AcquireBufIOWriter_def Let_def split_beta gauge_defs split: option.split)
    with 2 [of ?t] show ?case by simp
  next
    case (3 ops)
    let ?t = "ReleaseBufIOWriter bw s"
    have "bufIOWriterPoolIdle ?t = bufIOWriterPoolIdle s"
      "bufIOWriterPoolInUse ?t = bufIOWriterPoolInUse s"
      "bufIOReaderPoolInUse ?t = bufIOReaderPoolInUse s - 1"
      by (simp_all add: ReleaseBufIOWriter_def gauge_defs)
    with 3 [of ?t] show ?case by simp
  qed
  from this [of ops] assms(1) show ?thesis unfolding assms(2) by (intro conjI) linarith+
qed

theorem writer_gauge_skew_witness:
  "\<exists>s'. s' = gauge_run (\<lambda>s. snd (AcquireBufIOWriter sample_env (NetConn 0) s))
       (ReleaseBufIOWriter (NewWriterSize (NetConn 0) 64)) [True, False] (bufio_init (0, [])) \<and>
     bufIOWriterPoolInUse s' = 1 \<and> bufIOReaderPoolInUse s' = -1"
proof -
  define s' where "s' = gauge_run (\<lambda>s. snd (AcquireBufIOWriter sample_env (NetConn 0) s))
       (ReleaseBufIOWriter (NewWriterSize (NetConn 0) 64)) [True, False] (bufio_init (0, []))"
  have one: "bufIOWriterPoolInUse s' = 1"
    by (simp add: s'_def AcquireBufIOWriter_def ReleaseBufIOWriter_def sync_Get_def bufio_init_def
        gauge_defs Let_def)
  have zero: "bufIOReaderPoolInUse (bufio_init ((0, []) :: sample_state)) = 0"
    "bufIOWriterPoolInUse (bufio_init ((0, []) :: sample_state)) = 0"
    by (simp_all add: bufio_init_def)
  have "bufIOReaderPoolInUse s' = -1"
    using writer_gauge_skew [OF _ s'_def] one zero by simp
  with one s'_def show ?thesis by blast
qed

text \<open>
  The idle gauge of the copy buffers does not count idle buffers: every copy takes one
  off at the start and puts it back at the end, whether its buffer was new or reused, so
  after any number of completed copies the gauge is what it was, although each of them has
  left a buffer in the pool; the in-use count comes back too.
\<close>
theorem pipe_idle_gauge_constant:
  assumes "PipeCopy E src dst s = Some (r, s')"
  shows "pipeCopyBufPoolIdle s' = pipeCopyBufPoolIdle s \<and>
    pipeCopyBufPoolInUse s' = pipeCopyBufPoolInUse s \<and>
    gauges (mets s') PipeCopyBufPoolIdle = pipeCopyBufPoolIdle s \<and>
    length (pipeCopyBufPool s) \<le> length (pipeCopyBufPool s') \<and> pipeCopyBufPool s' \<noteq> []"
proof -
  obtain v p s1 where get: "sync_Get E (pipeCopyBufPool s) s = (v, p, s1)"
    by (metis prod.exhaust)
  have "length (pipeCopyBufPool s) \<le> Suc (length (fst (snd (sync_Get E (pipeCopyBufPool s) s))))"
    by (auto simp: sync_Get_def split_beta split: option.split)
  then have len: "length (pipeCopyBufPool s) \<le> Suc (length p)" by (simp add: get)
  have "sys.more s1 = sys.more s"
    using sync_Get_frame(1) [of E "pipeCopyBufPool s" s] by (simp add: get)
  note vars = bufio_vars_of_more [OF this]
  define n where "n = (case v of Some n \<Rightarrow> n | None \<Rightarrow> nat (pipeCopyBufferSize s1))"
  define s2 where "s2 = metricsUpPipeCopy (s1\<lparr>pipeCopyBufPool := p\<rparr>)"
  from assms obtain s3 where loop: "pipe_loop E src dst n s2 = Some (r, s3)"
    and s': "s' = metricsDownPipeCopy (s3\<lparr>pipeCopyBufPool := pipeCopyBufPool s3 @ [n]\<rparr>)"
    unfolding PipeCopy_def Let_def get by (auto simp: n_def s2_def)
  note vars3 = bufio_vars_of_more [OF pipe_loop_copied(2) [OF loop]]
  have "pipeCopyBufPoolIdle s2 = pipeCopyBufPoolIdle s - 1"
    "pipeCopyBufPoolInUse s2 = pipeCopyBufPoolInUse s + 1" "pipeCopyBufPool s2 = p"
    using vars by (simp_all add: s2_def gauge_defs)
  with vars3 len show ?thesis by (simp add: s' gauge_defs)
qed

theorem pipe_idle_gauge_constant_witness:
  "\<exists>r s'. PipeCopy sample_env 0 (NetConn 9) (bufio_init (0, [])) = Some (r, s') \<and>
     gauges (mets s') PipeCopyBufPoolIdle = 0 \<and> pipeCopyBufPool s' \<noteq> []"
proof -
  have "\<exists>r s'. PipeCopy sample_env 0 (NetConn 9) (bufio_init (0, [])) = Some (r, s')"
    by (simp add: PipeCopy_def sync_Get_def bufio_init_def gauge_defs Let_def
        pipe_loop.simps [of sample_env 0 "NetConn 9"] pipe_turn_def sample_simps)
  then obtain r s' where run: "PipeCopy sample_env 0 (NetConn 9) (bufio_init (0, [])) = Some (r, s')"
    by blast
  with pipe_idle_gauge_constant [OF run] show ?thesis by (auto simp: bufio_init_def)
qed

end
