(* ===== verification/Readers.thy ===== *)
theory Readers
  imports BufioPool
begin

text \<open>
  internal/readers: TimedReader measures the reading of a response body, PoolReader
  decides when the upstream connection goes back to its pool. Both wrap another
  io.Reader: a state \<open>'r\<close> with a read function, so they can be stacked as the handler
  stacks them (PoolReader over TimedReader over bufio.Reader).
\<close>

type_synonym ('r, 's) io_read = "'r \<Rightarrow> nat \<Rightarrow> 's \<Rightarrow> (byte list \<times> go_error option) \<times> 'r \<times> 's"

section \<open>TimedReader\<close>

record 'r timed_reader =
  tr_connection :: net_conn
  tr_reader :: 'r
  tr_size :: int
  tr_started :: bool
  tr_start :: int

definition NewTimedReader :: "'r \<Rightarrow> net_conn \<Rightarrow> 'r timed_reader" where
  "NewTimedReader r c =
     \<lparr>tr_connection = c, tr_reader = r, tr_size = 0, tr_started = False, tr_start = 0\<rparr>"

definition timed_Read ::
  "('e, 'x) env_scheme \<Rightarrow> ('r, ('e, 'm) sys_scheme) io_read
     \<Rightarrow> ('r timed_reader, ('e, 'm) sys_scheme) io_read" where
  "timed_Read E rd tr n s =
     (let (tr1, s1) =
            (if \<not> tr_started tr then
               (let (t, s') = now E s in (tr\<lparr>tr_started := True, tr_start := t\<rparr>, s'))
             else (tr, s));
          ((b, err), r, s2) = rd (tr_reader tr1) n s1;
          tr2 = tr1\<lparr>tr_reader := r, tr_size := tr_size tr1 + int (length b)\<rparr>
      in if err = Some EOF \<or> 0 < length b \<and> err \<noteq> None then
           (let (t, s3) = now E s2
            in ((b, err), tr2, observe ResponseBodyReadDuration (t - tr_start tr2) s3))
         else ((b, err), tr2, s2))"

section \<open>PoolReader\<close>

text \<open>
  \<open>pr_remain\<close> is the number of body bytes still to read, negative when the body ends
  with the stream. It only ever falls by the length of a read of at most that many
  bytes, so it stays in int64. \<open>pr_onDone\<close> is given the wrapped reader as it is then.
\<close>

record ('r, 's) pool_reader =
  pr_reader :: 'r
  pr_upstreamAddr :: string
  pr_connection :: net_conn
  pr_returned :: bool
  pr_remain :: int
  pr_onDone :: "('r \<Rightarrow> 's \<Rightarrow> 's) option"

definition NewPoolReader ::
  "'r \<Rightarrow> string \<Rightarrow> net_conn \<Rightarrow> int \<Rightarrow> ('r \<Rightarrow> 's \<Rightarrow> 's) option \<Rightarrow> ('r, 's) pool_reader" where
  "NewPoolReader r addr conn remain cleanup =
     \<lparr>pr_reader = r, pr_upstreamAddr = addr, pr_connection = conn, pr_returned = False,
      pr_remain = remain, pr_onDone = cleanup\<rparr>"

definition call_onDone :: "('r, 's) pool_reader \<Rightarrow> 's \<Rightarrow> 's" where
  "call_onDone pr s = (case pr_onDone pr of Some f \<Rightarrow> f (pr_reader pr) s | None \<Rightarrow> s)"

definition readWithLimit ::
  "('e, 'x) env_scheme \<Rightarrow> ('r, ('e, 'm) pool_sys_scheme) io_read
     \<Rightarrow> (('r, ('e, 'm) pool_sys_scheme) pool_reader, ('e, 'm) pool_sys_scheme) io_read" where
  "readWithLimit E rd pr n s =
     (if pr_remain pr = 0 then (([], Some EOF), pr, s)
      else
        (let k = (if pr_remain pr < int n then nat (pr_remain pr) else n);
             ((b, err), r, s1) = rd (pr_reader pr) k s;
             pr1 = pr\<lparr>pr_reader := r, pr_remain := pr_remain pr - int (length b)\<rparr>;
             (pr2, s2) =
               (if pr_remain pr1 \<le> 0 \<and> \<not> pr_returned pr1 then
                  (pr1\<lparr>pr_returned := True\<rparr>,
                   call_onDone pr1
                     (ReleaseUpstreamConnection E (pr_upstreamAddr pr1) (pr_connection pr1) s1))
                else (pr1, s1));
             (pr3, s3) =
               (if err \<noteq> None \<and> \<not> pr_returned pr2 then
                  (pr2\<lparr>pr_returned := True\<rparr>,
                   call_onDone pr2
                     (ReleaseUpstreamConnection E (pr_upstreamAddr pr2) (pr_connection pr2) s2))
                else (pr2, s2))
         in ((b, err), pr3, s3)))"

definition readUntilEOF ::
  "('e, 'x) env_scheme \<Rightarrow> ('r, ('e, 'm) pool_sys_scheme) io_read
     \<Rightarrow> (('r, ('e, 'm) pool_sys_scheme) pool_reader, ('e, 'm) pool_sys_scheme) io_read" where
  "readUntilEOF E rd pr n s =
     (let ((b, err), r, s1) = rd (pr_reader pr) n s;
          pr1 = pr\<lparr>pr_reader := r\<rparr>;
          (pr2, s2) =
            (if \<not> pr_returned pr1 \<and> err \<noteq> None then
               (pr1\<lparr>pr_returned := True\<rparr>,
                call_onDone pr1
                  (CloseAndDropUpstreamConnection E (pr_upstreamAddr pr1) (pr_connection pr1) s1))
             else (pr1, s1))
      in ((b, err), pr2, s2))"

definition pool_Read ::
  "('e, 'x) env_scheme \<Rightarrow> ('r, ('e, 'm) pool_sys_scheme) io_read
     \<Rightarrow> (('r, ('e, 'm) pool_sys_scheme) pool_reader, ('e, 'm) pool_sys_scheme) io_read" where
  "pool_Read E rd pr n s =
     (if 0 \<le> pr_remain pr then readWithLimit E rd pr n s else readUntilEOF E rd pr n s)"

text \<open>A reader of the body calls Read again and again, with buffers of any sizes.\<close>

fun reads :: "('r, 's) io_read \<Rightarrow> 'r \<Rightarrow> nat list \<Rightarrow> 's
    \<Rightarrow> (byte list \<times> go_error option) list \<times> 'r \<times> 's" where
  "reads rd r [] s = ([], r, s)"
| "reads rd r (n # ns) s =
     (let (x, r1, s1) = rd r n s; (xs, r2, s2) = reads rd r1 ns s1 in (x # xs, r2, s2))"

definition read_bytes :: "(byte list \<times> go_error option) list \<Rightarrow> byte list" where
  "read_bytes xs = concat (map fst xs)"

definition read_failed :: "(byte list \<times> go_error option) list \<Rightarrow> bool" where
  "read_failed xs \<longleftrightarrow> (\<exists>x \<in> set xs. snd x \<noteq> None)"

lemma reads_obs_simps [simp]:
  "read_bytes [] = []" "read_bytes (x # xs) = fst x @ read_bytes xs"
  "\<not> read_failed []" "read_failed (x # xs) \<longleftrightarrow> snd x \<noteq> None \<or> read_failed xs"
  by (simp_all add: read_bytes_def read_failed_def)

section \<open>The contract of a body reader\<close>

text \<open>
  What PoolReader relies on: a Read answers with no more bytes than the buffer holds,
  and reading a body does not touch the variables of the pools nor dial, write or close.
\<close>

locale body_reader =
  fixes rd :: "('r, ('e, 'm) pool_sys_scheme) io_read"
  assumes at_most: "length (fst (fst (rd r n s))) \<le> n"
    and keeps_pools: "sys.more (snd (snd (rd r n s))) = sys.more s"
    and keeps_trace: "trace (snd (snd (rd r n s))) = trace s"

lemma bufio_Read_at_most: "length (fst (fst (bufio_Read E br n s))) \<le> n"
  using net_Read_length [of E "br_src br" n s]
  by (simp add: bufio_Read_def split_beta Let_def)

lemma bufio_Read_keeps: "sys.more (snd (snd (bufio_Read E br n s))) = sys.more s"
  by (simp add: bufio_Read_def split_beta Let_def frame_simps)

lemma bufio_Read_trace: "trace (snd (snd (bufio_Read E br n s))) = trace s"
  by (simp add: bufio_Read_def split_beta Let_def frame_simps)

interpretation bufio_body: body_reader "bufio_Read E" for E :: "('e, 'x) env_scheme"
  by unfold_locales (rule bufio_Read_at_most bufio_Read_keeps bufio_Read_trace)+

text \<open>TimedReader passes bytes and errors through, so it keeps the contract.\<close>

definition timed_start ::
  "('e, 'x) env_scheme \<Rightarrow> 'r timed_reader \<Rightarrow> ('e, 'm) sys_scheme
     \<Rightarrow> 'r timed_reader \<times> ('e, 'm) sys_scheme" where
  "timed_start E tr s =
     (if tr_started tr then (tr, s)
      else (tr\<lparr>tr_started := True, tr_start := fst (now E s)\<rparr>, snd (now E s)))"

lemma timed_start_frame [simp]:
  "tr_reader (fst (timed_start E tr s)) = tr_reader tr"
  "tr_size (fst (timed_start E tr s)) = tr_size tr"
  "tr_started (fst (timed_start E tr s))"
  "sys.more (snd (timed_start E tr s)) = sys.more s"
  "mets (snd (timed_start E tr s)) = mets s"
  "trace (snd (timed_start E tr s)) = trace s"
  by (simp_all add: timed_start_def frame_simps)

lemma timed_Read_eq:
  "timed_Read E rd tr n s =
     (let tr1 = fst (timed_start E tr s); x = rd (tr_reader tr) n (snd (timed_start E tr s));
          b = fst (fst x); err = snd (fst x); s2 = snd (snd x);
          tr2 = tr1\<lparr>tr_reader := fst (snd x), tr_size := tr_size tr + int (length b)\<rparr>
      in (fst x, tr2,
          if err = Some EOF \<or> 0 < length b \<and> err \<noteq> None
          then observe ResponseBodyReadDuration (fst (now E s2) - tr_start tr1) (snd (now E s2))
          else s2))"
proof -
  obtain tr1 s1 where start: "timed_start E tr s = (tr1, s1)" by fastforce
  obtain b err r s2 where rd: "rd (tr_reader tr) n s1 = ((b, err), r, s2)"
    by (metis prod.exhaust)
  have head: "(if \<not> tr_started tr then
       (let (t, s') = now E s in (tr\<lparr>tr_started := True, tr_start := t\<rparr>, s'))
     else (tr, s)) = (tr1, s1)"
    using start by (simp add: timed_start_def split_beta split: if_splits)
  have same: "tr_reader tr1 = tr_reader tr" "tr_size tr1 = tr_size tr"
    using start by (auto simp: timed_start_def split: if_splits)
  show ?thesis
    unfolding timed_Read_def head by (auto simp: start rd same split_beta Let_def)
qed

lemma timed_Read_fst: "fst (timed_Read E rd tr n s) = fst (rd (tr_reader tr) n (snd (timed_start E tr s)))"
  by (simp add: timed_Read_eq Let_def)

lemma timed_Read_more:
  "sys.more (snd (snd (timed_Read E rd tr n s))) =
   sys.more (snd (snd (rd (tr_reader tr) n (snd (timed_start E tr s)))))"
  by (simp add: timed_Read_eq Let_def frame_simps)

lemma timed_Read_trace:
  "trace (snd (snd (timed_Read E rd tr n s))) =
   trace (snd (snd (rd (tr_reader tr) n (snd (timed_start E tr s)))))"
  by (simp add: timed_Read_eq Let_def frame_simps)

interpretation timed_body: body_reader "timed_Read E (bufio_Read E)"
  for E :: "('e, 'x) env_scheme"
  by unfold_locales
    (simp_all add: timed_Read_fst timed_Read_more timed_Read_trace bufio_Read_at_most
      bufio_Read_keeps bufio_Read_trace)


section \<open>One Read of a PoolReader\<close>

text \<open>
  A Read whose underlying read answers \<open>(b, err)\<close>: the new PoolReader, and whether the
  connection is given up by this Read.
\<close>

definition limited :: "('r, 's) pool_reader \<Rightarrow> nat \<Rightarrow> nat" where
  "limited pr n = (if 0 \<le> pr_remain pr \<and> pr_remain pr < int n then nat (pr_remain pr) else n)"

definition after_read :: "('r, 's) pool_reader \<Rightarrow> byte list \<Rightarrow> 'r \<Rightarrow> ('r, 's) pool_reader" where
  "after_read pr b r =
     pr\<lparr>pr_reader := r,
        pr_remain := (if 0 \<le> pr_remain pr then pr_remain pr - int (length b) else pr_remain pr)\<rparr>"

definition gives_up :: "('r, 's) pool_reader \<Rightarrow> byte list \<Rightarrow> go_error option \<Rightarrow> bool" where
  "gives_up pr b err \<longleftrightarrow>
     \<not> pr_returned pr \<and>
     (if 0 \<le> pr_remain pr then pr_remain pr \<le> int (length b) \<or> err \<noteq> None else err \<noteq> None)"

definition give_back ::
  "('e, 'x) env_scheme \<Rightarrow> ('r, ('e, 'm) pool_sys_scheme) pool_reader
     \<Rightarrow> ('e, 'm) pool_sys_scheme \<Rightarrow> ('e, 'm) pool_sys_scheme" where
  "give_back E pr s =
     (if 0 \<le> pr_remain pr
      then ReleaseUpstreamConnection E (pr_upstreamAddr pr) (pr_connection pr) s
      else CloseAndDropUpstreamConnection E (pr_upstreamAddr pr) (pr_connection pr) s)"

lemma pool_Read_exhausted: "pr_remain pr = 0 \<Longrightarrow> pool_Read E rd pr n s = (([], Some EOF), pr, s)"
  by (simp add: pool_Read_def readWithLimit_def)

lemma pool_Read_eq:
  assumes "pr_remain pr \<noteq> 0"
    and "rd (pr_reader pr) (limited pr n) s = ((b, err), r, s1)"
  shows "pool_Read E rd pr n s =
    ((b, err),
     (if gives_up pr b err then (after_read pr b r)\<lparr>pr_returned := True\<rparr> else after_read pr b r),
     (if gives_up pr b err then call_onDone (after_read pr b r) (give_back E pr s1) else s1))"
proof (cases "0 \<le> pr_remain pr")
  case True
  define k where "k = (if pr_remain pr < int n then nat (pr_remain pr) else n)"
  have k: "rd (pr_reader pr) k s = ((b, err), r, s1)"
    using assms(2) True by (simp add: limited_def k_def)
  show ?thesis
    using True assms(1) unfolding pool_Read_def readWithLimit_def k_def [symmetric]
    by (cases "pr_returned pr"; cases "pr_remain pr \<le> int (length b)"; cases err)
      (simp_all add: k gives_up_def after_read_def give_back_def call_onDone_def Let_def)
next
  case False
  then have "rd (pr_reader pr) n s = ((b, err), r, s1)"
    using assms(2) by (simp add: limited_def)
  with False show ?thesis
    by (cases "pr_returned pr"; cases err)
      (simp_all add: pool_Read_def readUntilEOF_def gives_up_def after_read_def give_back_def
        call_onDone_def Let_def)
qed

text \<open>
  What neither the reader below, nor giving the connection back, nor the cleanup changes,
  no sequence of Reads changes.
\<close>

lemma reads_keep:
  fixes g :: "('e, 'm) pool_sys_scheme \<Rightarrow> 'k"
    and rd :: "('r, ('e, 'm) pool_sys_scheme) io_read"
  assumes below: "\<And>r n s. g (snd (snd (rd r n s))) = g s"
    and given: "\<And>pr :: ('r, ('e, 'm) pool_sys_scheme) pool_reader. \<And>s. g (give_back E pr s) = g s"
    and cleanup: "\<And>f r s. pr_onDone pr = Some f \<Longrightarrow> g (f r s) = g s"
    and "reads (pool_Read E rd) pr ns s = (xs, pr', s')"
  shows "g s' = g s"
  using assms(3,4)
proof (induction ns arbitrary: pr s xs)
  case Nil
  then show ?case by simp
next
  case (Cons n ns)
  obtain x pr1 s1 where one: "pool_Read E rd pr n s = (x, pr1, s1)" by (metis prod.exhaust)
  with Cons.prems(2) obtain ys where rest: "reads (pool_Read E rd) pr1 ns s1 = (ys, pr', s')"
    by (cases "reads (pool_Read E rd) pr1 ns s1") auto
  have "pr_onDone pr1 = pr_onDone pr \<and> g s1 = g s"
  proof (cases "pr_remain pr = 0")
    case True
    with one show ?thesis by (simp add: pool_Read_exhausted)
  next
    case False
    obtain b err r s2 where rd: "rd (pr_reader pr) (limited pr n) s = ((b, err), r, s2)"
      by (metis prod.exhaust)
    have s2: "g s2 = g s" using below [of "pr_reader pr" "limited pr n" s] rd by simp
    have cln: "g (call_onDone (after_read pr b r) u) = g u" for u
      using Cons.prems(1) by (cases "pr_onDone pr") (simp_all add: call_onDone_def after_read_def)
    from pool_Read_eq [where E = E and rd = rd and pr = pr, OF False rd] one s2 given cln show ?thesis
      by (auto simp: after_read_def)
  qed
  with Cons.IH [OF _ rest] Cons.prems(1) show ?case by simp
qed

text \<open>The cleanup of a PoolReader touches no connection pool, performs no I/O and times nothing.\<close>

definition cleanup_ok :: "('r, ('e, 'm) pool_sys_scheme) pool_reader \<Rightarrow> bool" where
  "cleanup_ok pr \<longleftrightarrow>
     (\<forall>f r s. pr_onDone pr = Some f \<longrightarrow>
        upstreamPool (f r s) = upstreamPool s \<and>
        maxUpstreamConnectionsPerHost (f r s) = maxUpstreamConnectionsPerHost s \<and>
        trace (f r s) = trace s \<and> observed (mets (f r s)) = observed (mets s))"

lemma call_onDone_pools:
  assumes "cleanup_ok pr"
  shows "pool_at a (call_onDone pr s) = pool_at a s"
    "maxUpstreamConnectionsPerHost (call_onDone pr s) = maxUpstreamConnectionsPerHost s"
    "trace (call_onDone pr s) = trace s"
    "observed (mets (call_onDone pr s)) = observed (mets s)"
  using assms unfolding cleanup_ok_def call_onDone_def pool_at_def
  by (auto split: option.split)

lemma cleanup_ok_update [simp]:
  "cleanup_ok (after_read pr b r) = cleanup_ok pr"
  "cleanup_ok (pr\<lparr>pr_returned := v\<rparr>) = cleanup_ok pr"
  "cleanup_ok (pr\<lparr>pr_reader := r\<rparr>) = cleanup_ok pr"
  "cleanup_ok (pr\<lparr>pr_remain := k\<rparr>) = cleanup_ok pr"
  by (simp_all add: cleanup_ok_def after_read_def)

lemma after_read_sel [simp]:
  "pr_upstreamAddr (after_read pr b r) = pr_upstreamAddr pr"
  "pr_connection (after_read pr b r) = pr_connection pr"
  "pr_returned (after_read pr b r) = pr_returned pr"
  "pr_onDone (after_read pr b r) = pr_onDone pr"
  "pr_reader (after_read pr b r) = r"
  by (simp_all add: after_read_def)

lemma give_back_accounting:
  assumes "pool_wf s" and "1 \<le> in_use (pr_upstreamAddr pr) s"
  shows "pool_wf (give_back E pr s)"
    and "in_use b (give_back E pr s) = in_use b s - (if b = pr_upstreamAddr pr then 1 else 0)"
  using release_accounting(1,2) [OF assms, where E = E]
    drop_accounting(1,2) [OF assms, where E = E]
  by (simp_all add: give_back_def)

lemma give_back_observed: "observed (mets (give_back E pr s)) = observed (mets s)"
  by (simp add: give_back_def ReleaseUpstreamConnection_def CloseAndDropUpstreamConnection_def
      LoadOrStore_def Let_def split_beta frame_simps)

text \<open>Within the limits, a connection is pushed as idle or closed, as the length decides.\<close>

lemma give_back_effects:
  assumes "pool_wf s" and "1 \<le> in_use (pr_upstreamAddr pr) s"
  shows "map idle_conn (idle_list (pr_upstreamAddr pr) (give_back E pr s)) =
           map idle_conn (idle_list (pr_upstreamAddr pr) s) @
           (if 0 \<le> pr_remain pr then [pr_connection pr] else [])"
    and "trace (give_back E pr s) =
           trace s @ (if 0 \<le> pr_remain pr then [] else [EvClose (pr_connection pr)])"
  using release_room [OF in_use_room(1) [OF assms], where E = E]
    release_accounting(4) [OF assms, where E = E] drop_accounting(4) [OF assms, where E = E]
  by (simp_all add: give_back_def)

context body_reader
begin

lemma rd_short: "rd r n s = ((b, err), r', s') \<Longrightarrow> length b \<le> n"
  using at_most [of r n s] by simp

lemma rd_more: "rd r n s = ((b, err), r', s') \<Longrightarrow> sys.more s' = sys.more s"
  using keeps_pools [of r n s] by simp

text \<open>
  One Read, as far as the pools are concerned: the limit is respected, what is left to
  read goes down by what was read, and the connection is given back exactly when the
  Read reaches the end of the body or fails.
\<close>

lemma pool_Read_step:
  assumes "pool_Read E rd pr n s = ((b, err), pr', s')"
    and "cleanup_ok pr" and "pool_wf s" and "pr_returned pr \<or> 1 \<le> in_use (pr_upstreamAddr pr) s"
  shows "length b \<le> n"
    and "0 \<le> pr_remain pr \<Longrightarrow> pr_remain pr' = pr_remain pr - int (length b) \<and> 0 \<le> pr_remain pr'"
    and "pr_remain pr < 0 \<Longrightarrow> pr_remain pr' = pr_remain pr"
    and "pr_upstreamAddr pr' = pr_upstreamAddr pr" and "cleanup_ok pr'"
    and "pr_connection pr' = pr_connection pr"
    and "pr_returned pr' \<longleftrightarrow> pr_returned pr \<or> pr_remain pr \<noteq> 0 \<and> (pr_remain pr' = 0 \<or> err \<noteq> None)"
    and "pool_wf s'"
    and "in_use a s' = in_use a s -
           (if a = pr_upstreamAddr pr \<and> pr_returned pr' \<and> \<not> pr_returned pr then 1 else 0)"
proof -
  have "length b \<le> n \<and>
    (0 \<le> pr_remain pr \<longrightarrow> pr_remain pr' = pr_remain pr - int (length b) \<and> 0 \<le> pr_remain pr') \<and>
    (pr_remain pr < 0 \<longrightarrow> pr_remain pr' = pr_remain pr) \<and>
    pr_upstreamAddr pr' = pr_upstreamAddr pr \<and> cleanup_ok pr' \<and>
    pr_connection pr' = pr_connection pr \<and>
    (pr_returned pr' \<longleftrightarrow> pr_returned pr \<or> pr_remain pr \<noteq> 0 \<and> (pr_remain pr' = 0 \<or> err \<noteq> None)) \<and>
    pool_wf s' \<and>
    (\<forall>a. in_use a s' = in_use a s -
       (if a = pr_upstreamAddr pr \<and> pr_returned pr' \<and> \<not> pr_returned pr then 1 else 0))"
  proof (cases "pr_remain pr = 0")
    case True
    with assms show ?thesis by (auto simp: pool_Read_exhausted)
  next
    case False
    obtain b' err' r s1 where rd: "rd (pr_reader pr) (limited pr n) s = ((b', err'), r, s1)"
      by (metis prod.exhaust)
    note eq = pool_Read_eq [where rd = rd and pr = pr and E = E, OF False rd]
    have b: "b' = b" "err' = err" using eq assms(1) by simp_all
    have short: "length b \<le> limited pr n" using rd_short [OF rd] b by simp
    have more: "pool_at a s1 = pool_at a s"
      "maxUpstreamConnectionsPerHost s1 = maxUpstreamConnectionsPerHost s" for a
      using pool_vars_of_more [OF rd_more [OF rd]] by simp_all
    note same = pool_wf_cong [OF more]
    show ?thesis
    proof (cases "gives_up pr b err")
      case False
      with eq assms b have "pr' = after_read pr b r" "s' = s1" by simp_all
      with False short \<open>pr_remain pr \<noteq> 0\<close> assms(2,3) same show ?thesis
        by (auto simp: gives_up_def limited_def after_read_def [of pr b r] split: if_splits)
    next
      case True
      with eq assms(1) b have pr': "pr' = (after_read pr b r)\<lparr>pr_returned := True\<rparr>"
        and s': "s' = call_onDone (after_read pr b r) (give_back E pr s1)" by simp_all
      have "1 \<le> in_use (pr_upstreamAddr pr) s1"
        using True assms(4) same(2) by (simp add: gives_up_def)
      note given = give_back_accounting [where E = E, OF _ this]
      note cleanup = call_onDone_pools [where pr = "after_read pr b r"]
      have "pool_wf s'" "\<And>a. in_use a s' = in_use a s - (if a = pr_upstreamAddr pr then 1 else 0)"
        using pool_wf_cong [of s' "give_back E pr s1"] cleanup s' assms(2,3) given same
        by simp_all
      with True pr' short \<open>pr_remain pr \<noteq> 0\<close> assms(2) show ?thesis
        by (auto simp: gives_up_def limited_def after_read_def [of pr b r] split: if_splits)
    qed
  qed
  then show "length b \<le> n"
    and "0 \<le> pr_remain pr \<Longrightarrow> pr_remain pr' = pr_remain pr - int (length b) \<and> 0 \<le> pr_remain pr'"
    and "pr_remain pr < 0 \<Longrightarrow> pr_remain pr' = pr_remain pr"
    and "pr_upstreamAddr pr' = pr_upstreamAddr pr" and "cleanup_ok pr'"
    and "pr_connection pr' = pr_connection pr"
    and "pr_returned pr' \<longleftrightarrow> pr_returned pr \<or> pr_remain pr \<noteq> 0 \<and> (pr_remain pr' = 0 \<or> err \<noteq> None)"
    and "pool_wf s'"
    and "in_use a s' = in_use a s -
           (if a = pr_upstreamAddr pr \<and> pr_returned pr' \<and> \<not> pr_returned pr then 1 else 0)"
    by blast+
qed

text \<open>What that Read does to the idle list and on the wire.\<close>

lemma pool_Read_effects:
  assumes "pool_Read E rd pr n s = ((b, err), pr', s')"
    and "cleanup_ok pr" and "pool_wf s" and "pr_returned pr \<or> 1 \<le> in_use (pr_upstreamAddr pr) s"
  defines "now_returned \<equiv> pr_returned pr' \<and> \<not> pr_returned pr"
  shows "map idle_conn (idle_list (pr_upstreamAddr pr) s') =
           map idle_conn (idle_list (pr_upstreamAddr pr) s) @
           (if now_returned \<and> 0 \<le> pr_remain pr then [pr_connection pr] else [])" (is ?idle)
    and "trace s' =
           trace s @ (if now_returned \<and> pr_remain pr < 0 then [EvClose (pr_connection pr)] else [])"
      (is ?trace)
proof -
  have "?idle \<and> ?trace"
  proof (cases "pr_remain pr = 0")
    case True
    with assms(1) show ?thesis by (auto simp: pool_Read_exhausted now_returned_def)
  next
    case False
    obtain b' err' r s1 where rd: "rd (pr_reader pr) (limited pr n) s = ((b', err'), r, s1)"
      by (metis prod.exhaust)
    note eq = pool_Read_eq [where rd = rd and pr = pr and E = E, OF False rd]
    have more: "pool_at a s1 = pool_at a s"
      "maxUpstreamConnectionsPerHost s1 = maxUpstreamConnectionsPerHost s" for a
      using pool_vars_of_more [OF rd_more [OF rd]] by simp_all
    note same = pool_wf_cong [OF more]
    have trace: "trace s1 = trace s" using keeps_trace [of "pr_reader pr" "limited pr n" s] rd by simp
    show ?thesis
    proof (cases "gives_up pr b' err'")
      case False
      with eq assms(1) have "pr' = after_read pr b' r" "s' = s1" by simp_all
      then show ?thesis using same(4) trace by (simp add: now_returned_def)
    next
      case True
      with eq assms(1) have pr': "pr' = (after_read pr b' r)\<lparr>pr_returned := True\<rparr>"
        and s': "s' = call_onDone (after_read pr b' r) (give_back E pr s1)" by simp_all
      have use: "1 \<le> in_use (pr_upstreamAddr pr) s1"
        using True assms(4) same(2) by (simp add: gives_up_def)
      note cleanup = call_onDone_pools [where pr = "after_read pr b' r"]
      have "idle_list a s' = idle_list a (give_back E pr s1)" for a
        using cleanup(1) assms(2) s' by (simp add: idle_list_def)
      then show ?thesis
        using give_back_effects [where E = E, OF _ use] cleanup(3) assms(2,3) same trace s' pr' True
        by (simp add: now_returned_def gives_up_def)
    qed
  qed
  then show ?idle and ?trace by simp_all
qed

text \<open>Other upstreams have nothing to do with it.\<close>

lemma pool_Read_elsewhere:
  assumes "pool_Read E rd pr n s = (x, pr', s')" and "cleanup_ok pr" and "a \<noteq> pr_upstreamAddr pr"
  shows "pool_at a s' = pool_at a s" "pr_upstreamAddr pr' = pr_upstreamAddr pr" "cleanup_ok pr'"
proof -
  have "pool_at a s' = pool_at a s \<and> pr_upstreamAddr pr' = pr_upstreamAddr pr \<and> cleanup_ok pr'"
  proof (cases "pr_remain pr = 0")
    case True
    with assms show ?thesis by (simp add: pool_Read_exhausted)
  next
    case False
    obtain b err r s1 where rd: "rd (pr_reader pr) (limited pr n) s = ((b, err), r, s1)"
      by (metis prod.exhaust)
    have "pool_at a s1 = pool_at a s" using pool_vars_of_more [OF rd_more [OF rd]] by simp
    moreover have "pool_at a (give_back E pr s1) = pool_at a s1"
      using pools_isolated [OF assms(3), of E s1 "pr_connection pr"] by (simp add: give_back_def)
    ultimately show ?thesis
      using pool_Read_eq [where rd = rd and pr = pr and E = E, OF False rd] assms(1,2)
        call_onDone_pools(1) [where pr = "after_read pr b r"]
      by (auto split: if_splits)
  qed
  then show "pool_at a s' = pool_at a s" "pr_upstreamAddr pr' = pr_upstreamAddr pr" "cleanup_ok pr'"
    by simp_all
qed

lemma pool_reads_elsewhere:
  "reads (pool_Read E rd) pr ns s = (xs, pr', s') \<Longrightarrow> cleanup_ok pr \<Longrightarrow> a \<noteq> pr_upstreamAddr pr \<Longrightarrow>
   pool_at a s' = pool_at a s"
proof (induction ns arbitrary: pr s xs)
  case Nil
  then show ?case by simp
next
  case (Cons n ns)
  obtain x pr1 s1 where one: "pool_Read E rd pr n s = (x, pr1, s1)" by (metis prod.exhaust)
  with Cons.prems(1) obtain ys where "reads (pool_Read E rd) pr1 ns s1 = (ys, pr', s')"
    by (cases "reads (pool_Read E rd) pr1 ns s1") auto
  from Cons.IH [OF this] pool_Read_elsewhere [OF one Cons.prems(2,3)] Cons.prems(3) show ?case by simp
qed

text \<open>Any number of Reads: the same, with the bytes of all of them.\<close>

lemma pool_reads:
  assumes "reads (pool_Read E rd) pr ns s = (xs, pr', s')"
    and "cleanup_ok pr" and "pool_wf s" and "pr_returned pr \<or> 1 \<le> in_use (pr_upstreamAddr pr) s"
  defines "now_returned \<equiv> pr_returned pr' \<and> \<not> pr_returned pr"
  shows "0 \<le> pr_remain pr \<Longrightarrow>
           pr_remain pr' = pr_remain pr - int (length (read_bytes xs)) \<and> 0 \<le> pr_remain pr'"
    and "pr_remain pr < 0 \<Longrightarrow> pr_remain pr' = pr_remain pr"
    and "pr_returned pr' \<longleftrightarrow>
           pr_returned pr \<or> pr_remain pr \<noteq> 0 \<and> (pr_remain pr' = 0 \<or> read_failed xs)"
    and "pool_wf s'"
    and "in_use a s' = in_use a s - (if a = pr_upstreamAddr pr \<and> now_returned then 1 else 0)"
    and "map idle_conn (idle_list (pr_upstreamAddr pr) s') =
           map idle_conn (idle_list (pr_upstreamAddr pr) s) @
           (if now_returned \<and> 0 \<le> pr_remain pr then [pr_connection pr] else [])"
    and "trace s' =
           trace s @ (if now_returned \<and> pr_remain pr < 0 then [EvClose (pr_connection pr)] else [])"
proof -
  have "(0 \<le> pr_remain pr \<longrightarrow>
       pr_remain pr' = pr_remain pr - int (length (read_bytes xs)) \<and> 0 \<le> pr_remain pr') \<and>
    (pr_remain pr < 0 \<longrightarrow> pr_remain pr' = pr_remain pr) \<and>
    (pr_returned pr' \<longleftrightarrow>
       pr_returned pr \<or> pr_remain pr \<noteq> 0 \<and> (pr_remain pr' = 0 \<or> read_failed xs)) \<and>
    pool_wf s' \<and>
    (\<forall>a. in_use a s' = in_use a s -
       (if a = pr_upstreamAddr pr \<and> pr_returned pr' \<and> \<not> pr_returned pr then 1 else 0)) \<and>
    map idle_conn (idle_list (pr_upstreamAddr pr) s') =
      map idle_conn (idle_list (pr_upstreamAddr pr) s) @
      (if (pr_returned pr' \<and> \<not> pr_returned pr) \<and> 0 \<le> pr_remain pr then [pr_connection pr] else []) \<and>
    trace s' = trace s @
      (if (pr_returned pr' \<and> \<not> pr_returned pr) \<and> pr_remain pr < 0 then [EvClose (pr_connection pr)]
       else [])"
    using assms(1-4)
  proof (induction ns arbitrary: pr s xs)
    case Nil
    then show ?case by auto
  next
    case (Cons n ns)
    obtain b err pr1 s1 where one: "pool_Read E rd pr n s = ((b, err), pr1, s1)"
      by (metis prod.exhaust)
    obtain ys where rest: "reads (pool_Read E rd) pr1 ns s1 = (ys, pr', s')"
      and xs: "xs = (b, err) # ys"
      using Cons.prems(1) one by (auto simp: split_beta Let_def) (metis prod.collapse)
    note step = pool_Read_step [OF one Cons.prems(2-4)] pool_Read_effects [OF one Cons.prems(2-4)]
    have "pr_returned pr1 \<or> 1 \<le> in_use (pr_upstreamAddr pr1) s1"
      using step(4,7) step(9) [of "pr_upstreamAddr pr"] Cons.prems(4) by auto
    note IH = Cons.IH [OF rest step(5,8) this]
    have mono: "pr_returned pr \<Longrightarrow> pr_returned pr1" "pr_returned pr1 \<Longrightarrow> pr_returned pr'"
      using step(7) IH by simp_all
    have sign: "0 \<le> pr_remain pr1 \<longleftrightarrow> 0 \<le> pr_remain pr"
      using step(2,3) by (cases "0 \<le> pr_remain pr") auto
    show ?case
    proof (intro conjI)
      show "0 \<le> pr_remain pr \<longrightarrow>
          pr_remain pr' = pr_remain pr - int (length (read_bytes xs)) \<and> 0 \<le> pr_remain pr'"
        using step(2) IH by (auto simp: xs)
      show "pr_remain pr < 0 \<longrightarrow> pr_remain pr' = pr_remain pr" using step(3) IH by simp
      show ret: "pr_returned pr' \<longleftrightarrow>
          pr_returned pr \<or> pr_remain pr \<noteq> 0 \<and> (pr_remain pr' = 0 \<or> read_failed xs)"
        using step(2,3,7) IH by (cases "pr_remain pr" "0 :: int" rule: linorder_cases) (auto simp: xs)
      show "pool_wf s'" using IH by simp
      show "\<forall>a. in_use a s' = in_use a s -
          (if a = pr_upstreamAddr pr \<and> pr_returned pr' \<and> \<not> pr_returned pr then 1 else 0)"
        using IH unfolding step(4)
        by (cases "pr_returned pr"; cases "pr_returned pr1"; cases "pr_returned pr'")
          (use mono step(9) in simp_all)
      show "map idle_conn (idle_list (pr_upstreamAddr pr) s') =
        map idle_conn (idle_list (pr_upstreamAddr pr) s) @
        (if (pr_returned pr' \<and> \<not> pr_returned pr) \<and> 0 \<le> pr_remain pr then [pr_connection pr] else [])"
        using IH unfolding step(4,6)
        by (cases "pr_returned pr"; cases "pr_returned pr1"; cases "pr_returned pr'")
          (use mono sign step(10) in simp_all)
      show "trace s' = trace s @
        (if (pr_returned pr' \<and> \<not> pr_returned pr) \<and> pr_remain pr < 0
         then [EvClose (pr_connection pr)] else [])"
        using IH sign unfolding step(4,6) not_le [symmetric]
        by (cases "pr_returned pr"; cases "pr_returned pr1"; cases "pr_returned pr'")
          (use mono step(11) in simp_all)
    qed
  qed
  then show "0 \<le> pr_remain pr \<Longrightarrow>
           pr_remain pr' = pr_remain pr - int (length (read_bytes xs)) \<and> 0 \<le> pr_remain pr'"
    and "pr_remain pr < 0 \<Longrightarrow> pr_remain pr' = pr_remain pr"
    and "pr_returned pr' \<longleftrightarrow>
           pr_returned pr \<or> pr_remain pr \<noteq> 0 \<and> (pr_remain pr' = 0 \<or> read_failed xs)"
    and "pool_wf s'"
    and "in_use a s' = in_use a s - (if a = pr_upstreamAddr pr \<and> now_returned then 1 else 0)"
    and "map idle_conn (idle_list (pr_upstreamAddr pr) s') =
           map idle_conn (idle_list (pr_upstreamAddr pr) s) @
           (if now_returned \<and> 0 \<le> pr_remain pr then [pr_connection pr] else [])"
    and "trace s' =
           trace s @ (if now_returned \<and> pr_remain pr < 0 then [EvClose (pr_connection pr)] else [])"
    unfolding now_returned_def by blast+
qed

end

section \<open>The reader the handler builds\<close>

text \<open>
  PoolReader over TimedReader over the pooled bufio.Reader, and the environment of the
  examples: one connection of \<open>h\<close> in use, the upstream about to send three bytes.
\<close>

abbreviation body_stack_Read ::
  "('e, 'x) env_scheme
     \<Rightarrow> ((bufio_reader timed_reader, ('e, 'm) pool_sys_scheme) pool_reader,
         ('e, 'm) pool_sys_scheme) io_read" where
  "body_stack_Read E \<equiv> pool_Read E (timed_Read E (bufio_Read E))"

lemma NewPoolReader_sel [simp]:
  "pr_reader (NewPoolReader r addr conn n f) = r"
  "pr_upstreamAddr (NewPoolReader r addr conn n f) = addr"
  "pr_connection (NewPoolReader r addr conn n f) = conn"
  "\<not> pr_returned (NewPoolReader r addr conn n f)"
  "pr_remain (NewPoolReader r addr conn n f) = n"
  "pr_onDone (NewPoolReader r addr conn n f) = f"
  by (simp_all add: NewPoolReader_def)

lemma cleanup_ok_None [simp]: "cleanup_ok (NewPoolReader r addr conn n None)"
  by (simp add: cleanup_ok_def)

definition one_in_use :: "sample_state pool_sys" where
  "one_in_use =
     (snd (AcquireUpstreamConnection sample_env ''h'' (pool_init (0, []))))
       \<lparr>ext := (2, [([1, 2, 3], None)])\<rparr>"

lemma one_in_use_wf: "pool_wf one_in_use" "in_use ''h'' one_in_use = 1"
proof -
  let ?s = "snd (AcquireUpstreamConnection sample_env ''h'' (pool_init (0, [])))"
  have ok: "\<not> isl (fst (AcquireUpstreamConnection sample_env ''h'' (pool_init (0, []))))"
    by (simp add: pool_eval sample_simps)
  have "pool_at a one_in_use = pool_at a ?s" for a
    by (simp add: one_in_use_def pool_at_def)
  then have same: "pool_wf one_in_use = pool_wf ?s" "in_use ''h'' one_in_use = in_use ''h'' ?s"
    using pool_wf_cong [of one_in_use ?s] by (simp_all add: one_in_use_def)
  show "pool_wf one_in_use" "in_use ''h'' one_in_use = 1"
    using acquire_accounting [where E = sample_env, OF pool_init_wf(1) [of "(0, []) :: sample_state"]]
      pool_init_wf(2) [of "''h''" "(0, []) :: sample_state"] ok
    by (simp_all add: same)
qed

definition sample_body :: "int \<Rightarrow> (bufio_reader timed_reader, sample_state pool_sys) pool_reader" where
  "sample_body n =
     NewPoolReader (NewTimedReader (NewReaderSize (NetConn 0) 64) (NetConn 0)) ''h'' (NetConn 0) n None"

lemmas sample_body_eval =
  pool_Read_def readWithLimit_def readUntilEOF_def timed_Read_def bufio_Read_def sample_body_def
  NewTimedReader_def NewReaderSize_def one_in_use_def sample_simps Let_def
  ReleaseUpstreamConnection_def LoadOrStore_def

text \<open>
  C18. A body of a fixed, positive length \<open>N\<close> gives its connection back exactly once, and alive:
  whatever the sizes of the Reads, no more than \<open>N\<close> bytes are delivered, no connection is closed,
  and the connection joins its upstream's idle list (once) when all \<open>N\<close> bytes
  have been read or a Read has failed; until then it stays in use, and the pools of all
  other upstreams stay as they are. (A body of length 0 is another matter: it never gives
  its connection back, see \<open>empty_body_never_returned\<close>.)
\<close>
theorem fixed_body_returns_once:
  fixes s :: "('e, 'm) pool_sys_scheme"
  assumes "pool_wf s" and "1 \<le> in_use addr s" and "0 < N"
    and "cleanup_ok (NewPoolReader tr addr conn N cleanup)"
    and "reads (body_stack_Read E) (NewPoolReader tr addr conn N cleanup) ns s = (xs, pr', s')"
  shows "int (length (read_bytes xs)) \<le> N \<and> pool_wf s' \<and> trace s' = trace s \<and>
    (if int (length (read_bytes xs)) = N \<or> read_failed xs
     then in_use addr s' = in_use addr s - 1 \<and>
       map idle_conn (idle_list addr s') = map idle_conn (idle_list addr s) @ [conn]
     else in_use addr s' = in_use addr s \<and>
       map idle_conn (idle_list addr s') = map idle_conn (idle_list addr s)) \<and>
    (\<forall>a. a \<noteq> addr \<longrightarrow> pool_at a s' = pool_at a s)"
  using timed_body.pool_reads [OF assms(5,4,1)] timed_body.pool_reads_elsewhere [OF assms(5,4)] assms(2,3)
  by auto

theorem fixed_body_returns_once_witness:
  "\<exists>xs pr' s'. reads (body_stack_Read sample_env) (sample_body 3) [2, 2] one_in_use = (xs, pr', s') \<and>
     read_bytes xs = [1, 2, 3] \<and> in_use ''h'' s' = 0 \<and>
     map idle_conn (idle_list ''h'' s') = map idle_conn (idle_list ''h'' one_in_use) @ [NetConn 0]"
proof -
  obtain xs pr' s' where run:
    "reads (body_stack_Read sample_env) (sample_body 3) [2, 2] one_in_use = (xs, pr', s')"
    by (metis prod.exhaust)
  have "fst (reads (body_stack_Read sample_env) (sample_body 3) [2, 2] one_in_use) =
      [([1, 2], None), ([3], None)]"
    by (simp add: sample_body_eval)
  with run have bytes: "read_bytes xs = [1, 2, 3]" by simp
  show ?thesis
    using fixed_body_returns_once [of one_in_use "''h''" 3 _ "NetConn 0" None sample_env "[2, 2]" xs pr' s'] bytes run
    by (auto simp: sample_body_def one_in_use_wf)
qed

text \<open>
  C19. A body that ends with the stream never puts its connection back: at the first
  failed Read (EOF included) the connection is closed, once, and its slot is freed; before
  that nothing happens to it, and the idle list of its upstream is never touched.
\<close>
theorem stream_body_closes_once:
  fixes s :: "('e, 'm) pool_sys_scheme"
  assumes "pool_wf s" and "1 \<le> in_use addr s" and "N < 0"
    and "cleanup_ok (NewPoolReader tr addr conn N cleanup)"
    and "reads (body_stack_Read E) (NewPoolReader tr addr conn N cleanup) ns s = (xs, pr', s')"
  shows "pool_wf s' \<and> map idle_conn (idle_list addr s') = map idle_conn (idle_list addr s) \<and>
    trace s' = trace s @ (if read_failed xs then [EvClose conn] else []) \<and>
    (\<forall>a. in_use a s' = in_use a s - (if a = addr \<and> read_failed xs then 1 else 0))"
  using timed_body.pool_reads [OF assms(5,4,1)] assms(2,3) by auto

theorem stream_body_closes_once_witness:
  "\<exists>xs pr' s'. reads (body_stack_Read sample_env) (sample_body (-1)) [2, 2, 2] one_in_use = (xs, pr', s') \<and>
     in_use ''h'' s' = 0 \<and> trace s' = trace one_in_use @ [EvClose (NetConn 0)]"
proof -
  obtain xs pr' s' where run:
    "reads (body_stack_Read sample_env) (sample_body (-1)) [2, 2, 2] one_in_use = (xs, pr', s')"
    by (metis prod.exhaust)
  have "fst (reads (body_stack_Read sample_env) (sample_body (-1)) [2, 2, 2] one_in_use) =
      [([1, 2], None), ([3], None), ([], Some EOF)]"
    by (simp add: sample_body_eval)
  with run have "read_failed xs" by simp
  then show ?thesis
    using stream_body_closes_once [of one_in_use "''h''" "-1" _ "NetConn 0" None sample_env
        "[2, 2, 2]" xs pr' s'] run
    by (auto simp: sample_body_def one_in_use_wf)
qed

text \<open>
  C38. An upstream that announces N bytes and closes its socket earlier: the failed Read
  puts the dead connection on the idle list, and the next request to that upstream, if it
  comes within the idle timeout, is given that same connection.
\<close>
theorem truncated_body_reused:
  fixes s :: "('e, 'm) pool_sys_scheme"
  assumes "pool_wf s" and "1 \<le> in_use addr s" and "int (length (read_bytes xs)) < N"
    and "cleanup_ok (NewPoolReader tr addr conn N cleanup)"
    and "reads (body_stack_Read E) (NewPoolReader tr addr conn N cleanup) ns s = (xs, pr', s')"
    and "(b, Some EOF) \<in> set xs"
    and "fst (time_Now E (ext s')) - returnedAt (last (idle_list addr s')) \<le> idleTimeout s'"
  shows "fst (AcquireUpstreamConnection E addr s') = Inr conn \<and>
    trace (snd (AcquireUpstreamConnection E addr s')) = trace s"
proof -
  have "read_failed xs" using assms(6) by (force simp: read_failed_def)
  moreover have "0 < N" using assms(3) by linarith
  ultimately have idle: "map idle_conn (idle_list addr s') = map idle_conn (idle_list addr s) @ [conn]"
    and trace: "trace s' = trace s"
    using timed_body.pool_reads [OF assms(5,4,1)] assms(2) by auto
  then have ne: "idle_list addr s' \<noteq> []" by auto
  have "idle_conn (last (idle_list addr s')) = conn"
    using idle ne last_map [of "idle_list addr s'" idle_conn] by simp
  with acquire_reuse [OF ne assms(7)] trace show ?thesis by simp
qed

theorem truncated_body_reused_witness:
  "\<exists>xs pr' s'. reads (body_stack_Read sample_env) (sample_body 5) [8, 8] one_in_use = (xs, pr', s') \<and>
     read_bytes xs = [1, 2, 3] \<and> fst (AcquireUpstreamConnection sample_env ''h'' s') = Inr (NetConn 0)"
proof -
  obtain xs pr' s' where run:
    "reads (body_stack_Read sample_env) (sample_body 5) [8, 8] one_in_use = (xs, pr', s')"
    by (metis prod.exhaust)
  have "fst (reads (body_stack_Read sample_env) (sample_body 5) [8, 8] one_in_use) =
      [([1, 2, 3], None), ([], Some EOF)]"
    by (simp add: sample_body_eval)
  with run have xs: "xs = [([1, 2, 3], None), ([], Some EOF)]" by simp
  have "s' = snd (snd (reads (body_stack_Read sample_env) (sample_body 5) [8, 8] one_in_use))"
    by (simp only: run snd_conv)
  then have fresh: "fst (time_Now sample_env (ext s')) - returnedAt (last (idle_list ''h'' s'))
      \<le> idleTimeout s'"
    by (simp add: sample_body_eval pool_eval idle_list_def call_onDone_def)
  show ?thesis
    using truncated_body_reused [of one_in_use "''h''" xs 5 _ "NetConn 0" None sample_env
        "[8, 8]" pr' s' "[]"] run xs fresh
    by (auto simp: sample_body_def one_in_use_wf)
qed

text \<open>
  A response of length 0 leaks its connection: every Read answers EOF at once and
  changes nothing, so the connection is neither given back nor closed and its cleanup
  never runs, however often the body is read and whatever the wrapped reader does.
\<close>
theorem empty_body_never_returned:
  "reads (pool_Read E rd) (NewPoolReader r addr conn 0 cleanup) ns s =
     (replicate (length ns) ([], Some EOF), NewPoolReader r addr conn 0 cleanup, s)"
  by (induction ns) (simp_all add: pool_Read_exhausted)

section \<open>What is timed\<close>

text \<open>The Reads after which TimedReader records a duration.\<close>

fun ends_body :: "byte list \<times> go_error option \<Rightarrow> bool" where
  "ends_body (b, err) \<longleftrightarrow> err = Some EOF \<or> b \<noteq> [] \<and> err \<noteq> None"

lemma bufio_Read_mets: "mets (snd (snd (bufio_Read E br n s))) = mets s"
  by (simp add: bufio_Read_def split_beta Let_def frame_simps)

lemma timed_Read_observed:
  "observed (mets (snd (snd (timed_Read E (bufio_Read E) tr n s)))) =
   (if ends_body (fst (timed_Read E (bufio_Read E) tr n s))
    then (observed (mets s))(ResponseBodyReadDuration := observed (mets s) ResponseBodyReadDuration @
      [fst (now E (snd (snd (bufio_Read E (tr_reader tr) n (snd (timed_start E tr s)))))) -
       tr_start (fst (timed_start E tr s))])
    else observed (mets s))"
proof -
  obtain b err r s2 where rd: "bufio_Read E (tr_reader tr) n (snd (timed_start E tr s)) = ((b, err), r, s2)"
    by (metis prod.exhaust)
  have "mets s2 = mets s"
    using bufio_Read_mets [of E "tr_reader tr" n "snd (timed_start E tr s)"] rd by simp
  then show ?thesis
    by (auto simp: timed_Read_eq rd Let_def frame_simps)
qed

lemma pool_Read_observed:
  assumes "pool_Read E (timed_Read E (bufio_Read E)) pr n s = ((b, None), pr', s')"
    and "cleanup_ok pr"
  shows "observed (mets s') = observed (mets s) \<and> cleanup_ok pr'"
proof -
  have nz: "pr_remain pr \<noteq> 0" using assms(1) by (auto simp: pool_Read_exhausted)
  obtain b' err r s1 where
    rd: "timed_Read E (bufio_Read E) (pr_reader pr) (limited pr n) s = ((b', err), r, s1)"
    by (metis prod.exhaust)
  note eq = pool_Read_eq [where rd = "timed_Read E (bufio_Read E)" and pr = pr and E = E, OF nz rd]
  have "err = None" using eq assms(1) by simp
  then have "observed (mets s1) = observed (mets s)"
    using timed_Read_observed [of E "pr_reader pr" "limited pr n" s] rd by simp
  with eq assms show ?thesis
    using call_onDone_pools(4) [where pr = "after_read pr b' r"]
    by (auto simp: give_back_observed split: if_splits)
qed

lemma reads_observed:
  assumes "reads (body_stack_Read E) pr ns s = (xs, pr', s')" and "\<not> read_failed xs" and "cleanup_ok pr"
  shows "observed (mets s') = observed (mets s)"
  using assms
proof (induction ns arbitrary: pr s xs)
  case Nil
  then show ?case by simp
next
  case (Cons n ns)
  obtain b err pr1 s1 where one: "body_stack_Read E pr n s = ((b, err), pr1, s1)"
    by (metis prod.exhaust)
  obtain ys where rest: "reads (body_stack_Read E) pr1 ns s1 = (ys, pr', s')"
    and xs: "xs = (b, err) # ys"
    using Cons.prems(1) one by (auto simp: split_beta Let_def) (metis prod.collapse)
  from Cons.prems(2) xs have err: "err = None" and ys: "\<not> read_failed ys" by simp_all
  from pool_Read_observed [OF one [unfolded err] Cons.prems(3)] Cons.IH [OF rest ys]
  show ?case by simp
qed

text \<open>
  TimedReader delivers exactly the bytes of the reader it wraps and records one
  duration for each Read that ends the body: EOF, or data together with an error. Other
  failures record nothing, and it changes no other metric.
\<close>
theorem timed_reader_records_ends:
  fixes s :: "('e, 'm) sys_scheme"
  assumes "reads (timed_Read E (bufio_Read E)) tr ns s = (xs, tr', s')"
  shows "length (observed (mets s') ResponseBodyReadDuration) =
      length (observed (mets s) ResponseBodyReadDuration) + length (filter ends_body xs) \<and>
    tr_size tr' = tr_size tr + int (length (read_bytes xs)) \<and>
    counters (mets s') = counters (mets s) \<and> gauges (mets s') = gauges (mets s)"
  using assms
proof (induction ns arbitrary: tr s xs)
  case Nil
  then show ?case by simp
next
  case (Cons n ns)
  obtain x tr1 s1 where one: "timed_Read E (bufio_Read E) tr n s = (x, tr1, s1)"
    by (metis prod.exhaust)
  obtain ys where rest: "reads (timed_Read E (bufio_Read E)) tr1 ns s1 = (ys, tr', s')"
    and xs: "xs = x # ys"
    using Cons.prems one by (auto simp: split_beta Let_def) (metis prod.collapse)
  have "length (observed (mets s1) ResponseBodyReadDuration) =
      length (observed (mets s) ResponseBodyReadDuration) + (if ends_body x then 1 else 0)"
    using timed_Read_observed [of E tr n s] one by auto
  moreover have "tr_size tr1 = tr_size tr + int (length (fst x))"
    "counters (mets s1) = counters (mets s)" "gauges (mets s1) = gauges (mets s)"
    using one bufio_Read_mets [of E "tr_reader tr" n "snd (timed_start E tr s)"]
    by (auto simp: timed_Read_eq Let_def frame_simps)
  ultimately show ?case using Cons.IH [OF rest] by (simp add: xs)
qed

theorem timed_reader_records_ends_witness:
  "\<exists>xs tr' s'. reads (timed_Read sample_env (bufio_Read sample_env))
       (NewTimedReader (NewReaderSize (NetConn 0) 64) (NetConn 0)) [8, 8] one_in_use = (xs, tr', s') \<and>
     tr_size tr' = 3 \<and> length (observed (mets s') ResponseBodyReadDuration) =
       Suc (length (observed (mets one_in_use) ResponseBodyReadDuration))"
proof -
  obtain xs tr' s' where run: "reads (timed_Read sample_env (bufio_Read sample_env))
       (NewTimedReader (NewReaderSize (NetConn 0) 64) (NetConn 0)) [8, 8] one_in_use = (xs, tr', s')"
    by (metis prod.exhaust)
  have "fst (reads (timed_Read sample_env (bufio_Read sample_env))
       (NewTimedReader (NewReaderSize (NetConn 0) 64) (NetConn 0)) [8, 8] one_in_use) =
      [([1, 2, 3], None), ([], Some EOF)]"
    by (simp add: sample_body_eval)
  with run have "xs = [([1, 2, 3], None), ([], Some EOF)]" by simp
  with timed_reader_records_ends [OF run] run show ?thesis
    by (simp add: NewTimedReader_def)
qed

text \<open>
  A body of fixed length that is read completely is never timed: once its N bytes
  have been read without an error, every further Read answers EOF without reaching
  TimedReader, and no duration has been recorded.
\<close>
theorem fixed_body_not_timed:
  fixes s :: "('e, 'm) pool_sys_scheme"
  assumes "pool_wf s" and "1 \<le> in_use addr s" and "0 < N"
    and "cleanup_ok (NewPoolReader tr addr conn N cleanup)"
    and "reads (body_stack_Read E) (NewPoolReader tr addr conn N cleanup) ns s = (xs, pr', s')"
    and "int (length (read_bytes xs)) = N" and "\<not> read_failed xs"
  shows "observed (mets s') = observed (mets s) \<and>
    reads (body_stack_Read E) pr' ns' s' = (replicate (length ns') ([], Some EOF), pr', s')"
proof -
  have "pr_remain pr' = 0"
    using timed_body.pool_reads(1) [OF assms(5,4,1)] assms(2,3,6) by simp
  then have "reads (body_stack_Read E) pr' ns' s' = (replicate (length ns') ([], Some EOF), pr', s')"
    by (induction ns') (simp_all add: pool_Read_exhausted)
  with reads_observed [OF assms(5,7,4)] show ?thesis by simp
qed

theorem fixed_body_not_timed_witness:
  "\<exists>xs pr' s'. reads (body_stack_Read sample_env) (sample_body 3) [2, 2] one_in_use = (xs, pr', s') \<and>
     read_bytes xs = [1, 2, 3] \<and> observed (mets s') = observed (mets one_in_use) \<and>
     reads (body_stack_Read sample_env) pr' [2] s' = ([([], Some EOF)], pr', s')"
proof -
  obtain xs pr' s' where run:
    "reads (body_stack_Read sample_env) (sample_body 3) [2, 2] one_in_use = (xs, pr', s')"
    by (metis prod.exhaust)
  have "fst (reads (body_stack_Read sample_env) (sample_body 3) [2, 2] one_in_use) =
      [([1, 2], None), ([3], None)]"
    by (simp add: sample_body_eval)
  with run have xs: "xs = [([1, 2], None), ([3], None)]" by simp
  show ?thesis
    using fixed_body_not_timed [of one_in_use "''h''" 3 _ "NetConn 0" None sample_env "[2, 2]" xs
        pr' s' "[2]"] run xs
    by (auto simp: sample_body_def one_in_use_wf)
qed

end
