(* ===== verification/Upstream.thy ===== *)
theory Upstream
  imports Config
begin

text \<open>
  internal/upstream/upstream.go: the set of upstreams a request is sent to. \<open>url_Parse\<close>
  stands for \<open>net/url.Parse\<close>, \<open>rand_Intn\<close> of the environment for \<open>rand.Intn\<close>. A
  \<open>*Upstream\<close> is an \<open>upstream option\<close>, \<open>None\<close> being nil; the structs are never
  changed once made, so they are kept by value.
\<close>

definition SchemeHTTP :: string where "SchemeHTTP = ''http''"

definition SchemeHTTPS :: string where "SchemeHTTPS = ''https''"

record upstream =
  up_Address :: string
  up_Scheme :: string
  up_Host :: string
  up_Port :: string
  up_TLSConfig :: "tls_config option"

record upstreams =
  ups_m :: "string \<Rightarrow> upstream option"
  ups_keys :: "upstream option list"

section \<open>ParseAddress\<close>

datatype address_error = InvalidAddress string go_error

definition ParseAddress :: "url_parser \<Rightarrow> string \<Rightarrow> address_error + upstream" where
  "ParseAddress url_Parse addr0 =
     (let addr = (if \<not> HasPrefix addr0 PrefixHTTP \<and> \<not> HasPrefix addr0 PrefixHTTPS
                  then PrefixHTTP @ addr0 else addr0)
      in case url_Parse addr of
           Inl err \<Rightarrow> Inl (InvalidAddress addr err)
         | Inr u \<Rightarrow>
             (let scheme = url_Scheme u; host = url_Hostname u;
                  port = (if url_Port u = [] then
                            (if scheme = SchemeHTTPS then ''443'' else ''80'')
                          else url_Port u)
              in Inr \<lparr>up_Address = addr, up_Scheme = scheme, up_Host = host, up_Port = port,
                      up_TLSConfig = None\<rparr>))"

text \<open>What is stored for an address: the parsed upstream, or the address as it is.\<close>

definition stored_upstream :: "url_parser \<Rightarrow> string \<Rightarrow> upstream" where
  "stored_upstream url_Parse addr =
     (case ParseAddress url_Parse addr of
        Inl _ \<Rightarrow> \<lparr>up_Address = addr, up_Scheme = SchemeHTTP, up_Host = [], up_Port = [],
                 up_TLSConfig = None\<rparr>
      | Inr parsed \<Rightarrow> parsed)"

section \<open>NewUpstreams, Random, Append\<close>

text \<open>The loop of \<open>NewUpstreams\<close> fills the preallocated slice from index \<open>i\<close> on.\<close>

fun fill_upstreams :: "url_parser \<Rightarrow> nat \<Rightarrow> string list \<Rightarrow> upstreams \<Rightarrow> upstreams" where
  "fill_upstreams url_Parse i [] u = u"
| "fill_upstreams url_Parse i (addr # rest) u =
     (let up = stored_upstream url_Parse addr in
      fill_upstreams url_Parse (Suc i) rest
        (u\<lparr>ups_m := (ups_m u)(addr \<mapsto> up), ups_keys := (ups_keys u)[i := Some up]\<rparr>))"

definition NewUpstreams :: "url_parser \<Rightarrow> string list \<Rightarrow> upstreams" where
  "NewUpstreams url_Parse address =
     fill_upstreams url_Parse 0 address
       \<lparr>ups_m = (\<lambda>_. None), ups_keys = replicate (length address) None\<rparr>"

definition Random ::
  "('e, 'x) env_scheme \<Rightarrow> upstreams \<Rightarrow> ('e, 'm) sys_scheme
     \<Rightarrow> (upstream option \<times> bool) \<times> ('e, 'm) sys_scheme" where
  "Random E u s =
     (if length (ups_keys u) = 0 then ((None, False), s)
      else (let (i, e) = rand_Intn E (length (ups_keys u)) (ext s)
            in ((ups_keys u ! i, True), s\<lparr>ext := e\<rparr>)))"

text \<open>\<open>rand.Intn(n)\<close> is in \<open>[0, n)\<close>.\<close>

definition rand_in_range :: "('e, 'x) env_scheme \<Rightarrow> bool" where
  "rand_in_range E \<longleftrightarrow> (\<forall>n e. 0 < n \<longrightarrow> fst (rand_Intn E n e) < n)"

definition Append :: "url_parser \<Rightarrow> string \<Rightarrow> upstreams \<Rightarrow> upstreams" where
  "Append url_Parse address u =
     (if ups_m u address \<noteq> None then u
      else
        (let up = stored_upstream url_Parse address in
         u\<lparr>ups_m := (ups_m u)(address \<mapsto> up), ups_keys := ups_keys u @ [Some up]\<rparr>))"

section \<open>NewTLSConfig\<close>

text \<open>
  \<open>os.ReadFile\<close> and \<open>CertPool.AppendCertsFromPEM\<close> are arguments; a pool is known by the
  PEM bytes it was made from.
\<close>

datatype tls_error = ReadCAFile string go_error | ParseCAFile string

definition NewTLSConfig ::
  "(string \<Rightarrow> go_error + byte list) \<Rightarrow> (byte list \<Rightarrow> bool) \<Rightarrow> Values \<Rightarrow> tls_error + tls_config" where
  "NewTLSConfig os_ReadFile AppendCertsFromPEM values =
     (let cfg = tls_config_zero\<lparr>tls_InsecureSkipVerify := v_TLSInsecureSkipVerify values\<rparr>;
          cfg1 = (if v_TLSServerName values \<noteq> [] then cfg\<lparr>tls_ServerName := v_TLSServerName values\<rparr>
                  else cfg)
      in if v_TLSCAFile values \<noteq> [] then
           (case os_ReadFile (v_TLSCAFile values) of
              Inl err \<Rightarrow> Inl (ReadCAFile (v_TLSCAFile values) err)
            | Inr caCert \<Rightarrow>
                if \<not> AppendCertsFromPEM caCert then Inl (ParseCAFile (v_TLSCAFile values))
                else Inr (cfg1\<lparr>tls_RootCAs := Some caCert\<rparr>))
         else Inr cfg1)"

section \<open>The set of upstreams\<close>

lemma ParseAddress_eq:
  "ParseAddress url_Parse a =
     (case url_Parse (with_scheme a) of
        Inl err \<Rightarrow> Inl (InvalidAddress (with_scheme a) err)
      | Inr u \<Rightarrow> Inr \<lparr>up_Address = with_scheme a, up_Scheme = url_Scheme u, up_Host = url_Hostname u,
           up_Port = (if url_Port u = [] then if url_Scheme u = SchemeHTTPS then ''443'' else ''80''
                      else url_Port u),
           up_TLSConfig = None\<rparr>)"
  by (auto simp: ParseAddress_def with_scheme_def Let_def split: sum.split)

lemma stored_upstream_address:
  "up_Address (stored_upstream url_Parse a) =
     (if parses url_Parse (with_scheme a) then with_scheme a else a)"
  by (simp add: stored_upstream_def ParseAddress_eq parses_def split: sum.split)

text \<open>The map and the slice hold the same upstreams, and no nil pointer.\<close>

definition upstreams_wf :: "upstreams \<Rightarrow> bool" where
  "upstreams_wf u \<longleftrightarrow> None \<notin> set (ups_keys u) \<and> Some ` ran (ups_m u) = set (ups_keys u)"

text \<open>After \<open>i\<close> steps the slice is filled up to \<open>i\<close>.\<close>

lemma fill_upstreams_keys:
  "length (ups_keys u) = i + length as \<Longrightarrow>
   ups_keys (fill_upstreams url_Parse i as u) =
     take i (ups_keys u) @ map (\<lambda>a. Some (stored_upstream url_Parse a)) as"
proof (induction as arbitrary: i u)
  case Nil
  then show ?case by simp
next
  case (Cons a as)
  then have "i < length (ups_keys u)" by simp
  with Cons show ?case by (simp add: Let_def take_Suc_conv_app_nth)
qed

lemma fill_upstreams_m:
  "ups_m (fill_upstreams url_Parse i as u) a =
     (if a \<in> set as then Some (stored_upstream url_Parse a) else ups_m u a)"
  by (induction as arbitrary: i u) (auto simp: Let_def)

lemma NewUpstreams_keys:
  "ups_keys (NewUpstreams url_Parse as) = map (\<lambda>a. Some (stored_upstream url_Parse a)) as"
  by (simp add: NewUpstreams_def fill_upstreams_keys)

lemma NewUpstreams_m:
  "ups_m (NewUpstreams url_Parse as) a =
     (if a \<in> set as then Some (stored_upstream url_Parse a) else None)"
  by (simp add: NewUpstreams_def fill_upstreams_m)

lemma NewUpstreams_wf: "upstreams_wf (NewUpstreams url_Parse as)"
  by (auto simp: upstreams_wf_def NewUpstreams_keys NewUpstreams_m ran_def image_iff)

lemma Append_wf:
  assumes "upstreams_wf u"
  shows "upstreams_wf (Append url_Parse a u)"
proof (cases "ups_m u a")
  case None
  have "ran ((ups_m u)(a \<mapsto> v)) = insert v (ran (ups_m u))" for v
    by (rule ran_map_upd [of "ups_m u" a, OF None])
  with None assms show ?thesis by (auto simp: upstreams_wf_def Append_def Let_def)
next
  case (Some x)
  with assms show ?thesis by (simp add: Append_def)
qed

lemma Random_frame [frame_simps]:
  "trace (snd (Random E u s)) = trace s" "mets (snd (Random E u s)) = mets s"
  "sys.more (snd (Random E u s)) = sys.more s"
  by (simp_all add: Random_def split_beta Let_def)

lemma Random_empty: "ups_keys u = [] \<Longrightarrow> Random E u s = ((None, False), s)"
  by (simp add: Random_def)

lemma Random_member:
  assumes "rand_in_range E" and "upstreams_wf u" and "ups_keys u \<noteq> []"
  obtains up where "fst (Random E u s) = (Some up, True)" and "up \<in> ran (ups_m u)"
    and "Some up \<in> set (ups_keys u)"
proof -
  define i where "i = fst (rand_Intn E (length (ups_keys u)) (ext s))"
  have "i < length (ups_keys u)" using assms(1,3) by (simp add: i_def rand_in_range_def)
  then have k: "ups_keys u ! i \<in> set (ups_keys u)" by simp
  then obtain up where up: "ups_keys u ! i = Some up" using assms(2) by (auto simp: upstreams_wf_def)
  with k assms(2) have "up \<in> ran (ups_m u)"
    unfolding upstreams_wf_def by (metis image_iff option.inject)
  with up k show ?thesis
    using that assms(3) by (auto simp: Random_def split_beta i_def [symmetric])
qed

text \<open>An address parser for the examples: the host is all that follows the scheme.\<close>

definition sample_url_Parse :: url_parser where
  "sample_url_Parse a =
     (if CHR '' '' \<in> set a then Inl (OtherError ''invalid character'')
      else if HasPrefix a PrefixHTTPS
        then Inr \<lparr>url_Scheme = ''https'', url_Hostname = drop 8 a, url_Port = []\<rparr>
      else Inr \<lparr>url_Scheme = ''http'', url_Hostname = drop 7 a, url_Port = []\<rparr>)"

lemmas sample_url_simps =
  sample_url_Parse_def HasPrefix_def PrefixHTTP_def PrefixHTTPS_def

section \<open>Properties\<close>

lemma stored_upstream_eq:
  "stored_upstream url_Parse a =
     (case url_Parse (with_scheme a) of
        Inl _ \<Rightarrow> \<lparr>up_Address = a, up_Scheme = ''http'', up_Host = [], up_Port = [], up_TLSConfig = None\<rparr>
      | Inr url \<Rightarrow>
          \<lparr>up_Address = with_scheme a, up_Scheme = url_Scheme url, up_Host = url_Hostname url,
           up_Port = (if url_Port url \<noteq> [] then url_Port url
                      else if url_Scheme url = ''https'' then ''443'' else ''80''),
           up_TLSConfig = None\<rparr>)"
  by (simp add: stored_upstream_def ParseAddress_eq SchemeHTTP_def SchemeHTTPS_def Let_def split: sum.split)

text \<open>
  C30. NewUpstreams keeps every address it is given, in order and with its repetitions: the
  slice has one non-nil entry per address. For an address that url.Parse accepts, completed with
  http:// if it has no scheme, the entry has the completed address, the URL's scheme and host, and its port, which is
  443 for https and 80 otherwise if the URL has none; any other address is kept as it is,
  with scheme http and neither host nor port. The map knows exactly these
  addresses, each with an upstream that the slice has, and no others.
\<close>
theorem new_upstreams_complete:
  "list_all2 (\<lambda>a key. \<exists>up. key = Some up \<and> ups_m (NewUpstreams url_Parse as) a = Some up \<and>
       (case url_Parse (if HasPrefix a ''http://'' \<or> HasPrefix a ''https://'' then a else ''http://'' @ a) of
          Inl _ \<Rightarrow> up_Address up = a \<and> up_Scheme up = ''http'' \<and> up_Host up = [] \<and> up_Port up = []
        | Inr url \<Rightarrow>
            up_Address up = (if HasPrefix a ''http://'' \<or> HasPrefix a ''https://'' then a else ''http://'' @ a) \<and>
            up_Scheme up = url_Scheme url \<and> up_Host up = url_Hostname url \<and>
            up_Port up = (if url_Port url \<noteq> [] then url_Port url
                          else if url_Scheme url = ''https'' then ''443'' else ''80'')) \<and>
       up_TLSConfig up = None)
     as (ups_keys (NewUpstreams url_Parse as)) \<and>
   dom (ups_m (NewUpstreams url_Parse as)) = set as \<and>
   Some ` ran (ups_m (NewUpstreams url_Parse as)) = set (ups_keys (NewUpstreams url_Parse as))"
proof -
  have scheme: "(if HasPrefix a ''http://'' \<or> HasPrefix a ''https://'' then a else ''http://'' @ a) = with_scheme a"
    for a by (simp add: with_scheme_def PrefixHTTP_def PrefixHTTPS_def)
  have "Some ` ran (ups_m (NewUpstreams url_Parse as)) = set (ups_keys (NewUpstreams url_Parse as))"
    using NewUpstreams_wf [of url_Parse as] by (simp add: upstreams_wf_def)
  moreover have "dom (ups_m (NewUpstreams url_Parse as)) = set as"
    by (auto simp: NewUpstreams_m dom_def)
  ultimately show ?thesis
    unfolding scheme
    by (simp add: list_all2_conv_all_nth NewUpstreams_keys NewUpstreams_m stored_upstream_eq split: sum.split)
qed

text \<open>
  Random never hands out a nil pointer: on a non-empty set it answers with one of the
  stored upstreams and true, on an empty one with nil and false; it touches nothing
  but the random generator.
\<close>
theorem random_picks_stored:
  assumes "rand_in_range E" and "upstreams_wf u"
  shows "(if ups_keys u = [] then fst (Random E u s) = (None, False)
     else \<exists>up a. fst (Random E u s) = (Some up, True) \<and> ups_m u a = Some up) \<and>
    trace (snd (Random E u s)) = trace s \<and> sys.more (snd (Random E u s)) = sys.more s"
proof (cases "ups_keys u = []")
  case True
  then show ?thesis by (simp add: Random_empty)
next
  case False
  from Random_member [OF assms False, of s] obtain up where
    "fst (Random E u s) = (Some up, True)" "up \<in> ran (ups_m u)" by blast
  with False show ?thesis by (auto simp: ran_def frame_simps)
qed

lemma sample_rand_in_range: "rand_in_range sample_env"
  by (simp add: rand_in_range_def)

theorem random_picks_stored_witness:
  "\<exists>up a. fst (Random sample_env (NewUpstreams sample_url_Parse [''a:1'', ''b:2''])
       \<lparr>ext = (0, []), trace = [], mets = metrics_init\<rparr>) = (Some up, True) \<and>
     ups_m (NewUpstreams sample_url_Parse [''a:1'', ''b:2'']) a = Some up"
  using random_picks_stored [OF sample_rand_in_range NewUpstreams_wf,
      of sample_url_Parse "[''a:1'', ''b:2'']" "\<lparr>ext = (0, []), trace = [], mets = metrics_init\<rparr>"]
  by (simp add: NewUpstreams_keys)

text \<open>
  Append adds an address at most once: a known address changes nothing, a new one is
  stored under its own name and put last in the slice; what was stored stays, the
  map and the slice still agree, and appending again has no effect.
\<close>
theorem append_once:
  assumes "upstreams_wf u"
  shows "upstreams_wf (Append url_Parse a u) \<and>
    dom (ups_m (Append url_Parse a u)) = insert a (dom (ups_m u)) \<and>
    (\<forall>b \<in> dom (ups_m u). ups_m (Append url_Parse a u) b = ups_m u b) \<and>
    ups_keys (Append url_Parse a u) =
      ups_keys u @ (if a \<in> dom (ups_m u) then [] else [Some (stored_upstream url_Parse a)]) \<and>
    Append url_Parse a (Append url_Parse a u) = Append url_Parse a u"
  using Append_wf [OF assms] by (auto simp: Append_def Let_def split: if_splits)

theorem append_once_witness:
  "upstreams_wf (Append sample_url_Parse ''http://b'' (NewUpstreams sample_url_Parse [])) \<and>
   dom (ups_m (Append sample_url_Parse ''http://b'' (NewUpstreams sample_url_Parse []))) = {''http://b''}"
  using append_once [OF NewUpstreams_wf, of sample_url_Parse "''http://b''" sample_url_Parse "[]"]
  by (simp add: NewUpstreams_m dom_def)

text \<open>
  ParseAddress fails exactly when url.Parse rejects the address completed with a
  scheme. Otherwise the upstream carries that completed address, the scheme and host of
  the parsed URL, and a port that is never empty: the URL's own, else 443 for https and 80 for
  anything else. It never carries a TLS configuration.
\<close>
theorem parse_address_result:
  "(case ParseAddress url_Parse a of
      Inl e \<Rightarrow> \<not> parses url_Parse (with_scheme a) \<and> (\<exists>err. e = InvalidAddress (with_scheme a) err)
    | Inr up \<Rightarrow> (\<exists>u. url_Parse (with_scheme a) = Inr u \<and> up_Scheme up = url_Scheme u \<and>
        up_Host up = url_Hostname u \<and>
        (if url_Port u \<noteq> [] then up_Port up = url_Port u
         else up_Port up = (if url_Scheme u = ''https'' then ''443'' else ''80''))) \<and>
        up_Port up \<noteq> [] \<and> up_Address up = with_scheme a \<and> has_scheme (up_Address up) \<and>
        up_TLSConfig up = None)"
proof (cases "url_Parse (with_scheme a)")
  case (Inl err)
  then show ?thesis by (simp add: ParseAddress_eq parses_def)
next
  case (Inr u)
  then show ?thesis by (auto simp: ParseAddress_eq SchemeHTTPS_def)
qed

text \<open>
  A configured CA file is never ignored: NewTLSConfig either fails, naming the file, or
  answers with a configuration whose roots are exactly the certificates read from it;
  without a CA file it cannot fail. Verification is off only when the configuration says
  so, and no client certificate or minimal version is set.
\<close>
theorem new_tls_config_honours_ca:
  "case NewTLSConfig os_ReadFile AppendCertsFromPEM v of
     Inl e \<Rightarrow> v_TLSCAFile v \<noteq> [] \<and>
       (e = ParseCAFile (v_TLSCAFile v) \<and>
          (\<exists>pem. os_ReadFile (v_TLSCAFile v) = Inr pem \<and> \<not> AppendCertsFromPEM pem) \<or>
        (\<exists>err. e = ReadCAFile (v_TLSCAFile v) err \<and> os_ReadFile (v_TLSCAFile v) = Inl err))
   | Inr cfg \<Rightarrow> tls_InsecureSkipVerify cfg = v_TLSInsecureSkipVerify v \<and>
       tls_ServerName cfg = v_TLSServerName v \<and> tls_Certificates cfg = [] \<and> tls_MinVersion cfg = 0 \<and>
       (if v_TLSCAFile v = [] then tls_RootCAs cfg = None
        else \<exists>pem. os_ReadFile (v_TLSCAFile v) = Inr pem \<and> AppendCertsFromPEM pem \<and>
          tls_RootCAs cfg = Some pem)"
  by (auto simp: NewTLSConfig_def tls_config_zero_def Let_def split: sum.split if_splits)

end
