(* ===== verification/Handler.thy ===== *)
theory Handler
  imports Readers Upstream
begin

text \<open>
  internal/proxy/handler.go: one request, from the choice of its upstream to the response
  whose body the server then reads. fasthttp's request, response and context are known by
  what the handler uses of them: the request's Host, its header as the bytes that
  \<open>RequestHeader.Write\<close> hands to the writer, its body; the calls made on the response, in
  order. \<open>ResponseHeader.Read\<close> is a function of the environment, which need not answer: the
  handler sets no deadline, and an upstream that sends nothing keeps it waiting. Logging is left out, and
  so is the pooled copy of the request, of which only the header is used.
\<close>

section \<open>Requests, responses, the handler\<close>

record request =
  req_Host :: string
  req_Header :: "byte list"
  req_BodyStream :: "nat option"
  req_Body :: "byte list"

record response_header =
  rh_StatusCode :: int
  rh_ContentLength :: int
  rh_fields :: "(string \<times> string) list"

definition response_header_zero :: response_header where
  "response_header_zero = \<lparr>rh_StatusCode = 0, rh_ContentLength = 0, rh_fields = []\<rparr>"

text \<open>\<open>None\<close>: the Read of the header never returns.\<close>

record 'e proxy_env = "'e env" +
  header_Read ::
    "bufio_reader \<Rightarrow> 'e \<Rightarrow> ((go_error option \<times> response_header) \<times> bufio_reader \<times> 'e) option"

text \<open>Every upstream sends a response header, closes the connection or fails, sooner or later.\<close>

definition upstream_answers :: "('e, 'x) proxy_env_scheme \<Rightarrow> bool" where
  "upstream_answers E \<longleftrightarrow> (\<forall>br e. header_Read E br e \<noteq> None)"

record 'e proxy_sys = "'e bufio_sys" +
  upstreamsObj :: upstreams

type_synonym 's body_stream = "(bufio_reader timed_reader, 's) pool_reader"

text \<open>
  What a handler does to the response: \<open>ctx.Error\<close> with a message, the error whose text
  is appended to it if there is one, and a status; the other calls as they are.
\<close>

datatype 's resp_call =
    CtxError string "go_error option" int
  | SetStatusCode int
  | CopyHeader response_header
  | SetImmediateHeaderFlush
  | SetBodyStream "'s body_stream" int

definition StatusBadRequest :: int where "StatusBadRequest = 400"
definition StatusBadGateway :: int where "StatusBadGateway = 502"

text \<open>The handler struct; \<open>h_resp\<close> is the log of the response.\<close>

record 's handler =
  h_ctx :: request
  h_resp :: "'s resp_call list"
  h_upstreamAddress :: string
  h_connection :: "net_conn option"
  h_bufIOReader :: "bufio_reader option"
  h_responseHeader :: "response_header option"

definition new_handler :: "request \<Rightarrow> 's handler" where
  "new_handler req =
     \<lparr>h_ctx = req, h_resp = [], h_upstreamAddress = [], h_connection = None,
      h_bufIOReader = None, h_responseHeader = None\<rparr>"

definition respond :: "'s resp_call \<Rightarrow> 's handler \<Rightarrow> 's handler" where
  "respond c h = h\<lparr>h_resp := h_resp h @ [c]\<rparr>"

section \<open>The steps of a request\<close>

text \<open>Random's pointer is never nil here (Upstream: \<open>random_picks_stored\<close>).\<close>

definition resolveUpstream ::
  "url_parser \<Rightarrow> ('e, 'x) env_scheme \<Rightarrow> ('e, 'm) proxy_sys_scheme handler
     \<Rightarrow> ('e, 'm) proxy_sys_scheme
     \<Rightarrow> bool \<times> ('e, 'm) proxy_sys_scheme handler \<times> ('e, 'm) proxy_sys_scheme" where
  "resolveUpstream url_Parse E h s =
     (let ((up, ok), s1) = Random E (upstreamsObj s) s in
      if ok then (True, h\<lparr>h_upstreamAddress := up_Address (the up)\<rparr>, s1)
      else
        (let h1 = h\<lparr>h_upstreamAddress := req_Host (h_ctx h)\<rparr> in
         if h_upstreamAddress h1 = [] then
           (False, respond (CtxError ''no host header'' None StatusBadRequest) h1, s1)
         else
           (let h2 = (if \<not> HasPrefix (h_upstreamAddress h1) PrefixHTTP \<and>
                         \<not> HasPrefix (h_upstreamAddress h1) PrefixHTTPS
                      then h1\<lparr>h_upstreamAddress := PrefixHTTP @ h_upstreamAddress h1\<rparr> else h1);
                h3 = (case url_Parse (h_upstreamAddress h2) of
                        Inl _ \<Rightarrow>
                          respond (CtxError ''invalid upstream address'' None StatusBadRequest) h2
                      | Inr _ \<Rightarrow> h2)
            in (True, h3,
                s1\<lparr>upstreamsObj := Append url_Parse (h_upstreamAddress h3) (upstreamsObj s1)\<rparr>))))"

definition acquireUpstreamConn ::
  "('e, 'x) env_scheme \<Rightarrow> ('e, 'm) proxy_sys_scheme handler \<Rightarrow> ('e, 'm) proxy_sys_scheme
     \<Rightarrow> bool \<times> ('e, 'm) proxy_sys_scheme handler \<times> ('e, 'm) proxy_sys_scheme" where
  "acquireUpstreamConn E h s =
     (let (r, s1) = AcquireUpstreamConnection E (h_upstreamAddress h) s in
      case r of
        Inl err \<Rightarrow>
          (False,
           respond (CtxError ''cannot connect to upstream'' None StatusBadGateway)
             (h\<lparr>h_connection := None\<rparr>),
           count_metric DialErrors s1)
      | Inr conn \<Rightarrow> (True, h\<lparr>h_connection := Some conn\<rparr>, s1))"

text \<open>
  \<open>RequestHeader.Write\<close> writes the header to the buffered writer; the deferred
  ReleaseBufIOWriter runs last on every path.
\<close>

definition writeRequestHeaders ::
  "('e, 'x) env_scheme \<Rightarrow> ('e, 'm) proxy_sys_scheme handler \<Rightarrow> ('e, 'm) proxy_sys_scheme
     \<Rightarrow> (bool \<times> ('e, 'm) proxy_sys_scheme handler \<times> ('e, 'm) proxy_sys_scheme) option" where
  "writeRequestHeaders E h s =
     (let (bw, s1) = AcquireBufIOWriter E (the (h_connection h)) s in
      case bufio_Write E bw (req_Header (h_ctx h)) s1 of
        None \<Rightarrow> None
      | Some (Some err, bw1, s2) \<Rightarrow>
          Some (False,
            respond (CtxError ''upstream request header error: '' (Some err) StatusBadGateway) h,
            ReleaseBufIOWriter bw1 (count_metric WriteErrors s2))
      | Some (None, bw1, s2) \<Rightarrow>
          (case bufio_Flush E bw1 s2 of
             (Some err, bw2, s3) \<Rightarrow>
               Some (False,
                 respond (CtxError ''upstream request flush error: '' (Some err) StatusBadGateway) h,
                 ReleaseBufIOWriter bw2 (count_metric BufIOWriterFlushErrors s3))
           | (None, bw2, s3) \<Rightarrow> Some (True, h, ReleaseBufIOWriter bw2 s3)))"

text \<open>The body proper of writeRequestBody, without its deferred observation.\<close>

definition send_body ::
  "('e, 'x) env_scheme \<Rightarrow> ('e, 'm) proxy_sys_scheme handler \<Rightarrow> ('e, 'm) proxy_sys_scheme
     \<Rightarrow> (bool \<times> ('e, 'm) proxy_sys_scheme handler \<times> ('e, 'm) proxy_sys_scheme) option" where
  "send_body E h s =
     (case req_BodyStream (h_ctx h) of
        Some src \<Rightarrow>
          (case PipeCopy E src (the (h_connection h)) s of
             None \<Rightarrow> None
           | Some (Some err, s1) \<Rightarrow>
               Some (False,
                 respond (CtxError ''upstream request body stream error: '' (Some err)
                   StatusBadGateway) h, s1)
           | Some (None, s1) \<Rightarrow> Some (True, h, s1))
      | None \<Rightarrow>
          (let body = req_Body (h_ctx h) in
           if length body = 0 then Some (True, h, s)
           else
             (let ((n, err), s1) = net_Write E (the (h_connection h)) body s in
              if err \<noteq> None then
                Some (False,
                  respond (CtxError ''upstream request body write error: '' err StatusBadGateway) h,
                  count_metric WriteErrors s1)
              else if n \<noteq> int (length body) then
                Some (False,
                  respond (CtxError ''upstream request body short write'' None StatusBadGateway) h,
                  count_metric WriteErrors s1)
              else Some (True, h, s1))))"

definition writeRequestBody ::
  "('e, 'x) env_scheme \<Rightarrow> ('e, 'm) proxy_sys_scheme handler \<Rightarrow> ('e, 'm) proxy_sys_scheme
     \<Rightarrow> (bool \<times> ('e, 'm) proxy_sys_scheme handler \<times> ('e, 'm) proxy_sys_scheme) option" where
  "writeRequestBody E h s =
     (let (start, s1) = now E s in
      case send_body E h s1 of
        None \<Rightarrow> None
      | Some (ok, h1, s2) \<Rightarrow>
          (let (t, s3) = now E s2
           in Some (ok, h1, observe RequestBodyWriteDuration (t - start) s3)))"

definition read_header ::
  "('e, 'x) proxy_env_scheme \<Rightarrow> bufio_reader \<Rightarrow> ('e, 'm) sys_scheme
     \<Rightarrow> ((go_error option \<times> response_header) \<times> bufio_reader \<times> ('e, 'm) sys_scheme) option" where
  "read_header E br s =
     (case header_Read E br (ext s) of
        None \<Rightarrow> None
      | Some (r, br1, e) \<Rightarrow> Some (r, br1, s\<lparr>ext := e\<rparr>))"

definition readResponseHeaders ::
  "('e, 'x) proxy_env_scheme \<Rightarrow> ('e, 'm) proxy_sys_scheme handler \<Rightarrow> ('e, 'm) proxy_sys_scheme
     \<Rightarrow> (bool \<times> ('e, 'm) proxy_sys_scheme handler \<times> ('e, 'm) proxy_sys_scheme) option" where
  "readResponseHeaders E h s =
     (let (br, s1) = AcquireBufIOReader E (the (h_connection h)) s in
      case read_header E br s1 of
        None \<Rightarrow> None
      | Some ((err, hdr), br1, s2) \<Rightarrow>
          (let h1 = h\<lparr>h_bufIOReader := Some br1, h_responseHeader := Some hdr\<rparr>
           in case err of
                Some e \<Rightarrow>
                  Some (False, respond (CtxError ''upstream response error: '' (Some e) StatusBadGateway) h1,
                    count_metric ReadErrors s2)
              | None \<Rightarrow> Some (True, h1, s2)))"

definition copyResponseStatus ::
  "('e, 'm) proxy_sys_scheme handler \<Rightarrow> ('e, 'm) proxy_sys_scheme
     \<Rightarrow> ('e, 'm) proxy_sys_scheme handler \<times> ('e, 'm) proxy_sys_scheme" where
  "copyResponseStatus h s =
     (case h_responseHeader h of
        None \<Rightarrow> (h, s)
      | Some hdr \<Rightarrow>
          if 500 \<le> rh_StatusCode hdr then
            (respond (SetStatusCode StatusBadGateway) h, count_metric Upstream5xx s)
          else (respond (CopyHeader hdr) (respond (SetStatusCode (rh_StatusCode hdr)) h), s))"

definition streamResponseBody ::
  "('e, 'm) proxy_sys_scheme handler \<Rightarrow> ('e, 'm) proxy_sys_scheme handler" where
  "streamResponseBody h =
     (let h1 = respond SetImmediateHeaderFlush h;
          contentLen = rh_ContentLength (the (h_responseHeader h1));
          tr = NewTimedReader (the (h_bufIOReader h1)) (the (h_connection h1));
          pr = NewPoolReader tr (h_upstreamAddress h1) (the (h_connection h1)) contentLen
                 (Some (\<lambda>r. ReleaseBufIOReader (tr_reader r)))
      in respond (SetBodyStream pr contentLen) h1)"

text \<open>
  The orchestrator. \<open>None\<close> means that the handler never returns: a write loop does not end, or the
  upstream does not answer.
\<close>

definition handle ::
  "url_parser \<Rightarrow> ('e, 'x) proxy_env_scheme \<Rightarrow> ('e, 'm) proxy_sys_scheme handler
     \<Rightarrow> ('e, 'm) proxy_sys_scheme
     \<Rightarrow> (('e, 'm) proxy_sys_scheme handler \<times> ('e, 'm) proxy_sys_scheme) option" where
  "handle url_Parse E h s =
     (let (ok, h1, s1) = resolveUpstream url_Parse E h s in
      if \<not> ok then Some (h1, s1)
      else let (ok, h2, s2) = acquireUpstreamConn E h1 s1 in
      if \<not> ok then Some (h2, s2)
      else case writeRequestHeaders E h2 s2 of None \<Rightarrow> None | Some (ok, h3, s3) \<Rightarrow>
      if \<not> ok then
        Some (h3, CloseAndDropUpstreamConnection E (h_upstreamAddress h3) (the (h_connection h3)) s3)
      else case writeRequestBody E h3 s3 of None \<Rightarrow> None | Some (ok, h4, s4) \<Rightarrow>
      if \<not> ok then
        Some (h4, CloseAndDropUpstreamConnection E (h_upstreamAddress h4) (the (h_connection h4)) s4)
      else case readResponseHeaders E h4 s4 of None \<Rightarrow> None | Some (ok, h5, s5) \<Rightarrow>
      if \<not> ok then
        Some (h5, CloseAndDropUpstreamConnection E (h_upstreamAddress h5) (the (h_connection h5)) s5)
      else let (h6, s6) = copyResponseStatus h5 s5
      in Some (streamResponseBody h6, s6))"

text \<open>\<open>Handler(upstreams)\<close> sets the upstreams and serves every request with \<open>handle\<close>.\<close>

definition Handler ::
  "url_parser \<Rightarrow> string list \<Rightarrow> ('e, 'm) proxy_sys_scheme \<Rightarrow> ('e, 'm) proxy_sys_scheme" where
  "Handler url_Parse ups s = s\<lparr>upstreamsObj := NewUpstreams url_Parse ups\<rparr>"

definition serve ::
  "url_parser \<Rightarrow> ('e, 'x) proxy_env_scheme \<Rightarrow> request \<Rightarrow> ('e, 'm) proxy_sys_scheme
     \<Rightarrow> (('e, 'm) proxy_sys_scheme handler \<times> ('e, 'm) proxy_sys_scheme) option" where
  "serve url_Parse E req s = handle url_Parse E (new_handler req) s"

section \<open>What a step leaves alone\<close>

definition same_pools :: "('e, 'm) proxy_sys_scheme \<Rightarrow> ('e, 'm) proxy_sys_scheme \<Rightarrow> bool" where
  "same_pools s t \<longleftrightarrow>
     upstreamPool t = upstreamPool s \<and>
     maxUpstreamConnectionsPerHost t = maxUpstreamConnectionsPerHost s \<and>
     idleTimeout t = idleTimeout s \<and> upstreamsObj t = upstreamsObj s"

lemma same_pools_refl [simp]: "same_pools s s"
  by (simp add: same_pools_def)

lemma same_pools_trans: "same_pools s t \<Longrightarrow> same_pools t u \<Longrightarrow> same_pools s u"
  by (simp add: same_pools_def)

lemma same_pools_of_more:
  assumes "sys.more (t :: ('e, 'm) proxy_sys_scheme) = sys.more s"
  shows "same_pools s t"
proof -
  have "bufio_sys.more t = bufio_sys.more s" by (rule bufio_vars_of_more(12) [OF assms])
  then have "upstreamsObj t = upstreamsObj s" by (cases s, cases t) simp
  with pool_vars_of_more [OF assms] show ?thesis by (simp add: same_pools_def)
qed

lemma same_pools_pool_at:
  assumes "same_pools s t"
  shows "pool_at a t = pool_at a s" "pool_wf t = pool_wf s" "in_use a t = in_use a s"
    "slots a t = slots a s" "idle_list a t = idle_list a s"
    "maxUpstreamConnectionsPerHost t = maxUpstreamConnectionsPerHost s"
    "idleTimeout t = idleTimeout s" "upstreamsObj t = upstreamsObj s"
proof -
  have at: "pool_at a t = pool_at a s" for a using assms by (simp add: same_pools_def pool_at_def)
  have "maxUpstreamConnectionsPerHost t = maxUpstreamConnectionsPerHost s"
    using assms by (simp add: same_pools_def)
  note cong = pool_wf_cong [of t s, OF at this]
  show "pool_at a t = pool_at a s" "pool_wf t = pool_wf s" "in_use a t = in_use a s"
    "slots a t = slots a s" "idle_list a t = idle_list a s"
    "maxUpstreamConnectionsPerHost t = maxUpstreamConnectionsPerHost s"
    "idleTimeout t = idleTimeout s" "upstreamsObj t = upstreamsObj s"
    using assms at cong by (simp_all add: same_pools_def)
qed

lemma metrics_same_pools [simp]:
  "same_pools s (count_metric c t) = same_pools s t"
  "same_pools s (observe h d t) = same_pools s t"
  "same_pools s (t\<lparr>ext := e\<rparr>) = same_pools s t"
  "same_pools s (snd (now E t)) = same_pools s t"
  by (simp_all add: same_pools_def count_metric_def observe_def call_simps)

lemma sync_Get_same_pools: "same_pools s (snd (snd (sync_Get E xs s)))"
  by (rule same_pools_of_more) (simp add: frame_simps)

lemma bufio_ops_same_pools:
  "same_pools s (snd (AcquireBufIOWriter E c s))" "same_pools s (ReleaseBufIOWriter bw s)"
  "same_pools s (snd (AcquireBufIOReader E c s))" "same_pools s (ReleaseBufIOReader br s)"
  using sync_Get_same_pools [of s E "bufIOWriterPool s"] sync_Get_same_pools [of s E "bufIOReaderPool s"]
  by (simp_all add: AcquireBufIOWriter_def ReleaseBufIOWriter_def AcquireBufIOReader_def
      ReleaseBufIOReader_def Let_def split_beta gauge_defs same_pools_def split: option.split)

lemma bufio_ops_trace [simp]:
  "trace (snd (AcquireBufIOWriter E c s)) = trace s" "trace (ReleaseBufIOWriter bw s) = trace s"
  "trace (snd (AcquireBufIOReader E c s)) = trace s" "trace (ReleaseBufIOReader br s) = trace s"
  by (simp_all add: AcquireBufIOWriter_def ReleaseBufIOWriter_def AcquireBufIOReader_def
      ReleaseBufIOReader_def Let_def split_beta gauge_defs frame_simps split: option.split)

lemma PipeCopy_same_pools:
  assumes "PipeCopy E src dst s = Some (r, s')"
  shows "same_pools s s'"
proof -
  obtain v p s1 where get: "sync_Get E (pipeCopyBufPool s) s = (v, p, s1)" by (metis prod.exhaust)
  from assms obtain n s3 where loop: "pipe_loop E src dst n (metricsUpPipeCopy (s1\<lparr>pipeCopyBufPool := p\<rparr>)) =
      Some (r, s3)"
    and s': "s' = metricsDownPipeCopy (s3\<lparr>pipeCopyBufPool := pipeCopyBufPool s3 @ [n]\<rparr>)"
    unfolding PipeCopy_def Let_def get by auto
  have "same_pools s s1" using sync_Get_same_pools [of s E "pipeCopyBufPool s"] get by simp
  then have "same_pools s (metricsUpPipeCopy (s1\<lparr>pipeCopyBufPool := p\<rparr>))"
    by (simp add: same_pools_def gauge_defs)
  from same_pools_trans [OF this same_pools_of_more [OF pipe_loop_copied(2) [OF loop]]]
  show ?thesis by (simp add: s' same_pools_def gauge_defs)
qed

section \<open>Events that carry data\<close>

text \<open>Between acquiring a connection and giving it up, a request only reads and writes.\<close>

fun is_data :: "io_event \<Rightarrow> bool" where
  "is_data (EvDial _ _) = False"
| "is_data (EvClose _) = False"
| "is_data _ = True"

definition extends_data :: "('e, 'm) sys_scheme \<Rightarrow> ('e, 'm) sys_scheme \<Rightarrow> bool" where
  "extends_data s t \<longleftrightarrow> (\<exists>evs. trace t = trace s @ evs \<and> list_all is_data evs)"

lemma extends_data_refl [simp]: "trace t = trace s \<Longrightarrow> extends_data s t"
  by (auto simp: extends_data_def intro: exI [of _ "[]"])

lemma extends_data_trans: "extends_data s t \<Longrightarrow> extends_data t u \<Longrightarrow> extends_data s u"
  unfolding extends_data_def by (metis append.assoc list_all_append)

lemma extends_data_cong: "trace t' = trace t \<Longrightarrow> extends_data s t' = extends_data s t"
  by (simp add: extends_data_def)

lemma copied_data: "copied dst evs r \<Longrightarrow> list_all is_data evs"
  by (induction rule: copied.induct) simp_all

lemma net_Write_data: "extends_data s (snd (net_Write E c b s))"
  by (auto simp: extends_data_def frame_simps)

lemma bufio_Flush_frame:
  assumes "bufio_Flush E bw s = (r, bw', s')"
  shows "sys.more s' = sys.more s" "mets s' = mets s" "extends_data s s'"
proof -
  obtain k err s1 where wr: "net_Write E (bw_dst bw) (bw_buf bw) s = ((k, err), s1)"
    by (metis prod.exhaust)
  have "sys.more s1 = sys.more s" "mets s1 = mets s" "extends_data s s1"
    using net_Write_frame(2,3) [of E "bw_dst bw" "bw_buf bw" s]
      net_Write_data [of s E "bw_dst bw" "bw_buf bw"] by (simp_all add: wr)
  with assms show "sys.more s' = sys.more s" "mets s' = mets s" "extends_data s s'"
    by (auto simp: bufio_Flush_def wr Let_def split: option.splits if_splits)
qed

lemma bufio_Write_frame:
  fixes s :: "('e, 'm) sys_scheme" and E :: "('e, 'x) env_scheme"
  assumes "bufio_Write E bw p s = Some (r, bw', s')"
  shows "sys.more s' = sys.more s" "mets s' = mets s" "extends_data s s'"
proof -
  define ok where "ok = (\<lambda>(s :: ('e, 'm) sys_scheme) (t :: ('e, 'm) sys_scheme).
    sys.more t = sys.more s \<and> mets t = mets s \<and> extends_data s t)"
  have "ok s (snd (snd res))" if "bufio_Write E bw p s = Some res" for res
  proof (rule bufio_Write.raw_induct [where P = "\<lambda>E bw p s res. ok s (snd (snd res))", OF _ that])
    fix loop :: "('e, 'x) env_scheme \<Rightarrow> bufio_writer \<Rightarrow> byte list \<Rightarrow> ('e, 'm) sys_scheme
      \<Rightarrow> (go_error option \<times> bufio_writer \<times> ('e, 'm) sys_scheme) option"
    fix E :: "('e, 'x) env_scheme" and bw p and s :: "('e, 'm) sys_scheme" and res
    assume IH: "\<And>E bw p s res. loop E bw p s = Some res \<Longrightarrow> ok s (snd (snd res))"
      and step: "(if bw_size bw - length (bw_buf bw) < length p \<and> bw_err bw = None then
        (if bw_buf bw = [] then
           (case net_Write E (bw_dst bw) p s of
              ((n, err), s1) \<Rightarrow> loop E (bw\<lparr>bw_err := err\<rparr>) (drop (nat n) p) s1)
         else
           (case bufio_Flush E
                   (bw\<lparr>bw_buf := bw_buf bw @ take (bw_size bw - length (bw_buf bw)) p\<rparr>) s of
              (_, bw1, s1) \<Rightarrow> loop E bw1 (drop (bw_size bw - length (bw_buf bw)) p) s1))
      else
        (case bw_err bw of
           Some err \<Rightarrow> Some (Some err, bw, s)
         | None \<Rightarrow> Some (None, bw\<lparr>bw_buf := bw_buf bw @ p\<rparr>, s))) = Some res"
    have trans: "ok s u" if "ok s t" "ok t u" for t u
      using that extends_data_trans by (auto simp: ok_def)
    obtain n err s1 where wr: "net_Write E (bw_dst bw) p s = ((n, err), s1)"
      by (metis prod.exhaust)
    have s1: "ok s s1"
      using net_Write_frame(2,3) [of E "bw_dst bw" p s] net_Write_data [of s E "bw_dst bw" p]
      by (simp add: ok_def wr)
    obtain fr bw1 s2 where fl: "bufio_Flush E
        (bw\<lparr>bw_buf := bw_buf bw @ take (bw_size bw - length (bw_buf bw)) p\<rparr>) s = (fr, bw1, s2)"
      by (metis prod.exhaust)
    have s2: "ok s s2" using bufio_Flush_frame [OF fl] by (simp add: ok_def)
    show "ok s (snd (snd res))"
    proof (cases "bw_size bw - length (bw_buf bw) < length p \<and> bw_err bw = None")
      case True
      show ?thesis
      proof (cases "bw_buf bw = []")
        case empty: True
        with True step wr have "loop E (bw\<lparr>bw_err := err\<rparr>) (drop (nat n) p) s1 = Some res" by simp
        from trans [OF s1 IH [OF this]] show ?thesis .
      next
        case False
        with True step fl
        have "loop E bw1 (drop (bw_size bw - length (bw_buf bw)) p) s2 = Some res" by simp
        from trans [OF s2 IH [OF this]] show ?thesis .
      qed
    next
      case False
      with step have "snd (snd res) = s" by (auto split: if_splits option.splits)
      then show ?thesis by (simp add: ok_def)
    qed
  qed
  from this [OF assms] show "sys.more s' = sys.more s" "mets s' = mets s" "extends_data s s'"
    by (simp_all add: ok_def)
qed

section \<open>The contract of a step on the acquired connection\<close>

text \<open>
  The three steps between acquiring the connection and the response share a contract, on
  which the orchestrator relies: they keep the handler's connection and leave the pools
  alone, they only read and write, and they fail by answering 502.
\<close>

definition answers_502 :: "'s handler \<Rightarrow> 's handler \<Rightarrow> bool" where
  "answers_502 h h' \<longleftrightarrow> (\<exists>m e. h_resp h' = h_resp h @ [CtxError m e StatusBadGateway])"

definition same_request :: "'s handler \<Rightarrow> 's handler \<Rightarrow> bool" where
  "same_request h h' \<longleftrightarrow>
     h_ctx h' = h_ctx h \<and> h_upstreamAddress h' = h_upstreamAddress h \<and> h_connection h' = h_connection h"

lemma respond_sel [simp]:
  "h_ctx (respond c h) = h_ctx h" "h_upstreamAddress (respond c h) = h_upstreamAddress h"
  "h_connection (respond c h) = h_connection h" "h_resp (respond c h) = h_resp h @ [c]"
  "h_bufIOReader (respond c h) = h_bufIOReader h" "h_responseHeader (respond c h) = h_responseHeader h"
  by (simp_all add: respond_def)

lemma same_request_simps [simp]:
  "same_request h h" "same_request h (respond c h') = same_request h h'"
  "same_request h (h'\<lparr>h_bufIOReader := b, h_responseHeader := r\<rparr>) = same_request h h'"
  by (simp_all add: same_request_def)

lemma answers_502_respond [simp]: "answers_502 h (respond (CtxError m e StatusBadGateway) h)"
  by (simp add: answers_502_def)

lemma answers_502_update [simp]:
  "answers_502 h (respond (CtxError m e StatusBadGateway) (h\<lparr>h_bufIOReader := b, h_responseHeader := r\<rparr>))"
  by (simp add: answers_502_def)

locale request_step =
  fixes step :: "('e, 'm) proxy_sys_scheme handler \<Rightarrow> ('e, 'm) proxy_sys_scheme
     \<Rightarrow> (bool \<times> ('e, 'm) proxy_sys_scheme handler \<times> ('e, 'm) proxy_sys_scheme) option"
  assumes keeps: "step h s = Some (ok, h', s') \<Longrightarrow> same_request h h' \<and> same_pools s s'"
    and only_data: "step h s = Some (ok, h', s') \<Longrightarrow> extends_data s s'"
    and responds: "step h s = Some (ok, h', s') \<Longrightarrow>
      (if ok then h_resp h' = h_resp h else answers_502 h h')"
begin

text \<open>A step that succeeds leaves the request as it was, for the next one.\<close>

lemma passes:
  assumes "step h s = Some (True, h', s')"
  shows "same_request h h'" "h_resp h' = h_resp h" "same_pools s s'" "extends_data s s'"
  using keeps [OF assms] only_data [OF assms] responds [OF assms] by simp_all

text \<open>A step that fails, followed by CloseAndDrop, frees the slot and closes the connection last.\<close>

lemma fails_and_closes:
  assumes "step h s = Some (False, h', s')" and "pool_wf s" and "1 \<le> in_use (h_upstreamAddress h) s"
    and "h_connection h = Some c"
    and t_def: "t = CloseAndDropUpstreamConnection E (h_upstreamAddress h') (the (h_connection h')) s'"
  shows "pool_wf t"
    and "in_use a t = in_use a s - (if a = h_upstreamAddress h then 1 else 0)"
    and "idle_list a t = idle_list a s"
    and "\<exists>evs. trace t = trace s @ evs @ [EvClose c] \<and> list_all is_data evs"
    and "answers_502 h h'" and "same_request h h'"
proof -
  have h': "h_upstreamAddress h' = h_upstreamAddress h" "the (h_connection h') = c"
    using keeps [OF assms(1)] assms(4) by (simp_all add: same_request_def)
  note same = same_pools_pool_at [OF conjunct2 [OF keeps [OF assms(1)]]]
  have "pool_wf s'" "1 \<le> in_use (h_upstreamAddress h) s'" using same assms(2,3) by simp_all
  note drop = drop_accounting [OF this, where E = E]
  show "pool_wf t" "in_use a t = in_use a s - (if a = h_upstreamAddress h then 1 else 0)"
    "idle_list a t = idle_list a s"
    using drop same by (simp_all add: t_def h')
  show "\<exists>evs. trace t = trace s @ evs @ [EvClose c] \<and> list_all is_data evs"
    using only_data [OF assms(1)] by (auto simp: t_def h' extends_data_def)
  show "answers_502 h h'" "same_request h h'"
    using responds [OF assms(1)] keeps [OF assms(1)] by simp_all
qed

end

lemma CloseAndDrop_upstreams:
  "upstreamsObj (CloseAndDropUpstreamConnection E a c s) = upstreamsObj s"
proof -
  have "same_pools (AddCount a (-1) (upd_pool a id s))
      (CloseAndDropUpstreamConnection E a c s)"
    by (rule same_pools_of_more)
      (simp add: CloseAndDropUpstreamConnection_def LoadOrStore_def frame_simps)
  then show ?thesis by (simp add: same_pools_def AddCount_def upd_pool_def)
qed

subsection \<open>The three steps keep it\<close>

lemma release_frames [simp]:
  "same_pools s (ReleaseBufIOWriter w t) = same_pools s t"
  "same_pools s (ReleaseBufIOReader r t) = same_pools s t"
  by (simp_all add: ReleaseBufIOWriter_def ReleaseBufIOReader_def gauge_defs same_pools_def)

lemma extends_frames [simp]:
  "extends_data s (ReleaseBufIOWriter w t) = extends_data s t"
  "extends_data s (count_metric c t) = extends_data s t"
  "extends_data s (observe hi d t) = extends_data s t"
  "extends_data s (snd (now E t)) = extends_data s t"
  "extends_data s (t\<lparr>ext := e\<rparr>) = extends_data s t"
  by (simp_all add: extends_data_def frame_simps)

lemma writeRequestHeaders_step:
  assumes "writeRequestHeaders E h s = Some (ok, h', s')"
  shows "same_request h h' \<and> same_pools s s'" "extends_data s s'"
    "if ok then h_resp h' = h_resp h else answers_502 h h'"
proof -
  obtain bw s1 where get: "AcquireBufIOWriter E (the (h_connection h)) s = (bw, s1)" by fastforce
  have s1: "same_pools s s1" "trace s1 = trace s"
    using bufio_ops_same_pools(1) [of s E "the (h_connection h)"]
      bufio_ops_trace(1) [of E "the (h_connection h)" s] get by simp_all
  from assms obtain r bw1 s2 where wr: "bufio_Write E bw (req_Header (h_ctx h)) s1 = Some (r, bw1, s2)"
    by (auto simp: writeRequestHeaders_def get split: option.splits)
  have s2: "same_pools s s2" "extends_data s s2"
    using same_pools_trans [OF s1(1) same_pools_of_more [OF bufio_Write_frame(1) [OF wr]]]
      bufio_Write_frame(3) [OF wr] s1(2) by (simp_all add: extends_data_def)
  obtain fr bw2 s3 where fl: "bufio_Flush E bw1 s2 = (fr, bw2, s3)" by (metis prod.exhaust)
  have s3: "same_pools s s3" "extends_data s s3"
    using same_pools_trans [OF s2(1) same_pools_of_more [OF bufio_Flush_frame(1) [OF fl]]]
      extends_data_trans [OF s2(2) bufio_Flush_frame(3) [OF fl]] by simp_all
  from assms wr fl
  have "(\<exists>m e. \<not> ok \<and> h' = respond (CtxError m (Some e) StatusBadGateway) h \<and>
          (s' = ReleaseBufIOWriter bw1 (count_metric WriteErrors s2) \<or>
           s' = ReleaseBufIOWriter bw2 (count_metric BufIOWriterFlushErrors s3))) \<or>
        ok \<and> h' = h \<and> s' = ReleaseBufIOWriter bw2 s3"
    by (auto simp: writeRequestHeaders_def get split: option.splits)
  then show "same_request h h' \<and> same_pools s s'" "extends_data s s'"
    "if ok then h_resp h' = h_resp h else answers_502 h h'"
    using s2 s3 by auto
qed

interpretation header_step: request_step "writeRequestHeaders E" for E :: "('e, 'x) env_scheme"
  by unfold_locales (rule writeRequestHeaders_step; assumption)+

lemma send_body_step:
  assumes "send_body E h s = Some (ok, h', s')"
  shows "same_request h h' \<and> same_pools s s'" "extends_data s s'"
    "if ok then h_resp h' = h_resp h else answers_502 h h'"
proof -
  have "same_request h h' \<and> same_pools s s' \<and> extends_data s s' \<and>
      (if ok then h_resp h' = h_resp h else answers_502 h h')"
  proof (cases "req_BodyStream (h_ctx h)")
    case (Some src)
    with assms obtain r where cp: "PipeCopy E src (the (h_connection h)) s = Some (r, s')"
      by (auto simp: send_body_def split: option.splits)
    obtain evs where "trace s' = trace s @ evs" "copied (the (h_connection h)) evs r"
      using pipe_copy_wire [OF cp] by blast
    then have "extends_data s s'" using copied_data by (auto simp: extends_data_def)
    with PipeCopy_same_pools [OF cp] assms Some cp show ?thesis
      by (auto simp: send_body_def split: option.splits)
  next
    case None
    obtain n err s1 where wr: "net_Write E (the (h_connection h)) (req_Body (h_ctx h)) s = ((n, err), s1)"
      by (metis prod.exhaust)
    have "extends_data s s1" "same_pools s s1"
      using net_Write_data [of s E "the (h_connection h)" "req_Body (h_ctx h)"] wr
        net_Write_frame(3) [of E "the (h_connection h)" "req_Body (h_ctx h)" s]
      by (auto intro: same_pools_of_more)
    with assms None show ?thesis
      by (auto simp: send_body_def wr Let_def split: if_splits)
  qed
  then show "same_request h h' \<and> same_pools s s'" "extends_data s s'"
    "if ok then h_resp h' = h_resp h else answers_502 h h'" by simp_all
qed

lemma writeRequestBody_step:
  assumes "writeRequestBody E h s = Some (ok, h', s')"
  shows "same_request h h' \<and> same_pools s s'" "extends_data s s'"
    "if ok then h_resp h' = h_resp h else answers_502 h h'"
proof -
  from assms obtain d s2 where body: "send_body E h (snd (now E s)) = Some (ok, h', s2)"
    and s': "s' = observe RequestBodyWriteDuration d (snd (now E s2))"
    by (auto simp: writeRequestBody_def split_beta split: option.splits)
  note step = send_body_step [OF body]
  have "same_pools s (snd (now E s))" "extends_data s (snd (now E s))" by simp_all
  with step(1,2) have "same_pools s s2" "extends_data s s2"
    using same_pools_trans extends_data_trans by blast+
  with step s' show "same_request h h' \<and> same_pools s s'" "extends_data s s'"
    "if ok then h_resp h' = h_resp h else answers_502 h h'" by simp_all
qed

interpretation body_step: request_step "writeRequestBody E" for E :: "('e, 'x) env_scheme"
  by unfold_locales (rule writeRequestBody_step; assumption)+

text \<open>The reading of the header, when it returns.\<close>

lemma readResponseHeaders_cases:
  fixes s :: "('e, 'm) proxy_sys_scheme" and E :: "('e, 'x) proxy_env_scheme"
  assumes "readResponseHeaders E h s = Some (ok, h', s')"
  obtains br0 s1 err hdr br e where
    "AcquireBufIOReader E (the (h_connection h)) s = (br0, s1)"
    and "header_Read E br0 (ext s1) = Some ((err, hdr), br, e)" and "ok = (err = None)"
    and "h_bufIOReader h' = Some br" and "h_responseHeader h' = Some hdr" and "same_request h h'"
    and "if ok then h_resp h' = h_resp h else answers_502 h h'"
    and "s' = (if ok then s1\<lparr>ext := e\<rparr> else count_metric ReadErrors (s1\<lparr>ext := e\<rparr>))"
proof -
  obtain br0 s1 where get: "AcquireBufIOReader E (the (h_connection h)) s = (br0, s1)" by fastforce
  with assms obtain err hdr br e where rd: "header_Read E br0 (ext s1) = Some ((err, hdr), br, e)"
    by (auto simp: readResponseHeaders_def read_header_def split: option.splits)
  show thesis
    by (rule that [OF get rd])
      (use assms get rd in \<open>auto simp: readResponseHeaders_def read_header_def Let_def same_request_def
         answers_502_def split: option.splits\<close>)
qed

lemma readResponseHeaders_step:
  assumes "readResponseHeaders E h s = Some (ok, h', s')"
  shows "same_request h h' \<and> same_pools s s'" "trace s' = trace s"
    "if ok then h_resp h' = h_resp h else answers_502 h h'"
proof -
  from assms obtain br0 s1 e where get: "AcquireBufIOReader E (the (h_connection h)) s = (br0, s1)"
    and h: "same_request h h'" "if ok then h_resp h' = h_resp h else answers_502 h h'"
    and s': "s' = (if ok then s1\<lparr>ext := e\<rparr> else count_metric ReadErrors (s1\<lparr>ext := e\<rparr>))"
    by (rule readResponseHeaders_cases)
  have "same_pools s s1" "trace s1 = trace s"
    using bufio_ops_same_pools(3) [of s E "the (h_connection h)"]
      bufio_ops_trace(3) [of E "the (h_connection h)" s] get by simp_all
  with h s' show "same_request h h' \<and> same_pools s s'" "trace s' = trace s"
    "if ok then h_resp h' = h_resp h else answers_502 h h'"
    by (auto simp: frame_simps)
qed

interpretation read_step: request_step "readResponseHeaders E" for E :: "('e, 'x) proxy_env_scheme"
  by unfold_locales (drule readResponseHeaders_step, simp split del: if_split)+

text \<open>What a successful reading of the response header leaves in the handler.\<close>

lemma readResponseHeaders_ok:
  assumes "readResponseHeaders E h s = Some (True, h', s')"
  shows "\<exists>br hdr. h_bufIOReader h' = Some br \<and> h_responseHeader h' = Some hdr \<and>
    (\<exists>br0 e. header_Read E br0 e = Some ((None, hdr), br, ext s'))"
  using assms by (rule readResponseHeaders_cases) auto

lemma copyResponseStatus_frame:
  assumes "copyResponseStatus h s = (h', s')"
  shows "same_request h h'" "same_pools s s'" "trace s' = trace s"
    "h_bufIOReader h' = h_bufIOReader h" "h_responseHeader h' = h_responseHeader h"
  using assms by (auto simp: copyResponseStatus_def frame_simps split: option.splits if_splits)

section \<open>The orchestrator, path by path\<close>

lemma new_handler_sel [simp]:
  "h_ctx (new_handler req) = req" "h_resp (new_handler req) = []"
  by (simp_all add: new_handler_def)

lemma Random_vars:
  fixes s :: "('e, 'm) proxy_sys_scheme"
  shows "same_pools s (snd (Random E u s))"
  by (rule same_pools_of_more) (simp add: frame_simps)

lemma Random_ok: "snd (fst (Random E u s)) \<longleftrightarrow> ups_keys u \<noteq> []"
  by (simp add: Random_def split_beta)

text \<open>A configured upstream: the address Random picks, and nothing else changes.\<close>

lemma resolve_configured:
  assumes "ups_keys (upstreamsObj s) \<noteq> []"
  shows "resolveUpstream url_Parse E h s =
    (True, h\<lparr>h_upstreamAddress := up_Address (the (fst (fst (Random E (upstreamsObj s) s))))\<rparr>,
     snd (Random E (upstreamsObj s) s))"
  using assms Random_ok [of E "upstreamsObj s" s]
  by (simp add: resolveUpstream_def split_beta Let_def)

text \<open>No upstream configured: the Host of the request, if it has one.\<close>

lemma resolve_no_host:
  assumes "ups_keys (upstreamsObj s) = []" and "req_Host (h_ctx h) = []"
  shows "resolveUpstream url_Parse E h s =
    (False, respond (CtxError ''no host header'' None StatusBadRequest) (h\<lparr>h_upstreamAddress := []\<rparr>), s)"
  using assms by (simp add: resolveUpstream_def Random_empty)

lemma resolve_host:
  assumes "ups_keys (upstreamsObj s) = []" and "req_Host (h_ctx h) \<noteq> []"
  defines "addr \<equiv> with_scheme (req_Host (h_ctx h))"
  shows "resolveUpstream url_Parse E h s =
    (True,
     (if parses url_Parse addr then h\<lparr>h_upstreamAddress := addr\<rparr>
      else respond (CtxError ''invalid upstream address'' None StatusBadRequest)
        (h\<lparr>h_upstreamAddress := addr\<rparr>)),
     s\<lparr>upstreamsObj := Append url_Parse addr (upstreamsObj s)\<rparr>)"
proof (cases "has_scheme (req_Host (h_ctx h))")
  case True
  then have "addr = req_Host (h_ctx h)" "HasPrefix addr PrefixHTTP \<or> HasPrefix addr PrefixHTTPS"
    by (simp_all add: addr_def has_scheme_def)
  with assms(1,2) show ?thesis
    by (cases "url_Parse addr")
      (auto simp: resolveUpstream_def Random_empty parses_def Let_def)
next
  case False
  then have "addr = PrefixHTTP @ req_Host (h_ctx h)"
    and "\<not> HasPrefix (req_Host (h_ctx h)) PrefixHTTP \<and> \<not> HasPrefix (req_Host (h_ctx h)) PrefixHTTPS"
    by (simp_all add: addr_def has_scheme_def with_scheme_def)
  with assms(1,2) show ?thesis
    by (cases "url_Parse addr")
      (simp_all add: resolveUpstream_def Random_empty parses_def Let_def respond_def)
qed

text \<open>Either way the connection pools, the trace and the metrics stay as they were.\<close>

lemma resolve_frame:
  fixes s :: "('e, 'm) proxy_sys_scheme"
  assumes "resolveUpstream url_Parse E h s = (ok, h1, s1)"
  shows "upstreamPool s1 = upstreamPool s" "pool_at a s1 = pool_at a s"
    "maxUpstreamConnectionsPerHost s1 = maxUpstreamConnectionsPerHost s"
    "idleTimeout s1 = idleTimeout s" "trace s1 = trace s" "mets s1 = mets s" "h_ctx h1 = h_ctx h"
    "ok \<Longrightarrow> h_resp h1 = h_resp h \<or>
       h_resp h1 = h_resp h @ [CtxError ''invalid upstream address'' None StatusBadRequest]"
    "\<not> ok \<Longrightarrow> ups_keys (upstreamsObj s) = [] \<and> req_Host (h_ctx h) = [] \<and> s1 = s \<and>
       h_resp h1 = h_resp h @ [CtxError ''no host header'' None StatusBadRequest]"
proof -
  have "upstreamPool s1 = upstreamPool s \<and>
    maxUpstreamConnectionsPerHost s1 = maxUpstreamConnectionsPerHost s \<and>
    idleTimeout s1 = idleTimeout s \<and> trace s1 = trace s \<and> mets s1 = mets s \<and> h_ctx h1 = h_ctx h \<and>
    (ok \<longrightarrow> h_resp h1 = h_resp h \<or>
       h_resp h1 = h_resp h @ [CtxError ''invalid upstream address'' None StatusBadRequest]) \<and>
    (\<not> ok \<longrightarrow> ups_keys (upstreamsObj s) = [] \<and> req_Host (h_ctx h) = [] \<and> s1 = s \<and>
       h_resp h1 = h_resp h @ [CtxError ''no host header'' None StatusBadRequest])"
  proof (cases "ups_keys (upstreamsObj s) = []")
    case False
    with assms Random_vars [of s E "upstreamsObj s"] show ?thesis
      by (auto simp: resolve_configured same_pools_def frame_simps)
  next
    case True
    show ?thesis
    proof (cases "req_Host (h_ctx h) = []")
      case True
      with \<open>ups_keys (upstreamsObj s) = []\<close> assms show ?thesis by (auto simp: resolve_no_host)
    next
      case False
      with \<open>ups_keys (upstreamsObj s) = []\<close> assms show ?thesis
        by (auto simp: resolve_host split: if_splits)
    qed
  qed
  then show "upstreamPool s1 = upstreamPool s" "pool_at a s1 = pool_at a s"
    "maxUpstreamConnectionsPerHost s1 = maxUpstreamConnectionsPerHost s"
    "idleTimeout s1 = idleTimeout s" "trace s1 = trace s" "mets s1 = mets s" "h_ctx h1 = h_ctx h"
    "ok \<Longrightarrow> h_resp h1 = h_resp h \<or>
       h_resp h1 = h_resp h @ [CtxError ''invalid upstream address'' None StatusBadRequest]"
    "\<not> ok \<Longrightarrow> ups_keys (upstreamsObj s) = [] \<and> req_Host (h_ctx h) = [] \<and> s1 = s \<and>
       h_resp h1 = h_resp h @ [CtxError ''no host header'' None StatusBadRequest]"
    by (simp_all add: pool_at_def)
qed

lemma same_request_trans: "same_request h h' \<Longrightarrow> same_request h' h'' \<Longrightarrow> same_request h h''"
  by (simp add: same_request_def)

lemma same_requestD:
  "same_request h h' \<Longrightarrow> h_ctx h' = h_ctx h"
  "same_request h h' \<Longrightarrow> h_upstreamAddress h' = h_upstreamAddress h"
  "same_request h h' \<Longrightarrow> h_connection h' = h_connection h"
  by (simp_all add: same_request_def)

text \<open>The value of \<open>handle\<close> on each path.\<close>

lemma handle_stops_early:
  "resolveUpstream url_Parse E h s = (False, h1, s1) \<Longrightarrow> handle url_Parse E h s = Some (h1, s1)"
  "resolveUpstream url_Parse E h s = (True, h1, s1) \<Longrightarrow>
   AcquireUpstreamConnection E (h_upstreamAddress h1) s1 = (Inl err, s2) \<Longrightarrow>
   handle url_Parse E h s =
     Some (respond (CtxError ''cannot connect to upstream'' None StatusBadGateway)
             (h1\<lparr>h_connection := None\<rparr>), count_metric DialErrors s2)"
  by (simp_all add: handle_def acquireUpstreamConn_def)

lemma handle_connected:
  assumes "resolveUpstream url_Parse E h s = (True, h1, s1)"
    and "AcquireUpstreamConnection E (h_upstreamAddress h1) s1 = (Inr c, s2)"
  shows "handle url_Parse E h s =
    (case writeRequestHeaders E (h1\<lparr>h_connection := Some c\<rparr>) s2 of
       None \<Rightarrow> None
     | Some (ok, h3, s3) \<Rightarrow>
         if \<not> ok then
           Some (h3, CloseAndDropUpstreamConnection E (h_upstreamAddress h3) (the (h_connection h3)) s3)
         else case writeRequestBody E h3 s3 of None \<Rightarrow> None | Some (ok, h4, s4) \<Rightarrow>
         if \<not> ok then
           Some (h4, CloseAndDropUpstreamConnection E (h_upstreamAddress h4) (the (h_connection h4)) s4)
         else case readResponseHeaders E h4 s4 of None \<Rightarrow> None | Some (ok, h5, s5) \<Rightarrow>
         if \<not> ok then
           Some (h5, CloseAndDropUpstreamConnection E (h_upstreamAddress h5) (the (h_connection h5)) s5)
         else Some (streamResponseBody (fst (copyResponseStatus h5 s5)), snd (copyResponseStatus h5 s5)))"
  by (simp add: handle_def acquireUpstreamConn_def assms split_beta Let_def split: option.split)

text \<open>The step that fails on the acquired connection, after those before it have passed.\<close>

definition step_failed ::
  "('e, 'x) proxy_env_scheme \<Rightarrow> ('e, 'm) proxy_sys_scheme handler \<Rightarrow> ('e, 'm) proxy_sys_scheme
     \<Rightarrow> ('e, 'm) proxy_sys_scheme handler \<Rightarrow> ('e, 'm) proxy_sys_scheme \<Rightarrow> bool" where
  "step_failed E h s h' s' \<longleftrightarrow>
     writeRequestHeaders E h s = Some (False, h', s') \<or>
     (\<exists>h1 s1. writeRequestHeaders E h s = Some (True, h1, s1) \<and>
        (writeRequestBody E h1 s1 = Some (False, h', s') \<or>
         (\<exists>h2 s2. writeRequestBody E h1 s1 = Some (True, h2, s2) \<and>
            readResponseHeaders E h2 s2 = Some (False, h', s'))))"

text \<open>
  Every way a request can go: no upstream, no connection, a failure on the acquired
  connection (the last two steps of which are a failing step and CloseAndDrop), or a
  response whose body is set up as a stream.
\<close>

lemma serve_cases:
  fixes s :: "('e, 'm) proxy_sys_scheme" and E :: "('e, 'x) proxy_env_scheme"
  assumes "serve url_Parse E req s = Some (h', s')"
  obtains
    (no_upstream) "resolveUpstream url_Parse E (new_handler req) s = (False, h', s')"
  | (no_connection) h1 s1 err s2 where
      "resolveUpstream url_Parse E (new_handler req) s = (True, h1, s1)"
      and "AcquireUpstreamConnection E (h_upstreamAddress h1) s1 = (Inl err, s2)"
      and "h' = respond (CtxError ''cannot connect to upstream'' None StatusBadGateway)
             (h1\<lparr>h_connection := None\<rparr>)"
      and "s' = count_metric DialErrors s2"
  | (failed) h1 s1 c s2 s3 where
      "resolveUpstream url_Parse E (new_handler req) s = (True, h1, s1)"
      and "AcquireUpstreamConnection E (h_upstreamAddress h1) s1 = (Inr c, s2)"
      and "same_request (h1\<lparr>h_connection := Some c\<rparr>) h'" and "same_pools s2 s3"
      and "extends_data s2 s3" and "answers_502 h1 h'"
      and "s' = CloseAndDropUpstreamConnection E (h_upstreamAddress h1) c s3"
      and "step_failed E (h1\<lparr>h_connection := Some c\<rparr>) s2 h' s3"
  | (streams) h1 s1 c s2 h3 s3 h4 s4 h5 s5 br hdr where
      "resolveUpstream url_Parse E (new_handler req) s = (True, h1, s1)"
      and "AcquireUpstreamConnection E (h_upstreamAddress h1) s1 = (Inr c, s2)"
      and "same_request (h1\<lparr>h_connection := Some c\<rparr>) h5" and "same_pools s2 s5"
      and "extends_data s2 s5" and "h_resp h5 = h_resp h1"
      and "h_bufIOReader h5 = Some br" and "h_responseHeader h5 = Some hdr"
      and "(h', s') = (streamResponseBody (fst (copyResponseStatus h5 s5)), snd (copyResponseStatus h5 s5))"
      and "writeRequestHeaders E (h1\<lparr>h_connection := Some c\<rparr>) s2 = Some (True, h3, s3)"
      and "writeRequestBody E h3 s3 = Some (True, h4, s4)"
      and "readResponseHeaders E h4 s4 = Some (True, h5, s5)"
proof -
  obtain ok h1 s1 where res: "resolveUpstream url_Parse E (new_handler req) s = (ok, h1, s1)"
    by (metis prod.exhaust)
  note run = assms [unfolded serve_def]
  show thesis
  proof (cases ok)
    case False
    with run res handle_stops_early(1) [of url_Parse E "new_handler req" s h1 s1]
    show thesis by (intro no_upstream) simp
  next
    case True
    have res': "resolveUpstream url_Parse E (new_handler req) s = (True, h1, s1)"
      using res True by simp
    obtain r s2 where acq: "AcquireUpstreamConnection E (h_upstreamAddress h1) s1 = (r, s2)" by fastforce
    show thesis
    proof (cases r)
      case (Inl err)
      with run acq handle_stops_early(2) [OF res', of err s2] show thesis
        by (intro no_connection [OF res', of err s2]) simp_all
    next
      case (Inr c)
      let ?h2 = "h1\<lparr>h_connection := Some c\<rparr>"
      have h2: "h_upstreamAddress ?h2 = h_upstreamAddress h1" "h_connection ?h2 = Some c"
        "h_resp ?h2 = h_resp h1" by simp_all
      have acq': "AcquireUpstreamConnection E (h_upstreamAddress h1) s1 = (Inr c, s2)"
        using acq Inr by simp
      note run2 = run [unfolded handle_connected [OF res' acq']]
      have fails: thesis if "same_request ?h2 hf" "same_pools s2 sf" "extends_data s2 sf"
        "answers_502 ?h2 hf" "h' = hf" "step_failed E ?h2 s2 hf sf"
        "s' = CloseAndDropUpstreamConnection E (h_upstreamAddress hf) (the (h_connection hf)) sf" for hf sf
        using that same_requestD [OF that(1)] h2
        by (intro failed [OF res' acq', of sf]) (simp_all add: answers_502_def)
      from run2 obtain ok3 h3 s3 where w: "writeRequestHeaders E ?h2 s2 = Some (ok3, h3, s3)"
        by (auto split: option.splits)
      show thesis
      proof (cases ok3)
        case False
        with run2 w header_step.keeps [OF w] header_step.only_data [OF w] header_step.responds [OF w]
        show thesis by (intro fails [of h3 s3]) (auto simp: step_failed_def)
      next
        case ok3: True
        have w': "writeRequestHeaders E ?h2 s2 = Some (True, h3, s3)" using w ok3 by simp
        note p3 = header_step.passes [OF w']
        from run2 w' obtain ok4 h4 s4 where b: "writeRequestBody E h3 s3 = Some (ok4, h4, s4)"
          by (auto split: option.splits)
        show thesis
        proof (cases ok4)
          case False
          note k4 = body_step.keeps [OF b] body_step.only_data [OF b] body_step.responds [OF b]
          have "same_request ?h2 h4" "same_pools s2 s4" "extends_data s2 s4"
            using same_request_trans [OF p3(1) conjunct1 [OF k4(1)]]
              same_pools_trans [OF p3(3) conjunct2 [OF k4(1)]] extends_data_trans [OF p3(4) k4(2)]
            by simp_all
          with run2 w' b False k4(3) p3(2) show thesis
            by (intro fails [of h4 s4]) (auto simp: answers_502_def step_failed_def)
        next
          case ok4: True
          have b': "writeRequestBody E h3 s3 = Some (True, h4, s4)" using b ok4 by simp
          note p4 = body_step.passes [OF b']
          from run2 w' b' obtain ok5 h5 s5 where r5: "readResponseHeaders E h4 s4 = Some (ok5, h5, s5)"
            by (auto split: option.splits)
          note c5 = read_step.keeps [OF r5] read_step.only_data [OF r5] read_step.responds [OF r5]
          have chain: "same_request ?h2 h5" "same_pools s2 s5" "extends_data s2 s5"
            using same_request_trans [OF p3(1) same_request_trans [OF p4(1) conjunct1 [OF c5(1)]]]
              same_pools_trans [OF p3(3) same_pools_trans [OF p4(3) conjunct2 [OF c5(1)]]]
              extends_data_trans [OF p3(4) extends_data_trans [OF p4(4) c5(2)]] by simp_all
          show thesis
          proof (cases ok5)
            case False
            with run2 w' b' r5 chain c5(3) p3(2) p4(2) show thesis
              by (intro fails [of h5 s5]) (auto simp: answers_502_def step_failed_def)
          next
            case ok5: True
            obtain br hdr where "h_bufIOReader h5 = Some br" "h_responseHeader h5 = Some hdr"
              using readResponseHeaders_ok [of E h4 s4 h5 s5] r5 ok5 by auto
            with run2 w' b' r5 ok5 chain c5(3) p3(2) p4(2) show thesis
              by (intro streams [OF res' acq', of h5 s5 br hdr h3 s3 h4 s4]) auto
          qed
        qed
      qed
    qed
  qed
qed

section \<open>What the client sees\<close>

text \<open>The status of the response after the calls made on it; fasthttp's default is 200.\<close>

fun call_status :: "'s resp_call \<Rightarrow> int \<Rightarrow> int" where
  "call_status (CtxError _ _ code) _ = code"
| "call_status (SetStatusCode code) _ = code"
| "call_status (CopyHeader hdr) _ = rh_StatusCode hdr"
| "call_status _ code = code"

definition status_of :: "'s handler \<Rightarrow> int" where
  "status_of h = fold call_status (h_resp h) 200"

definition body_streams :: "'s handler \<Rightarrow> 's body_stream list" where
  "body_streams h = concat (map (\<lambda>c. case c of SetBodyStream pr _ \<Rightarrow> [pr] | _ \<Rightarrow> []) (h_resp h))"

lemma body_streams_respond [simp]:
  "body_streams (respond c h) = body_streams h @ (case c of SetBodyStream pr _ \<Rightarrow> [pr] | _ \<Rightarrow> [])"
  by (simp add: body_streams_def)

lemma status_of_respond [simp]: "status_of (respond c h) = call_status c (status_of h)"
  by (simp add: status_of_def)

lemma answers_502_client:
  "answers_502 h h' \<Longrightarrow> status_of h' = StatusBadGateway \<and> body_streams h' = body_streams h"
  by (auto simp: answers_502_def status_of_def body_streams_def)

lemma client_of_resp:
  "h_resp h' = h_resp h \<Longrightarrow> status_of h' = status_of h \<and> body_streams h' = body_streams h"
  by (simp add: status_of_def body_streams_def)

text \<open>The body stream of a response: the stack of readers over the pooled bufio.Reader.\<close>

definition response_stream ::
  "string \<Rightarrow> net_conn \<Rightarrow> bufio_reader \<Rightarrow> response_header \<Rightarrow> ('e, 'm) proxy_sys_scheme body_stream" where
  "response_stream addr c br hdr =
     NewPoolReader (NewTimedReader br c) addr c (rh_ContentLength hdr)
       (Some (\<lambda>r. ReleaseBufIOReader (tr_reader r)))"

lemma response_stream_sel [simp]:
  "pr_upstreamAddr (response_stream addr c br hdr) = addr"
  "pr_connection (response_stream addr c br hdr) = c"
  "pr_remain (response_stream addr c br hdr) = rh_ContentLength hdr"
  "\<not> pr_returned (response_stream addr c br hdr)"
  by (simp_all add: response_stream_def)

lemma response_stream_cleanup: "cleanup_ok (response_stream addr c br hdr)"
  by (simp add: cleanup_ok_def response_stream_def ReleaseBufIOReader_def gauge_defs)

text \<open>A response that streams: its status, its one body stream.\<close>

lemma streamed_response:
  assumes "h_bufIOReader h = Some br" and "h_responseHeader h = Some hdr" and "h_connection h = Some c"
    and "(h', s') = (streamResponseBody (fst (copyResponseStatus h s)), snd (copyResponseStatus h s))"
  shows "status_of h' = (if 500 \<le> rh_StatusCode hdr then StatusBadGateway else rh_StatusCode hdr)"
    and "body_streams h' = body_streams h @ [response_stream (h_upstreamAddress h) c br hdr]"
    and "same_pools s s'" and "trace s' = trace s" and "h_upstreamAddress h' = h_upstreamAddress h"
    and "h_connection h' = Some c"
  using assms
  by (auto simp: copyResponseStatus_def streamResponseBody_def response_stream_def Let_def frame_simps
      split: if_splits)

section \<open>A concrete proxy\<close>

text \<open>
  The sample network with an upstream that answers every request with the given response
  header, and the proxy as it starts, with the given upstreams.
\<close>

definition proxy_sample_env :: "response_header \<Rightarrow> sample_state proxy_env" where
  "proxy_sample_env hdr =
     \<lparr>time_Now = time_Now sample_env, rand_Intn = rand_Intn sample_env,
      dial_call = dial_call sample_env, conn_Close = conn_Close sample_env,
      conn_Write = conn_Write sample_env, conn_Read = conn_Read sample_env,
      body_Read = body_Read sample_env, pool_Get = pool_Get sample_env,
      header_Read = (\<lambda>br st. Some ((None, hdr), br, st))\<rparr>"

lemma proxy_sample_env_sel [simp]:
  "time_Now (proxy_sample_env hdr) = time_Now sample_env"
  "rand_Intn (proxy_sample_env hdr) = rand_Intn sample_env"
  "dial_call (proxy_sample_env hdr) = dial_call sample_env"
  "conn_Close (proxy_sample_env hdr) = conn_Close sample_env"
  "conn_Write (proxy_sample_env hdr) = conn_Write sample_env"
  "conn_Read (proxy_sample_env hdr) = conn_Read sample_env"
  "body_Read (proxy_sample_env hdr) = body_Read sample_env"
  "pool_Get (proxy_sample_env hdr) = pool_Get sample_env"
  "header_Read (proxy_sample_env hdr) br st = Some ((None, hdr), br, st)"
  by (simp_all add: proxy_sample_env_def)

definition proxy_init :: "'e \<Rightarrow> upstreams \<Rightarrow> 'e proxy_sys" where
  "proxy_init e ups =
     \<lparr>ext = e, trace = [], mets = metrics_init, customDial = None, tlsConfig = None,
      dialTimeout = 0, upstreamPool = (\<lambda>_. None),
      maxUpstreamConnectionsPerHost = 100, idleTimeout = 45 * Second,
      defaultBufSize = 4096, pipeCopyBufferSize = 64 * 1024,
      bufIOReaderPoolInUse = 0, bufIOReaderPoolIdle = 0, bufIOReaderPool = [],
      bufIOWriterPoolInUse = 0, bufIOWriterPoolIdle = 0, bufIOWriterPool = [],
      pipeCopyBufPoolInUse = 0, pipeCopyBufPoolIdle = 0, pipeCopyBufPool = [],
      upstreamsObj = ups\<rparr>"

lemma proxy_init_wf: "pool_wf (proxy_init e ups)" "in_use a (proxy_init e ups) = 0"
  "idle_list a (proxy_init e ups) = []"
  by (simp_all add: pool_wf_def in_use_def slots_def idle_list_def pool_at_def proxy_init_def
      connPool_zero_def)

definition sample_request :: request where
  "sample_request = \<lparr>req_Host = ''h'', req_Header = [1, 2], req_BodyStream = None, req_Body = [7]\<rparr>"

definition sample_header :: "int \<Rightarrow> int \<Rightarrow> response_header" where
  "sample_header code len = \<lparr>rh_StatusCode = code, rh_ContentLength = len, rh_fields = []\<rparr>"

lemmas serve_eval =
  serve_def handle_def resolveUpstream_def acquireUpstreamConn_def writeRequestHeaders_def
  writeRequestBody_def send_body_def readResponseHeaders_def read_header_def
  copyResponseStatus_def streamResponseBody_def new_handler_def respond_def Random_def Append_def
  stored_upstream_def ParseAddress_def NewUpstreams_def sample_url_simps SchemeHTTP_def SchemeHTTPS_def
  AcquireUpstreamConnection_def CloseAndDropUpstreamConnection_def LoadOrStore_def dialNew_def
  dial_def dial_function_def upd_pool_def AddCount_def pool_at_def close_counted_def
  connPool_zero_def to_int32_def Second_def parseUpstreamAddressForDial_def
  AcquireBufIOWriter_def ReleaseBufIOWriter_def AcquireBufIOReader_def sync_Get_def gauge_defs
  NewWriterSize_def NewReaderSize_def bufio_Write_fits bufio_Flush_def sample_simps Let_def
  proxy_init_def sample_request_def sample_header_def

lemma sample_serve:
  "\<exists>h' s'. serve sample_url_Parse (proxy_sample_env (sample_header code len)) sample_request
       (proxy_init (0, []) (NewUpstreams sample_url_Parse [])) = Some (h', s') \<and>
     h_upstreamAddress h' = ''http://h'' \<and> h_connection h' = Some (NetConn 0) \<and>
     trace s' = [EvDial FasthttpDial ''h'', EvWrite (NetConn 0) [1, 2] None, EvWrite (NetConn 0) [7] None] \<and>
     body_streams h' \<noteq> []"
  by (simp add: serve_eval body_streams_def)

text \<open>No request changes a setting, and only the resolving step touches the upstreams.\<close>

lemma close_counted_pool_more [simp]:
  "pool_sys.more (close_counted E c s) = pool_sys.more s"
  using pool_vars_of_more(8) [OF close_counted_frame(1)] .

lemma dialNew_pool_more: "pool_sys.more (snd (dialNew E a s)) = pool_sys.more s"
  by (simp add: dialNew_def Let_def split_beta dial_snd AddCount_def upd_pool_def split: sum.split)

lemma acquire_pool_more: "pool_sys.more (snd (AcquireUpstreamConnection E a s)) = pool_sys.more s"
  by (simp add: AcquireUpstreamConnection_def LoadOrStore_def Let_def split_beta dialNew_pool_more
      call_simps count_metric_def AddCount_def upd_pool_def)

lemma acquire_upstreams:
  fixes s :: "('e, 'm) proxy_sys_scheme"
  assumes "AcquireUpstreamConnection E a s = (r, t)"
  shows "upstreamsObj t = upstreamsObj s" "maxUpstreamConnectionsPerHost t = maxUpstreamConnectionsPerHost s"
    "idleTimeout t = idleTimeout s"
proof -
  have "pool_sys.more t = pool_sys.more s" using acquire_pool_more [of E a s] assms by simp
  then show "upstreamsObj t = upstreamsObj s" by (cases s, cases t) simp
  show "maxUpstreamConnectionsPerHost t = maxUpstreamConnectionsPerHost s"
    "idleTimeout t = idleTimeout s"
    using acquire_limit [of E a s] assms by simp_all
qed

lemma serve_settings:
  fixes s :: "('e, 'm) proxy_sys_scheme" and E :: "('e, 'x) proxy_env_scheme"
  assumes "serve url_Parse E req s = Some (h', s')"
    and "resolveUpstream url_Parse E (new_handler req) s = (ok, h0, s0)"
  shows "maxUpstreamConnectionsPerHost s' = maxUpstreamConnectionsPerHost s"
    "idleTimeout s' = idleTimeout s" "upstreamsObj s' = upstreamsObj s0"
    "h_upstreamAddress h' = h_upstreamAddress h0"
    "ok \<Longrightarrow> \<exists>rest. h_resp h' = h_resp h0 @ rest"
proof -
  note fr = resolve_frame(3,4) [OF assms(2)]
  from assms(1)
  have "maxUpstreamConnectionsPerHost s' = maxUpstreamConnectionsPerHost s \<and>
    idleTimeout s' = idleTimeout s \<and> upstreamsObj s' = upstreamsObj s0 \<and>
    h_upstreamAddress h' = h_upstreamAddress h0 \<and> (ok \<longrightarrow> (\<exists>rest. h_resp h' = h_resp h0 @ rest))"
  proof (cases rule: serve_cases)
    case no_upstream
    with assms(2) fr show ?thesis by simp
  next
    case (no_connection h1 s1 err s2)
    with assms(2) have eq: "h1 = h0" "s1 = s0" by simp_all
    have "same_pools s2 s'" by (simp add: no_connection(4))
    from same_pools_pool_at(6-8) [OF this] acquire_upstreams [OF no_connection(2)] fr eq no_connection(3)
    show ?thesis by simp
  next
    case (failed h1 s1 c s2 s3)
    with assms(2) have eq: "h1 = h0" "s1 = s0" by simp_all
    from same_pools_pool_at(6-8) [OF failed(4)] acquire_upstreams [OF failed(2)] fr eq failed(6,7)
      same_requestD(2) [OF failed(3)] CloseAndDrop_upstreams [of E "h_upstreamAddress h1" c s3]
    show ?thesis by (auto simp: answers_502_def)
  next
    case (streams h1 s1 c s2 h3 s3 h4 s4 h5 s5 br hdr)
    with assms(2) have eq: "h1 = h0" "s1 = s0" by simp_all
    have "h_connection h5 = Some c" using same_requestD [OF streams(3)] by simp
    note resp = streamed_response [OF streams(7,8) this streams(9)]
    have "\<exists>rest. h_resp h' = h_resp h5 @ rest"
      using streams(8,9)
      by (auto simp: streamResponseBody_def copyResponseStatus_def Let_def)
    with resp(5) same_pools_pool_at(6-8) [OF resp(3)] same_pools_pool_at(6-8) [OF streams(4)]
      acquire_upstreams [OF streams(2)] fr eq streams(6) same_requestD(2) [OF streams(3)]
    show ?thesis by simp
  qed
  then show "maxUpstreamConnectionsPerHost s' = maxUpstreamConnectionsPerHost s"
    "idleTimeout s' = idleTimeout s" "upstreamsObj s' = upstreamsObj s0"
    "h_upstreamAddress h' = h_upstreamAddress h0"
    "ok \<Longrightarrow> \<exists>rest. h_resp h' = h_resp h0 @ rest" by simp_all
qed

lemma serve_accounting:
  fixes s :: "('e, 'm) proxy_sys_scheme" and E :: "('e, 'x) proxy_env_scheme"
  assumes "pool_wf s" and "serve url_Parse E req s = Some (h', s')"
  shows "pool_wf s' \<and>
    (body_streams h' = [] \<and> (\<forall>a. in_use a s' = in_use a s) \<or>
     (\<exists>c br hdr br0 e. h_connection h' = Some c \<and> header_Read E br0 e = Some ((None, hdr), br, ext s') \<and>
        body_streams h' = [response_stream (h_upstreamAddress h') c br hdr] \<and>
        (\<forall>a. in_use a s' = in_use a s + (if a = h_upstreamAddress h' then 1 else 0))))"
  using assms(2)
proof (cases rule: serve_cases)
  case no_upstream
  from resolve_frame(9) [OF this] assms(1) show ?thesis by (simp add: body_streams_def)
next
  case (no_connection h1 s1 err s2)
  note fr = resolve_frame [OF no_connection(1)]
  note same = pool_wf_cong [of s1 s, OF fr(2,3)]
  have "pool_wf s1" using same assms(1) by simp
  from acquire_accounting [where E = E and a = "h_upstreamAddress h1", OF this] no_connection(2) same
  have s2: "pool_wf s2" "\<And>a. in_use a s2 = in_use a s" by simp_all
  have "same_pools s2 s'" by (simp add: no_connection(4))
  note same2 = same_pools_pool_at [OF this]
  have "body_streams h' = []" using no_connection(3) fr(8) by (auto simp: body_streams_def)
  with s2 same2 show ?thesis by simp
next
  case (failed h1 s1 c s2 s3)
  note fr = resolve_frame [OF failed(1)]
  note same = pool_wf_cong [of s1 s, OF fr(2,3)]
  have "pool_wf s1" using same assms(1) by simp
  from acquire_accounting [where E = E and a = "h_upstreamAddress h1", OF this] failed(2) same
  have s2: "pool_wf s2" "\<And>a. in_use a s2 = in_use a s + (if a = h_upstreamAddress h1 then 1 else 0)"
    by simp_all
  note s3 = same_pools_pool_at [OF failed(4)]
  have "0 \<le> in_use (h_upstreamAddress h1) s" using pool_wfD(3) [OF assms(1)] .
  then have "pool_wf s3" "1 \<le> in_use (h_upstreamAddress h1) s3" using s2 s3 by simp_all
  from drop_accounting [where E = E, OF this] s2 s3 failed(7)
  have "pool_wf s'" "\<And>a. in_use a s' = in_use a s" by simp_all
  moreover have "body_streams h' = []"
    using answers_502_client [OF failed(6)] fr(8) by (auto simp: body_streams_def)
  ultimately show ?thesis by simp
next
  case (streams h1 s1 c s2 h3 s3 h4 s4 h5 s5 br hdr)
  note fr = resolve_frame [OF streams(1)]
  note same = pool_wf_cong [of s1 s, OF fr(2,3)]
  have "pool_wf s1" using same assms(1) by simp
  from acquire_accounting [where E = E and a = "h_upstreamAddress h1", OF this] streams(2) same
  have s2: "pool_wf s2" "\<And>a. in_use a s2 = in_use a s + (if a = h_upstreamAddress h1 then 1 else 0)"
    by simp_all
  note s5 = same_pools_pool_at [OF streams(4)]
  have h5: "h_connection h5 = Some c" "h_upstreamAddress h5 = h_upstreamAddress h1"
    using same_requestD [OF streams(3)] by simp_all
  note resp = streamed_response [OF streams(7,8) h5(1) streams(9)]
  obtain br0 e where "header_Read E br0 e = Some ((None, hdr), br, ext s5)"
    using readResponseHeaders_ok [OF streams(12)] streams(7,8) by auto
  moreover have "body_streams h5 = []"
    using client_of_resp [OF streams(6)] fr(8) by (auto simp: body_streams_def)
  moreover have "ext s' = ext s5"
    using streams(9) by (auto simp: copyResponseStatus_def count_metric_def split: option.splits if_splits)
  moreover have "pool_wf s'" "\<And>a. in_use a s' = in_use a s + (if a = h_upstreamAddress h' then 1 else 0)"
    using resp(5) s2 s5 same_pools_pool_at [OF resp(3)] h5 by simp_all
  ultimately have "body_streams h' = [response_stream (h_upstreamAddress h') c br hdr]"
    "header_Read E br0 e = Some ((None, hdr), br, ext s')" "pool_wf s'"
    "\<And>a. in_use a s' = in_use a s + (if a = h_upstreamAddress h' then 1 else 0)"
    using resp(2,5) h5(2) by simp_all
  with resp(6) show ?thesis by blast
qed

text \<open>
  C10. A request accounts for its connection on every path: if the response got a body
  stream, exactly one connection of the resolved upstream has become in use, and the stream
  holds it; on every other path (no upstream, no connection, a failed write, a failed
  read of the header) no upstream has gained or lost a connection in use. The pools stay
  within their limits.
\<close>
theorem request_accounts_connection:
  fixes s :: "('e, 'm) proxy_sys_scheme" and E :: "('e, 'x) proxy_env_scheme"
  assumes "pool_wf s" and "serve url_Parse E req s = Some (h', s')"
  shows "pool_wf s' \<and>
    (body_streams h' = [] \<and> (\<forall>a. in_use a s' = in_use a s) \<or>
     (\<exists>c br hdr. h_connection h' = Some c \<and>
        body_streams h' = [response_stream (h_upstreamAddress h') c br hdr] \<and>
        (\<forall>a. in_use a s' = in_use a s + (if a = h_upstreamAddress h' then 1 else 0))))"
  using serve_accounting [OF assms] by blast

theorem request_accounts_connection_witness:
  "\<exists>h' s' c br hdr. serve sample_url_Parse (proxy_sample_env (sample_header 200 3)) sample_request
       (proxy_init (0, []) (NewUpstreams sample_url_Parse [])) = Some (h', s') \<and> pool_wf s' \<and>
     body_streams h' = [response_stream ''http://h'' c br hdr] \<and> in_use ''http://h'' s' = 1"
proof -
  obtain h' s' where run: "serve sample_url_Parse (proxy_sample_env (sample_header 200 3)) sample_request
       (proxy_init (0, []) (NewUpstreams sample_url_Parse [])) = Some (h', s')"
    and h': "h_upstreamAddress h' = ''http://h''" "body_streams h' \<noteq> []"
    using sample_serve by blast
  from request_accounts_connection [OF proxy_init_wf(1) run] h' run show ?thesis
    by (auto simp: proxy_init_wf)
qed

lemma serve_status:
  fixes s :: "('e, 'm) proxy_sys_scheme" and E :: "('e, 'x) proxy_env_scheme"
  assumes "serve url_Parse E req s = Some (h', s')"
  shows "if body_streams h' = [] then
      status_of h' = (if ups_keys (upstreamsObj s) = [] \<and> req_Host req = [] then 400 else 502)
    else \<exists>hdr. h_responseHeader h' = Some hdr \<and>
      status_of h' = (if 500 \<le> rh_StatusCode hdr then 502 else rh_StatusCode hdr)"
  using assms
proof (cases rule: serve_cases)
  case no_upstream
  from resolve_frame(9) [OF this] show ?thesis
    by (simp add: body_streams_def status_of_def StatusBadRequest_def)
next
  case (no_connection h1 s1 err s2)
  have "\<not> (ups_keys (upstreamsObj s) = [] \<and> req_Host req = [])"
    using no_connection(1) resolve_no_host [of s "new_handler req" url_Parse E] by auto
  moreover have "body_streams h' = []"
    using no_connection(3) resolve_frame(8) [OF no_connection(1)] by (auto simp: body_streams_def)
  ultimately show ?thesis by (simp add: no_connection(3) StatusBadGateway_def)
next
  case (failed h1 s1 c s2 s3)
  have "\<not> (ups_keys (upstreamsObj s) = [] \<and> req_Host req = [])"
    using failed(1) resolve_no_host [of s "new_handler req" url_Parse E] by auto
  moreover have "body_streams h' = []"
    using answers_502_client [OF failed(6)] resolve_frame(8) [OF failed(1)]
    by (auto simp: body_streams_def)
  ultimately show ?thesis using answers_502_client [OF failed(6)] by (simp add: StatusBadGateway_def)
next
  case (streams h1 s1 c s2 h3 s3 h4 s4 h5 s5 br hdr)
  have "h_connection h5 = Some c" using same_requestD [OF streams(3)] by simp
  note resp = streamed_response [OF streams(7,8) this streams(9)]
  have "h_responseHeader h' = Some hdr"
    using streams(8,9) by (auto simp: streamResponseBody_def copyResponseStatus_def Let_def)
  with resp(1,2) show ?thesis by (simp add: StatusBadGateway_def)
qed

text \<open>Acquiring a connection dials and closes, and moves no data.\<close>

lemma dialNew_trace:
  "\<exists>evs. trace (snd (dialNew E a s)) = trace s @ evs \<and> list_all (\<lambda>ev. \<not> is_data ev) evs"
  by (auto simp: dialNew_def Let_def split_beta frame_simps split: sum.split)

lemma acquire_trace:
  "\<exists>evs. trace (snd (AcquireUpstreamConnection E a s)) = trace s @ evs \<and>
     list_all (\<lambda>ev. \<not> is_data ev) evs"
proof (cases "idle_list a s = []")
  case True
  then show ?thesis using dialNew_trace [of E a "upd_pool a id s"] by (simp add: acquire_empty)
next
  case False
  show ?thesis
  proof (cases "idleTimeout s < fst (time_Now E (ext s)) - returnedAt (last (idle_list a s))")
    case True
    obtain evs where "trace (snd (dialNew E a (dropped_stale E a s))) = trace (dropped_stale E a s) @ evs"
      "list_all (\<lambda>ev. \<not> is_data ev) evs"
      using dialNew_trace [of E a "dropped_stale E a s"] by blast
    with acquire_stale [OF False True] show ?thesis by simp
  next
    case fresh: False
    then show ?thesis by (simp add: acquire_reuse [OF False] not_less)
  qed
qed

text \<open>
  C26. A request that fails after it has a connection answers 502 and closes that connection
  as its last action, after at most reading the body and writing to the upstream; no
  connection joins any idle list, and that of its upstream has lost its last
  connection, if it had one. A request that fails without a connection has moved no data at
  all, and no connection joins any idle list either.
\<close>
theorem failed_request_closes:
  fixes s :: "('e, 'm) proxy_sys_scheme" and E :: "('e, 'x) proxy_env_scheme"
  assumes "serve url_Parse E req s = Some (h', s')" and "body_streams h' = []"
  shows "\<exists>pre mid. list_all (\<lambda>ev. \<not> is_data ev) pre \<and> list_all is_data mid \<and>
    (let took_last = \<forall>b. idle_list b s' =
       (if b = h_upstreamAddress h' then butlast (idle_list b s) else idle_list b s) in
     case h_connection h' of
       Some c \<Rightarrow> status_of h' = 502 \<and> trace s' = trace s @ pre @ mid @ [EvClose c] \<and> took_last
     | None \<Rightarrow> trace s' = trace s @ pre \<and> (took_last \<or> (\<forall>b. idle_list b s' = idle_list b s)))"
  using assms(1)
proof (cases rule: serve_cases)
  case no_upstream
  from resolve_frame(9) [OF this] have "s' = s" by blast
  moreover have "h_connection h' = None"
    using no_upstream resolve_frame(9) [OF no_upstream] resolve_no_host [of s "new_handler req" url_Parse E]
    by (auto simp: new_handler_def)
  ultimately show ?thesis by (intro exI [of _ "[]"]) simp
next
  case (no_connection h1 s1 err s2)
  note fr = resolve_frame [OF no_connection(1)]
  from acquire_trace [of E "h_upstreamAddress h1" s1] no_connection(2) fr(5)
  obtain pre where "trace s2 = trace s @ pre" "list_all (\<lambda>ev. \<not> is_data ev) pre" by auto
  moreover have idle1: "idle_list b s1 = idle_list b s" for b using fr(2) by (simp add: idle_list_def)
  moreover have "same_pools s2 s'" by (simp add: no_connection(4))
  then have "idle_list b s' = (if b = h_upstreamAddress h1 then butlast (idle_list b s) else idle_list b s)" for b
    using same_pools_pool_at(5) [of s2 s' b] acquire_idle [of b E "h_upstreamAddress h1" s1] no_connection(2) idle1
    by auto
  ultimately show ?thesis
    using no_connection(3,4) by (intro exI [of _ pre] exI [of _ "[]"]) (simp add: frame_simps)
next
  case (failed h1 s1 c s2 s3)
  note fr = resolve_frame [OF failed(1)]
  from acquire_trace [of E "h_upstreamAddress h1" s1] failed(2) fr(5)
  obtain pre where pre: "trace s2 = trace s @ pre" "list_all (\<lambda>ev. \<not> is_data ev) pre" by auto
  from failed(5) obtain mid where "trace s3 = trace s2 @ mid" "list_all is_data mid"
    by (auto simp: extends_data_def)
  moreover have idle1: "idle_list b s1 = idle_list b s" and "idle_list b s' = idle_list b s3" for b
    using fr(2) by (simp_all add: failed(7) idle_list_def)
  then have "idle_list b s' = (if b = h_upstreamAddress h1 then butlast (idle_list b s) else idle_list b s)" for b
    using same_pools_pool_at(5) [OF failed(4), of b] acquire_idle [of b E "h_upstreamAddress h1" s1] failed(2)
    by auto
  moreover have "h_connection h' = Some c" "h_upstreamAddress h' = h_upstreamAddress h1"
    using same_requestD [OF failed(3)] by simp_all
  ultimately show ?thesis
    using pre failed(7) answers_502_client [OF failed(6)]
    by (intro exI [of _ pre] exI [of _ mid]) (simp add: StatusBadGateway_def)
next
  case (streams h1 s1 c s2 h3 s3 h4 s4 h5 s5 br hdr)
  have "h_connection h5 = Some c" using same_requestD [OF streams(3)] by simp
  from streamed_response(2) [OF streams(7,8) this streams(9)] assms(2) show ?thesis by simp
qed

text \<open>An upstream that closes its socket instead of answering.\<close>

definition silent_env :: "sample_state proxy_env" where
  "silent_env = (proxy_sample_env response_header_zero)
     \<lparr>header_Read := (\<lambda>br st. Some ((Some EOF, response_header_zero), br, st))\<rparr>"

lemma silent_env_sel [simp]:
  "time_Now silent_env = time_Now sample_env" "rand_Intn silent_env = rand_Intn sample_env"
  "dial_call silent_env = dial_call sample_env" "conn_Close silent_env = conn_Close sample_env"
  "conn_Write silent_env = conn_Write sample_env" "conn_Read silent_env = conn_Read sample_env"
  "body_Read silent_env = body_Read sample_env" "pool_Get silent_env = pool_Get sample_env"
  "header_Read silent_env br st = Some ((Some EOF, response_header_zero), br, st)"
  by (simp_all add: silent_env_def)

lemma silent_serve:
  "\<exists>h' s'. serve sample_url_Parse silent_env sample_request
       (proxy_init (0, []) (NewUpstreams sample_url_Parse [])) = Some (h', s') \<and>
     h_connection h' = Some (NetConn 0) \<and> body_streams h' = [] \<and>
     bufIOReaderPool s' = [] \<and> in_use ''http://h'' s' = 0"
  by (simp add: serve_eval body_streams_def in_use_def slots_def idle_list_def)

theorem failed_request_closes_witness:
  "\<exists>h' s' pre. serve sample_url_Parse silent_env sample_request
       (proxy_init (0, []) (NewUpstreams sample_url_Parse [])) = Some (h', s') \<and>
     status_of h' = 502 \<and> trace s' = pre @ [EvClose (NetConn 0)]"
proof -
  obtain h' s' where run: "serve sample_url_Parse silent_env sample_request
       (proxy_init (0, []) (NewUpstreams sample_url_Parse [])) = Some (h', s')"
    and h': "h_connection h' = Some (NetConn 0)" "body_streams h' = []"
    using silent_serve by blast
  from failed_request_closes [OF run h'(2)] h'(1) run show ?thesis
    by (auto simp: proxy_init_def)
qed

section \<open>What the upstream receives\<close>

lemma no_data_written: "list_all (\<lambda>ev. \<not> is_data ev) evs \<Longrightarrow>
    written_to c evs = [] \<and> body_bytes evs = [] \<and> (\<forall>ev \<in> set evs. \<not> write_failed ev)"
proof (induction evs)
  case (Cons ev evs)
  then show ?case by (cases ev) auto
qed simp

text \<open>A header step that succeeds has written exactly the request header.\<close>

lemma writeRequestHeaders_wire:
  assumes "writes_all E" and "writeRequestHeaders E h s = Some (True, h', s')"
  shows "\<exists>evs. trace s' = trace s @ evs \<and> body_bytes evs = [] \<and>
    written_to (the (h_connection h)) evs = req_Header (h_ctx h) \<and>
    (\<forall>ev \<in> set evs. \<not> write_failed ev)"
proof -
  obtain bw s1 where get: "AcquireBufIOWriter E (the (h_connection h)) s = (bw, s1)" by fastforce
  have bw: "bw_dst bw = the (h_connection h)" "bw_buf bw = []" "bw_err bw = None"
    using AcquireBufIOWriter_clean [of E "the (h_connection h)" s] get by simp_all
  have s1: "trace s1 = trace s" using bufio_ops_trace(1) [of E "the (h_connection h)" s] get by simp
  obtain r bw1 s2 where wr: "bufio_Write E bw (req_Header (h_ctx h)) s1 = Some (r, bw1, s2)"
    and w: "wrote bw (req_Header (h_ctx h)) s1 r bw1 s2"
    using bufio_Write_wrote [OF assms(1) bw(3)] by blast
  obtain fr bw2 s3 where fl: "bufio_Flush E bw1 s2 = (fr, bw2, s3)" by (metis prod.exhaust)
  from assms(2) have ok: "r = None" "fr = None" "trace s' = trace s3"
    by (auto simp: writeRequestHeaders_def get wr fl split: option.splits)
  have bw1: "bw_err bw1 = None" "bw_dst bw1 = bw_dst bw" using w ok by (simp_all add: wrote_def)
  note flushed = bufio_Flush_wrote [OF assms(1) bw1(1) fl]
  obtain evs1 where "trace s2 = trace s @ evs1" "body_bytes evs1 = []"
    "written_to (bw_dst bw) evs1 @ bw_buf bw1 = req_Header (h_ctx h)" "\<forall>ev \<in> set evs1. \<not> write_failed ev"
    using w ok bw s1 by (auto simp: wrote_def)
  moreover obtain evs2 where "trace s3 = trace s2 @ evs2" "body_bytes evs2 = []"
    "written_to (bw_dst bw) evs2 = bw_buf bw1" "\<forall>ev \<in> set evs2. \<not> write_failed ev"
    using flushed ok bw1 by (auto simp: wrote_def)
  ultimately show ?thesis using ok bw by (intro exI [of _ "evs1 @ evs2"]) auto
qed

text \<open>A body step that succeeds has written exactly the body, or what was read of its stream.\<close>

lemma writeRequestBody_wire:
  assumes "writeRequestBody E h s = Some (True, h', s')"
  shows "\<exists>evs. trace s' = trace s @ evs \<and> (\<forall>ev \<in> set evs. \<not> write_failed ev) \<and>
    (case req_BodyStream (h_ctx h) of
       None \<Rightarrow> written_to (the (h_connection h)) evs = req_Body (h_ctx h) \<and> body_bytes evs = []
     | Some _ \<Rightarrow> written_to (the (h_connection h)) evs = body_bytes evs \<and>
         (\<exists>b. EvBodyRead b (Some EOF) \<in> set evs))"
proof -
  from assms obtain s2 where body: "send_body E h (snd (now E s)) = Some (True, h', s2)"
    and s': "trace s' = trace s2"
    by (auto simp: writeRequestBody_def split_beta frame_simps split: option.splits)
  show ?thesis
  proof (cases "req_BodyStream (h_ctx h)")
    case (Some src)
    with body have "PipeCopy E src (the (h_connection h)) (snd (now E s)) = Some (None, s2)"
      by (auto simp: send_body_def split: option.splits)
    from pipe_copy_wire [OF this] obtain evs where "trace s2 = trace s @ evs"
      "copied (the (h_connection h)) evs None" by (auto simp: frame_simps)
    with copied_bytes copied_ok Some s' show ?thesis by auto
  next
    case None
    let ?w = "net_Write E (the (h_connection h)) (req_Body (h_ctx h)) (snd (now E s))"
    from body None have "req_Body (h_ctx h) = [] \<and> trace s2 = trace s \<or>
        snd (fst ?w) = None \<and> s2 = snd ?w"
      by (auto simp: send_body_def split_beta Let_def frame_simps split: if_splits)
    then show ?thesis
      using None s' by (auto simp: frame_simps intro: exI [of _ "[]"])
  qed
qed

section \<open>How each step ends\<close>

lemma no_data_fails: "list_all (\<lambda>ev. \<not> is_data ev) evs \<Longrightarrow> ev \<in> set evs \<Longrightarrow> \<not> io_failed ev"
  by (cases ev) (auto simp: list_all_iff)

text \<open>A writing step fails exactly if a write to the connection or a read of the body has failed.\<close>

lemma writeRequestHeaders_outcome:
  assumes "writes_all E" and "writeRequestHeaders E h s = Some (ok, h', s')"
  shows "\<exists>evs. trace s' = trace s @ evs \<and> (ok \<longleftrightarrow> (\<forall>ev \<in> set evs. \<not> io_failed ev))"
proof -
  obtain bw s1 where get: "AcquireBufIOWriter E (the (h_connection h)) s = (bw, s1)" by fastforce
  have bw: "bw_err bw = None"
    using AcquireBufIOWriter_clean [of E "the (h_connection h)" s] get by simp
  have s1: "trace s1 = trace s" using bufio_ops_trace(1) [of E "the (h_connection h)" s] get by simp
  obtain r bw1 s2 where wr: "bufio_Write E bw (req_Header (h_ctx h)) s1 = Some (r, bw1, s2)"
    and w: "wrote bw (req_Header (h_ctx h)) s1 r bw1 s2"
    using bufio_Write_wrote [OF assms(1) bw] by blast
  from w s1 obtain evs1 where one: "trace s2 = trace s @ evs1"
    "r = None \<longleftrightarrow> (\<forall>ev \<in> set evs1. \<not> io_failed ev)" unfolding wrote_def by metis
  obtain fr bw2 s3 where fl: "bufio_Flush E bw1 s2 = (fr, bw2, s3)" by (metis prod.exhaust)
  show ?thesis
  proof (cases r)
    case (Some err)
    with assms(2) wr have "\<not> ok" "trace s' = trace s2"
      by (auto simp: writeRequestHeaders_def get frame_simps)
    with one Some show ?thesis by auto
  next
    case None
    with w have "bw_err bw1 = None" by (simp add: wrote_def)
    from bufio_Flush_wrote(1) [OF assms(1) this fl] obtain evs2 where
      "trace s3 = trace s2 @ evs2" "fr = None \<longleftrightarrow> (\<forall>ev \<in> set evs2. \<not> io_failed ev)"
      unfolding wrote_def by metis
    moreover have "trace s' = trace s3" "ok \<longleftrightarrow> fr = None"
      using assms(2) None by (auto simp: writeRequestHeaders_def get wr fl frame_simps split: option.splits)
    ultimately show ?thesis using one None by (intro exI [of _ "evs1 @ evs2"]) auto
  qed
qed

lemma writeRequestBody_outcome:
  assumes "writes_all E" and "writeRequestBody E h s = Some (ok, h', s')"
  shows "\<exists>evs. trace s' = trace s @ evs \<and> (ok \<longleftrightarrow> (\<forall>ev \<in> set evs. \<not> io_failed ev))"
proof -
  let ?s = "snd (now E s)"
  from assms(2) obtain s2 where body: "send_body E h ?s = Some (ok, h', s2)" and s': "trace s' = trace s2"
    by (auto simp: writeRequestBody_def split_beta frame_simps split: option.splits)
  show ?thesis
  proof (cases "req_BodyStream (h_ctx h)")
    case (Some src)
    with body obtain r where cp: "PipeCopy E src (the (h_connection h)) ?s = Some (r, s2)" "ok \<longleftrightarrow> r = None"
      by (auto simp: send_body_def split: option.splits)
    from pipe_copy_wire [OF cp(1)] obtain evs where "trace s2 = trace s @ evs"
      "copied (the (h_connection h)) evs r" by (auto simp: frame_simps)
    with copied_failed cp(2) s' show ?thesis by metis
  next
    case None
    show ?thesis
    proof (cases "req_Body (h_ctx h) = []")
      case True
      with body None s' show ?thesis
        by (intro exI [of _ "[]"]) (auto simp: send_body_def frame_simps)
    next
      case False
      obtain n err s1 where wr: "net_Write E (the (h_connection h)) (req_Body (h_ctx h)) ?s = ((n, err), s1)"
        by (metis prod.exhaust)
      have "trace s1 = trace s @ [EvWrite (the (h_connection h)) (req_Body (h_ctx h)) err]"
        using net_Write_frame(1) [of E "the (h_connection h)" "req_Body (h_ctx h)" ?s] by (simp add: wr frame_simps)
      moreover have "trace s2 = trace s1" "ok \<longleftrightarrow> err = None"
        using body None False wr writes_allD [OF assms(1), of "the (h_connection h)" "req_Body (h_ctx h)" ?s n s1]
        by (auto simp: send_body_def Let_def frame_simps split: if_splits)
      ultimately show ?thesis using s' by (cases err) auto
    qed
  qed
qed

lemma AcquireBufIOReader_clean:
  "br_src (fst (AcquireBufIOReader E c s)) = c" "br_buf (fst (AcquireBufIOReader E c s)) = []"
  by (simp_all add: AcquireBufIOReader_def Let_def split_beta NewReaderSize_def reader_Reset_def
      split: option.split)

text \<open>The reading step fails exactly if the header could not be read, and says so.\<close>

lemma readResponseHeaders_outcome:
  assumes "readResponseHeaders E h s = Some (ok, h', s')" and "h_connection h = Some c"
  shows "\<exists>br0 e err hdr br. br_src br0 = c \<and> br_buf br0 = [] \<and> h_responseHeader h' = Some hdr \<and>
    header_Read E br0 e = Some ((err, hdr), br, ext s') \<and> (ok \<longleftrightarrow> err = None) \<and>
    (err \<noteq> None \<longrightarrow> h_resp h' = h_resp h @ [CtxError ''upstream response error: '' err 502])"
proof -
  obtain br0 s1 where get: "AcquireBufIOReader E c s = (br0, s1)" by fastforce
  have clean: "br_src br0 = c" "br_buf br0 = []" using AcquireBufIOReader_clean [of E c s] get by simp_all
  from assms get obtain err hdr br e where rd: "header_Read E br0 (ext s1) = Some ((err, hdr), br, e)"
    by (auto simp: readResponseHeaders_def read_header_def split: option.splits)
  with assms get have "h_responseHeader h' = Some hdr" "ext s' = e" "ok \<longleftrightarrow> err = None"
    "err \<noteq> None \<longrightarrow> h_resp h' = h_resp h @ [CtxError ''upstream response error: '' err 502]"
    by (auto simp: readResponseHeaders_def read_header_def Let_def count_metric_def StatusBadGateway_def
        split: option.splits)
  with clean rd show ?thesis by blast
qed

end
