(* ===== verification/Proxy.thy ===== *)
theory Proxy
  imports Handler
begin

text \<open>
  Whole requests: what is forwarded, when a request returns, how the set of upstreams
  evolves, and what becomes of the connection once the client has read the response.
\<close>

section \<open>Forwarding\<close>

text \<open>
  C6. A request whose response is streamed has been forwarded faithfully: provided the
  network honours io.Writer, what this request wrote to its connection is exactly the
  request header followed by the body (for a stream, the bytes read from it, up to its EOF), in order,
  nothing else, and no write failed.
\<close>
theorem request_forwarded:
  fixes s :: "('e, 'm) proxy_sys_scheme" and E :: "('e, 'x) proxy_env_scheme"
  assumes "writes_all E" and "serve url_Parse E req s = Some (h', s')" and "body_streams h' \<noteq> []"
  shows "\<exists>c evs. h_connection h' = Some c \<and> trace s' = trace s @ evs \<and>
    (\<forall>ev \<in> set evs. \<not> write_failed ev) \<and>
    (case req_BodyStream req of
       None \<Rightarrow> written_to c evs = req_Header req @ req_Body req \<and> body_bytes evs = []
     | Some _ \<Rightarrow> written_to c evs = req_Header req @ body_bytes evs \<and>
         (\<exists>b. EvBodyRead b (Some EOF) \<in> set evs))"
  using assms(2)
proof (cases rule: serve_cases)
  case no_upstream
  from resolve_frame(9) [OF this] assms(3) show ?thesis by (simp add: body_streams_def)
next
  case (no_connection h1 s1 err s2)
  from no_connection(3) resolve_frame(8) [OF no_connection(1)] assms(3) show ?thesis
    by (auto simp: body_streams_def)
next
  case (failed h1 s1 c s2 s3)
  from answers_502_client [OF failed(6)] resolve_frame(8) [OF failed(1)] assms(3) show ?thesis
    by (auto simp: body_streams_def)
next
  case (streams h1 s1 c s2 h3 s3 h4 s4 h5 s5 br hdr)
  note fr = resolve_frame [OF streams(1)]
  have h5: "h_connection h5 = Some c" using same_requestD [OF streams(3)] by simp
  have h3: "h_connection h3 = Some c" "h_ctx h3 = req"
    using same_requestD [OF header_step.passes(1) [OF streams(10)]] fr(7) by simp_all
  note resp = streamed_response [OF streams(7,8) h5 streams(9)]
  obtain pre where pre: "trace s2 = trace s @ pre" "list_all (\<lambda>ev. \<not> is_data ev) pre"
    using acquire_trace [of E "h_upstreamAddress h1" s1] streams(2) fr(5) by auto
  obtain evs1 where one: "trace s3 = trace s2 @ evs1" "body_bytes evs1 = []"
    "written_to c evs1 = req_Header req" "\<forall>ev \<in> set evs1. \<not> write_failed ev"
    using writeRequestHeaders_wire [OF assms(1) streams(10)] fr(7) by auto
  obtain evs2 where two: "trace s4 = trace s3 @ evs2" "\<forall>ev \<in> set evs2. \<not> write_failed ev"
    "case req_BodyStream req of
       None \<Rightarrow> written_to c evs2 = req_Body req \<and> body_bytes evs2 = []
     | Some _ \<Rightarrow> written_to c evs2 = body_bytes evs2 \<and> (\<exists>b. EvBodyRead b (Some EOF) \<in> set evs2)"
    using writeRequestBody_wire [OF streams(11)] unfolding h3 option.sel by blast
  have tr: "trace s' = trace s @ pre @ evs1 @ evs2"
    using resp(4) readResponseHeaders_step(2) [OF streams(12)] pre one two by simp
  show ?thesis
    by (rule exI [of _ c], rule exI [of _ "pre @ evs1 @ evs2"])
      (use tr resp(6) no_data_written [OF pre(2), of c] one two in \<open>auto split: option.splits\<close>)
qed

lemma sample_writes_all: "writes_all (proxy_sample_env hdr)"
  by (simp add: writes_all_def)

lemma sample_answers: "upstream_answers (proxy_sample_env hdr)"
  by (simp add: upstream_answers_def)

theorem request_forwarded_witness:
  "\<exists>h' s' evs. serve sample_url_Parse (proxy_sample_env (sample_header 200 3)) sample_request
       (proxy_init (0, []) (NewUpstreams sample_url_Parse [])) = Some (h', s') \<and>
     trace s' = evs \<and> written_to (NetConn 0) evs = [1, 2, 7]"
proof -
  obtain h' s' where run: "serve sample_url_Parse (proxy_sample_env (sample_header 200 3)) sample_request
       (proxy_init (0, []) (NewUpstreams sample_url_Parse [])) = Some (h', s')"
    and h': "h_connection h' = Some (NetConn 0)" "body_streams h' \<noteq> []"
    using sample_serve by blast
  from request_forwarded [OF sample_writes_all run h'(2)] h'(1) run show ?thesis
    by (auto simp: proxy_init_def sample_request_def)
qed

section \<open>What the client is told\<close>

text \<open>The failing step, by what has failed.\<close>

lemma step_failed_outcome:
  fixes s :: "('e, 'm) proxy_sys_scheme" and E :: "('e, 'x) proxy_env_scheme"
  assumes w: "writes_all E" and "step_failed E h s h' s'" and c: "h_connection h = Some c"
  shows "\<exists>evs. trace s' = trace s @ evs \<and>
    ((\<exists>ev \<in> set evs. io_failed ev) \<or>
     (\<exists>br0 e err hdr br e'. br_src br0 = c \<and> h_responseHeader h' = Some hdr \<and> h_resp h' \<noteq> [] \<and>
        header_Read E br0 e = Some ((Some err, hdr), br, e') \<and>
        last (h_resp h') = CtxError ''upstream response error: '' (Some err) 502))"
  using assms(2) unfolding step_failed_def
proof (elim disjE exE conjE)
  assume "writeRequestHeaders E h s = Some (False, h', s')"
  from writeRequestHeaders_outcome [OF w this] show ?thesis by blast
next
  fix h1 s1
  assume one: "writeRequestHeaders E h s = Some (True, h1, s1)"
    and two: "writeRequestBody E h1 s1 = Some (False, h', s')"
  from writeRequestHeaders_outcome [OF w one] writeRequestBody_outcome [OF w two]
  obtain evs1 evs2 where "trace s1 = trace s @ evs1" "trace s' = trace s1 @ evs2"
    "\<exists>ev \<in> set evs2. io_failed ev" by blast
  then show ?thesis by (intro exI [of _ "evs1 @ evs2"]) auto
next
  fix h1 s1 h2 s2
  assume one: "writeRequestHeaders E h s = Some (True, h1, s1)"
    and two: "writeRequestBody E h1 s1 = Some (True, h2, s2)"
    and three: "readResponseHeaders E h2 s2 = Some (False, h', s')"
  from writeRequestHeaders_outcome [OF w one] writeRequestBody_outcome [OF w two]
  obtain evs1 evs2 where "trace s1 = trace s @ evs1" "trace s2 = trace s1 @ evs2" by auto
  moreover have "h_connection h2 = Some c"
    using same_requestD(3) [OF header_step.passes(1) [OF one]] same_requestD(3) [OF body_step.passes(1) [OF two]] c
    by simp
  note readResponseHeaders_outcome [OF three this]
  ultimately show ?thesis
    using readResponseHeaders_step(2) [OF three] by (intro exI [of _ "evs1 @ evs2"]) fastforce
qed

text \<open>
  C25. What the client is told, on a network that honours io.Writer. 400 if no upstream is configured
  and the request names no host, with no call of the outside world. Otherwise: 502 if no connection could
  be acquired; 502 if a write to the connection, or a read of the request body, has failed;
  502, with the error, if the header of the response could not be read; and in all other
  cases the status in the header that was read from the connection of the
  request, except that 500 and above become 502. A body stream is set in the last case and in no other.
\<close>
theorem response_status:
  fixes s :: "('e, 'm) proxy_sys_scheme" and E :: "('e, 'x) proxy_env_scheme"
  assumes "writes_all E" and "serve url_Parse E req s = Some (h', s')"
  shows "\<exists>evs. trace s' = trace s @ evs \<and>
    (if ups_keys (upstreamsObj s) = [] \<and> req_Host req = []
     then status_of h' = 400 \<and> body_streams h' = [] \<and> evs = []
     else case h_connection h' of
       None \<Rightarrow> status_of h' = 502 \<and> body_streams h' = [] \<and>
         (\<exists>(s1 :: ('e, 'm) proxy_sys_scheme) err s2.
            AcquireUpstreamConnection E (h_upstreamAddress h') s1 = (Inl err, s2) \<and>
            trace s1 = trace s \<and> trace s2 = trace s')
     | Some c \<Rightarrow>
         if \<exists>ev \<in> set evs. io_failed ev then status_of h' = 502 \<and> body_streams h' = []
         else \<exists>br0 e err hdr br e'. br_src br0 = c \<and>
           header_Read E br0 e = Some ((err, hdr), br, e') \<and> h_responseHeader h' = Some hdr \<and>
           (case err of
              Some _ \<Rightarrow> status_of h' = 502 \<and> body_streams h' = [] \<and>
                last (h_resp h') = CtxError ''upstream response error: '' err 502
            | None \<Rightarrow> e' = ext s' \<and> body_streams h' \<noteq> [] \<and>
                status_of h' = (if 500 \<le> rh_StatusCode hdr then 502 else rh_StatusCode hdr)))"
  using assms(2)
proof (cases rule: serve_cases)
  case no_upstream
  from resolve_frame(9) [OF this] show ?thesis
    by (simp add: body_streams_def status_of_def StatusBadRequest_def)
next
  case (no_connection h1 s1 err s2)
  have host: "\<not> (ups_keys (upstreamsObj s) = [] \<and> req_Host req = [])"
    using no_connection(1) resolve_no_host [of s "new_handler req" url_Parse E] by auto
  have none: "body_streams h' = []" "h_connection h' = None" "status_of h' = 502"
    "h_upstreamAddress h' = h_upstreamAddress h1"
    using no_connection(3) resolve_frame(8) [OF no_connection(1)]
    by (auto simp: body_streams_def StatusBadGateway_def)
  have "trace s1 = trace s" "trace s2 = trace s'"
    using resolve_frame(5) [OF no_connection(1)] by (simp_all add: no_connection(4) frame_simps)
  moreover obtain evs where "trace s' = trace s @ evs"
    using acquire_trace [of E "h_upstreamAddress h1" s1] no_connection(2) calculation by auto
  ultimately show ?thesis using host none no_connection(2) by auto
next
  case (failed h1 s1 c s2 s3)
  have host: "\<not> (ups_keys (upstreamsObj s) = [] \<and> req_Host req = [])"
    using failed(1) resolve_no_host [of s "new_handler req" url_Parse E] by auto
  have resp: "body_streams h' = []" "status_of h' = 502" "h_connection h' = Some c"
    using answers_502_client [OF failed(6)] resolve_frame(8) [OF failed(1)] same_requestD [OF failed(3)]
    by (auto simp: body_streams_def StatusBadGateway_def)
  obtain pre where pre: "trace s2 = trace s @ pre" "list_all (\<lambda>ev. \<not> is_data ev) pre"
    using acquire_trace [of E "h_upstreamAddress h1" s1] failed(2) resolve_frame(5) [OF failed(1)] by auto
  have "h_connection (h1\<lparr>h_connection := Some c\<rparr>) = Some c" by simp
  from step_failed_outcome [OF assms(1) failed(8) this] obtain mid where mid: "trace s3 = trace s2 @ mid"
    "(\<exists>ev \<in> set mid. io_failed ev) \<or>
     (\<exists>br0 e err hdr br e'. br_src br0 = c \<and> h_responseHeader h' = Some hdr \<and> h_resp h' \<noteq> [] \<and>
        header_Read E br0 e = Some ((Some err, hdr), br, e') \<and>
        last (h_resp h') = CtxError ''upstream response error: '' (Some err) 502)" by blast
  have tr: "trace s' = trace s @ pre @ mid @ [EvClose c]" using pre(1) mid(1) by (simp add: failed(7))
  show ?thesis
  proof (cases "\<exists>ev \<in> set mid. io_failed ev")
    case True
    with host resp tr show ?thesis by (intro exI [of _ "pre @ mid @ [EvClose c]"]) auto
  next
    case False
    with no_data_fails [OF pre(2)] have "\<not> (\<exists>ev \<in> set (pre @ mid @ [EvClose c]). io_failed ev)" by auto
    moreover from False mid(2) obtain br0 e err hdr br e' where
      "br_src br0 = c" "h_responseHeader h' = Some hdr"
      "header_Read E br0 e = Some ((Some err, hdr), br, e')"
      "last (h_resp h') = CtxError ''upstream response error: '' (Some err) 502" by blast
    then have "\<exists>br0 e err hdr br e'. br_src br0 = c \<and>
        header_Read E br0 e = Some ((err, hdr), br, e') \<and> h_responseHeader h' = Some hdr \<and>
        (case err of
           Some _ \<Rightarrow> status_of h' = 502 \<and> body_streams h' = [] \<and>
             last (h_resp h') = CtxError ''upstream response error: '' err 502
         | None \<Rightarrow> e' = ext s' \<and> body_streams h' \<noteq> [] \<and>
             status_of h' = (if 500 \<le> rh_StatusCode hdr then 502 else rh_StatusCode hdr))"
      using resp(1,2)
      by (intro exI [of _ br0] exI [of _ e] exI [of _ "Some err"] exI [of _ hdr] exI [of _ br] exI [of _ e']) simp
    ultimately show ?thesis
      using host resp(3) tr by (intro exI [of _ "pre @ mid @ [EvClose c]"]) simp
  qed
next
  case (streams h1 s1 c s2 h3 s3 h4 s4 h5 s5 br hdr)
  have host: "\<not> (ups_keys (upstreamsObj s) = [] \<and> req_Host req = [])"
    using streams(1) resolve_no_host [of s "new_handler req" url_Parse E] by auto
  have h5: "h_connection h5 = Some c" using same_requestD [OF streams(3)] by simp
  note resp = streamed_response [OF streams(7,8) h5 streams(9)]
  have hdr: "h_responseHeader h' = Some hdr" and ext: "ext s' = ext s5"
    using streams(8,9) by (auto simp: streamResponseBody_def copyResponseStatus_def Let_def count_metric_def
        split: if_splits)
  have "h_connection h4 = Some c" using same_requestD(3) [OF read_step.passes(1) [OF streams(12)]] h5 by simp
  from readResponseHeaders_outcome [OF streams(12) this] streams(8) obtain br0 e br1 where
    head: "br_src br0 = c" "header_Read E br0 e = Some ((None, hdr), br1, ext s')" by (auto simp: ext)
  obtain pre where pre: "trace s2 = trace s @ pre" "list_all (\<lambda>ev. \<not> is_data ev) pre"
    using acquire_trace [of E "h_upstreamAddress h1" s1] streams(2) resolve_frame(5) [OF streams(1)] by auto
  from writeRequestHeaders_outcome [OF assms(1) streams(10)] writeRequestBody_outcome [OF assms(1) streams(11)]
  obtain evs1 evs2 where evs: "trace s3 = trace s2 @ evs1" "trace s4 = trace s3 @ evs2"
    "\<forall>ev \<in> set evs1. \<not> io_failed ev" "\<forall>ev \<in> set evs2. \<not> io_failed ev" by blast
  have "trace s' = trace s @ pre @ evs1 @ evs2"
    using resp(4) readResponseHeaders_step(2) [OF streams(12)] pre(1) evs by simp
  moreover have "\<not> (\<exists>ev \<in> set (pre @ evs1 @ evs2). io_failed ev)"
    using no_data_fails [OF pre(2)] evs(3,4) by auto
  moreover have "\<exists>br0 e err hdr br e'. br_src br0 = c \<and>
      header_Read E br0 e = Some ((err, hdr), br, e') \<and> h_responseHeader h' = Some hdr \<and>
      (case err of
         Some _ \<Rightarrow> status_of h' = 502 \<and> body_streams h' = [] \<and>
           last (h_resp h') = CtxError ''upstream response error: '' err 502
       | None \<Rightarrow> e' = ext s' \<and> body_streams h' \<noteq> [] \<and>
           status_of h' = (if 500 \<le> rh_StatusCode hdr then 502 else rh_StatusCode hdr))"
    by (rule exI [of _ br0], rule exI [of _ e], rule exI [of _ None], rule exI [of _ hdr])
      (use head hdr resp(1,2) in \<open>auto simp: StatusBadGateway_def\<close>)
  ultimately show ?thesis
    unfolding if_not_P [OF host] using resp(6) by (intro exI [of _ "pre @ evs1 @ evs2"]) simp
qed

theorem response_status_witness:
  "\<exists>h' s'. serve sample_url_Parse (proxy_sample_env (sample_header 503 3)) sample_request
       (proxy_init (0, []) (NewUpstreams sample_url_Parse [])) = Some (h', s') \<and>
     h_connection h' = Some (NetConn 0) \<and> status_of h' = 502 \<and> body_streams h' \<noteq> []"
proof -
  let ?s = "proxy_init (0, []) (NewUpstreams sample_url_Parse []) :: sample_state proxy_sys"
  obtain h' s' where run: "serve sample_url_Parse (proxy_sample_env (sample_header 503 3)) sample_request ?s =
      Some (h', s')"
    and h': "h_connection h' = Some (NetConn 0)" "body_streams h' \<noteq> []"
    and tr: "trace s' = [EvDial FasthttpDial ''h'', EvWrite (NetConn 0) [1, 2] None, EvWrite (NetConn 0) [7] None]"
    using sample_serve by blast
  have "status_of h' = 502"
    using response_status [OF sample_writes_all run] h' tr
    by (auto simp: sample_request_def proxy_init_def sample_header_def split: option.splits if_splits)
  with run h' show ?thesis by blast
qed

section \<open>A request returns\<close>

lemma writeRequestHeaders_total:
  assumes "writes_all E"
  shows "writeRequestHeaders E h s \<noteq> None"
proof -
  obtain bw s1 where get: "AcquireBufIOWriter E (the (h_connection h)) s = (bw, s1)" by fastforce
  have "bw_err bw = None" using AcquireBufIOWriter_clean(3) [of E "the (h_connection h)" s] get by simp
  from bufio_Write_wrote [OF assms this] obtain r bw1 s2 where
    wr: "bufio_Write E bw (req_Header (h_ctx h)) s1 = Some (r, bw1, s2)" by blast
  obtain fr bw2 s3 where fl: "bufio_Flush E bw1 s2 = (fr, bw2, s3)" by (metis prod.exhaust)
  show ?thesis by (cases r; cases fr) (simp_all add: writeRequestHeaders_def get wr fl)
qed

lemma writeRequestBody_total:
  assumes "\<And>src. req_BodyStream (h_ctx h) = Some src \<Longrightarrow>
      \<exists>r. PipeCopy E src (the (h_connection h)) (snd (now E s)) = Some r"
  shows "writeRequestBody E h s \<noteq> None"
proof -
  have "send_body E h (snd (now E s)) \<noteq> None"
  proof (cases "req_BodyStream (h_ctx h)")
    case (Some src)
    from assms [OF this] obtain err s1 where
      "PipeCopy E src (the (h_connection h)) (snd (now E s)) = Some (err, s1)" by auto
    with Some show ?thesis by (cases err) (simp_all add: send_body_def)
  next
    case None
    then show ?thesis by (auto simp: send_body_def split_beta Let_def)
  qed
  then show ?thesis by (auto simp: writeRequestBody_def split_beta Let_def split: option.split)
qed

lemma readResponseHeaders_total:
  "upstream_answers E \<Longrightarrow> readResponseHeaders E h s \<noteq> None"
  by (auto simp: readResponseHeaders_def read_header_def upstream_answers_def split_beta Let_def
      split: option.split)

lemma serve_total:
  fixes s :: "('e, 'm) proxy_sys_scheme" and E :: "('e, 'x) proxy_env_scheme"
  assumes "writes_all E" and "upstream_answers E"
    and "\<And>src n e. req_BodyStream req = Some src \<Longrightarrow> snd (fst (body_Read E src n e)) = None \<Longrightarrow>
           m (snd (body_Read E src n e)) < (m e :: nat)"
    and "\<And>c b e. m (snd (conn_Write E c b e)) \<le> m e"
  shows "\<exists>h' s'. serve url_Parse E req s = Some (h', s')"
proof -
  obtain ok h1 s1 where res: "resolveUpstream url_Parse E (new_handler req) s = (ok, h1, s1)"
    by (metis prod.exhaust)
  show ?thesis
  proof (cases ok)
    case False
    with handle_stops_early(1) [of url_Parse E "new_handler req" s h1 s1] res show ?thesis
      by (simp add: serve_def)
  next
    case True
    with res have res': "resolveUpstream url_Parse E (new_handler req) s = (True, h1, s1)" by simp
    obtain r s2 where acq: "AcquireUpstreamConnection E (h_upstreamAddress h1) s1 = (r, s2)"
      by fastforce
    show ?thesis
    proof (cases r)
      case (Inl err)
      with handle_stops_early(2) [OF res', of err s2] acq show ?thesis by (simp add: serve_def)
    next
      case (Inr c)
      with acq have acq': "AcquireUpstreamConnection E (h_upstreamAddress h1) s1 = (Inr c, s2)" by simp
      obtain ok3 h3 s3 where w: "writeRequestHeaders E (h1\<lparr>h_connection := Some c\<rparr>) s2 = Some (ok3, h3, s3)"
        using writeRequestHeaders_total [OF assms(1), of "h1\<lparr>h_connection := Some c\<rparr>" s2] by auto
      have "h_ctx h3 = req"
        using header_step.keeps [OF w] resolve_frame(7) [OF res'] by (simp add: same_request_def)
      then have "\<exists>r. PipeCopy E src d t = Some r"
        if "req_BodyStream (h_ctx h3) = Some src" for src d and t :: "('e, 'm) proxy_sys_scheme"
        using that PipeCopy_total [of E src m d t] assms(3,4) by auto
      then obtain ok4 h4 s4 where b: "writeRequestBody E h3 s3 = Some (ok4, h4, s4)"
        using writeRequestBody_total [of h3 E s3] by auto
      obtain ok5 h5 s5 where r5: "readResponseHeaders E h4 s4 = Some (ok5, h5, s5)"
        using readResponseHeaders_total [OF assms(2), of h4 s4] by auto
      show ?thesis
        by (cases ok3; cases ok4; cases ok5)
          (simp_all add: serve_def handle_connected [OF res' acq'] w b r5)
    qed
  qed
qed

text \<open>
  C14. Every request returns, on three conditions: the network honours io.Writer; the
  upstream answers, that is, a read of the response header always ends, with a header or an error
  (the handler sets no deadline for it); and the request body, when it is a stream, is finite (some
  measure of the outside world falls with every read that reports no error and is not
  raised by writes). Then the handler terminates with a response. A single dial, Write, Close
  or Read of the request body is taken to return.
\<close>
theorem request_returns:
  fixes s :: "('e, 'm) proxy_sys_scheme" and E :: "('e, 'x) proxy_env_scheme"
  assumes "writes_all E" and "upstream_answers E"
    and "\<And>src n e. req_BodyStream req = Some src \<Longrightarrow> snd (fst (body_Read E src n e)) = None \<Longrightarrow>
           m (snd (body_Read E src n e)) < (m e :: nat)"
    and "\<And>c b e. m (snd (conn_Write E c b e)) \<le> m e"
  shows "\<exists>h' s'. serve url_Parse E req s = Some (h', s') \<and> h_resp h' \<noteq> []"
proof -
  have "\<exists>h' s'. serve url_Parse E req s = Some (h', s')"
    by (rule serve_total [where m = m, OF assms])
  then obtain h' s' where run: "serve url_Parse E req s = Some (h', s')" by blast
  from run have "h_resp h' \<noteq> []"
  proof (cases rule: serve_cases)
    case no_upstream
    from resolve_frame(9) [OF this] show ?thesis by simp
  next
    case (failed h1 s1 c s2 s3)
    then show ?thesis by (auto simp: answers_502_def)
  next
    case (streams h1 s1 c s2 h3 s3 h4 s4 h5 s5 br hdr)
    from streams(9) show ?thesis by (simp add: streamResponseBody_def Let_def)
  qed simp
  with run show ?thesis by blast
qed

theorem request_returns_witness:
  "\<exists>h' s'. serve sample_url_Parse (proxy_sample_env (sample_header 200 3))
       (sample_request\<lparr>req_BodyStream := Some 4\<rparr>)
       (proxy_init (0, [([9], None)]) (NewUpstreams sample_url_Parse [])) = Some (h', s') \<and> h_resp h' \<noteq> []"
proof (rule request_returns [OF sample_writes_all sample_answers, where m = "\<lambda>e :: sample_state. length (snd e)"])
  fix src n e
  assume "snd (fst (body_Read (proxy_sample_env (sample_header 200 3)) src n e)) = None"
  then show "length (snd (snd (body_Read (proxy_sample_env (sample_header 200 3)) src n e))) < length (snd e)"
    by (cases e rule: sample_read.cases) simp_all
qed simp

section \<open>The connection after the response\<close>

text \<open>The body of a response has been consumed when all of it has been read or a Read failed.\<close>

definition consumed :: "int \<Rightarrow> (byte list \<times> go_error option) list \<Rightarrow> bool" where
  "consumed len xs \<longleftrightarrow> len \<noteq> 0 \<and> (int (length (read_bytes xs)) = len \<or> read_failed xs)"

lemma stream_fate:
  fixes s :: "('e, 'm) proxy_sys_scheme" and E :: "('e, 'x) proxy_env_scheme"
  assumes "pool_wf s" and "1 \<le> in_use addr s"
    and "reads (body_stack_Read E) (response_stream addr c br hdr) ns s = (xs, pr', t)"
  shows "pool_wf t"
    and "in_use a t = in_use a s - (if a = addr \<and> consumed (rh_ContentLength hdr) xs then 1 else 0)"
    and "map idle_conn (idle_list addr t) = map idle_conn (idle_list addr s) @
           (if consumed (rh_ContentLength hdr) xs \<and> 0 < rh_ContentLength hdr then [c] else [])"
    and "trace t = trace s @
           (if consumed (rh_ContentLength hdr) xs \<and> rh_ContentLength hdr < 0 then [EvClose c] else [])"
proof -
  let ?pr = "response_stream addr c br hdr :: ('e, 'm) proxy_sys_scheme body_stream"
  have use: "pr_returned ?pr \<or> 1 \<le> in_use (pr_upstreamAddr ?pr) s" using assms(2) by simp
  note run = timed_body.pool_reads [where E = E and pr = ?pr, OF assms(3) response_stream_cleanup assms(1) use]
  have given: "pr_returned pr' \<longleftrightarrow> consumed (rh_ContentLength hdr) xs"
    using run(1-3) by (cases "0 \<le> rh_ContentLength hdr") (auto simp: consumed_def)
  show "pool_wf t" by (rule run(4))
  show "in_use a t = in_use a s - (if a = addr \<and> consumed (rh_ContentLength hdr) xs then 1 else 0)"
    using run(5) [of a] given by simp
  show "map idle_conn (idle_list addr t) = map idle_conn (idle_list addr s) @
      (if consumed (rh_ContentLength hdr) xs \<and> 0 < rh_ContentLength hdr then [c] else [])"
    using run(6) given by (auto simp: consumed_def)
  show "trace t = trace s @
      (if consumed (rh_ContentLength hdr) xs \<and> rh_ContentLength hdr < 0 then [EvClose c] else [])"
    using run(7) given by simp
qed

text \<open>
  C9. From the request to the end of its response, a connection is neither lost nor
  counted twice, with two exceptions that the statement names: after the client's Reads of a
  streamed response, the connections in use are those before the request, unless the body
  was not consumed (the client went away) or is empty (Content-Length 0), in which case the
  upstream has one more in use, for good. A consumed body of known length leaves the connection idle,
  one that ends with the stream leaves it closed.
\<close>
theorem response_returns_connection:
  fixes s :: "('e, 'm) proxy_sys_scheme" and E :: "('e, 'x) proxy_env_scheme"
  assumes "pool_wf s" and "serve url_Parse E req s = Some (h', s')" and "body_streams h' = [pr]"
    and "reads (body_stack_Read E) pr ns s' = (xs, pr', t)"
  shows "pool_wf t \<and>
    (\<forall>a. in_use a t = in_use a s +
       (if a = h_upstreamAddress h' \<and> \<not> consumed (pr_remain pr) xs then 1 else 0)) \<and>
    (\<exists>c. h_connection h' = Some c \<and>
       (consumed (pr_remain pr) xs \<longrightarrow>
          (if 0 < pr_remain pr
           then trace t = trace s' \<and> map idle_conn (idle_list (h_upstreamAddress h') t) =
                  map idle_conn (idle_list (h_upstreamAddress h') s') @ [c]
           else trace t = trace s' @ [EvClose c])))"
proof -
  from serve_accounting [OF assms(1,2)] assms(3) obtain c br hdr where
    wf: "pool_wf s'" and c: "h_connection h' = Some c"
    and pr: "pr = response_stream (h_upstreamAddress h') c br hdr"
    and use: "\<And>a. in_use a s' = in_use a s + (if a = h_upstreamAddress h' then 1 else 0)"
    by auto
  have "1 \<le> in_use (h_upstreamAddress h') s'"
    using use [of "h_upstreamAddress h'"] pool_wfD(3) [OF assms(1)] by simp
  note fate = stream_fate [OF wf this assms(4) [unfolded pr]]
  show ?thesis
    using fate use c by (auto simp: pr consumed_def)
qed

theorem response_returns_connection_witness:
  "\<exists>h' s' pr pr' t. serve sample_url_Parse (proxy_sample_env (sample_header 200 3)) sample_request
       (proxy_init (0, []) (NewUpstreams sample_url_Parse [])) = Some (h', s') \<and> body_streams h' = [pr] \<and>
     reads (body_stack_Read (proxy_sample_env (sample_header 200 3))) pr [4] s' = ([([], Some EOF)], pr', t) \<and>
     in_use ''http://h'' t = 0"
proof -
  let ?E = "proxy_sample_env (sample_header 200 3)"
  let ?r = "serve sample_url_Parse ?E sample_request (proxy_init (0, []) (NewUpstreams sample_url_Parse []))"
  obtain h' s' where run: "?r = Some (h', s')" and h': "h_upstreamAddress h' = ''http://h''"
    and ne: "body_streams h' \<noteq> []"
    using sample_serve by blast
  obtain pr where pr: "body_streams h' = [pr]" and len: "pr_remain pr = 3"
  proof -
    have "map_option (\<lambda>r. map pr_remain (body_streams (fst r))) ?r = Some [3]"
      by (simp add: serve_eval body_streams_def)
    with run have "map pr_remain (body_streams h') = [3]" by simp
    with that show thesis by (cases "body_streams h'") auto
  qed
  obtain xs pr' t where rd: "reads (body_stack_Read ?E) pr [4] s' = (xs, pr', t)"
    by (metis prod.exhaust)
  have "map_option (\<lambda>r. fst (reads (body_stack_Read ?E) (hd (body_streams (fst r))) [4] (snd r))) ?r =
      Some [([], Some EOF)]"
    by (simp add: serve_eval body_streams_def sample_body_eval)
  with run pr rd have xs: "xs = [([], Some EOF)]" by simp
  have "consumed (pr_remain pr) xs" by (simp add: xs len consumed_def)
  with response_returns_connection [OF proxy_init_wf(1) run pr rd] h' run pr rd xs show ?thesis
    by (auto simp: proxy_init_wf)
qed

section \<open>A sequence of requests\<close>

text \<open>
  One exchange: the request, then the Reads of the server that sends the body to the
  client. A run is a sequence of exchanges, with the handlers as they were left.
\<close>

fun read_streams ::
  "('e, 'x) env_scheme \<Rightarrow> ('e, 'm) proxy_sys_scheme body_stream list \<Rightarrow> nat list
     \<Rightarrow> ('e, 'm) proxy_sys_scheme \<Rightarrow> ('e, 'm) proxy_sys_scheme" where
  "read_streams E [] ns s = s"
| "read_streams E (pr # prs) ns s =
     (case reads (body_stack_Read E) pr ns s of (xs, pr', t) \<Rightarrow> read_streams E prs ns t)"

fun exchanges ::
  "url_parser \<Rightarrow> ('e, 'x) proxy_env_scheme \<Rightarrow> (request \<times> nat list) list \<Rightarrow> ('e, 'm) proxy_sys_scheme
     \<Rightarrow> (('e, 'm) proxy_sys_scheme handler list \<times> ('e, 'm) proxy_sys_scheme) option" where
  "exchanges url_Parse E [] s = Some ([], s)"
| "exchanges url_Parse E ((req, ns) # rest) s =
     (case serve url_Parse E req s of
        None \<Rightarrow> None
      | Some (h, s1) \<Rightarrow>
          (case exchanges url_Parse E rest (read_streams E (body_streams h) ns s1) of
             None \<Rightarrow> None
           | Some (hs, s2) \<Rightarrow> Some (h # hs, s2)))"

definition streamed_to :: "string \<Rightarrow> 's handler \<Rightarrow> bool" where
  "streamed_to a h \<longleftrightarrow> body_streams h \<noteq> [] \<and> h_upstreamAddress h = a"

text \<open>Every response header the upstreams send announces an empty body.\<close>

definition empty_bodies :: "('e, 'x) proxy_env_scheme \<Rightarrow> bool" where
  "empty_bodies E \<longleftrightarrow> (\<forall>br e r. header_Read E br e = Some r \<longrightarrow> rh_ContentLength (snd (fst r)) = 0)"

lemma empty_bodiesD:
  "empty_bodies E \<Longrightarrow> header_Read E br0 e = Some ((err, hdr), br, e') \<Longrightarrow> rh_ContentLength hdr = 0"
  by (fastforce simp: empty_bodies_def)

lemma exchange_empty_body:
  fixes s :: "('e, 'm) proxy_sys_scheme" and E :: "('e, 'x) proxy_env_scheme"
  assumes "pool_wf s" and "empty_bodies E" and "serve url_Parse E req s = Some (h, s1)"
    and t_def: "t = read_streams E (body_streams h) ns s1"
  shows "pool_wf t" "in_use a t = in_use a s + (if streamed_to a h then 1 else 0)"
    "maxUpstreamConnectionsPerHost t = maxUpstreamConnectionsPerHost s"
proof -
  from serve_accounting [OF assms(1,3)] consider
      "body_streams h = []" "pool_wf s1" "\<And>a. in_use a s1 = in_use a s"
    | c br hdr where "body_streams h = [response_stream (h_upstreamAddress h) c br hdr]" "pool_wf s1"
        "rh_ContentLength hdr = 0"
        "\<And>a. in_use a s1 = in_use a s + (if a = h_upstreamAddress h then 1 else 0)"
    using empty_bodiesD [OF assms(2)] by blast
  then have "pool_wf s1 \<and> t = s1 \<and> in_use a s1 = in_use a s + (if streamed_to a h then 1 else 0)"
  proof cases
    case 1
    then show ?thesis by (simp add: streamed_to_def t_def)
  next
    case 2
    have "reads (body_stack_Read E) (response_stream (h_upstreamAddress h) c br hdr) ns s1 =
        (replicate (length ns) ([], Some EOF), response_stream (h_upstreamAddress h) c br hdr, s1)"
      by (induction ns) (simp_all add: pool_Read_exhausted 2(3))
    with 2 show ?thesis by (simp add: streamed_to_def t_def)
  qed
  moreover obtain ok h0 s0 where "resolveUpstream url_Parse E (new_handler req) s = (ok, h0, s0)"
    by (metis prod.exhaust)
  ultimately show "pool_wf t" "in_use a t = in_use a s + (if streamed_to a h then 1 else 0)"
    "maxUpstreamConnectionsPerHost t = maxUpstreamConnectionsPerHost s"
    using serve_settings(1) [OF assms(3)] by simp_all
qed

lemma exchanges_empty_bodies:
  fixes s :: "('e, 'm) proxy_sys_scheme" and E :: "('e, 'x) proxy_env_scheme"
  assumes "pool_wf s" and "empty_bodies E" and "exchanges url_Parse E xs s = Some (hs, t)"
  shows "pool_wf t \<and> maxUpstreamConnectionsPerHost t = maxUpstreamConnectionsPerHost s \<and>
    in_use a t = in_use a s + int (length (filter (streamed_to a) hs))"
  using assms
proof (induction xs arbitrary: s hs)
  case Nil
  then show ?case by simp
next
  case (Cons x xs)
  obtain req ns where x: "x = (req, ns)" by fastforce
  from Cons.prems(3) obtain h s1 hs' where run: "serve url_Parse E req s = Some (h, s1)"
    and rest: "exchanges url_Parse E xs (read_streams E (body_streams h) ns s1) = Some (hs', t)"
    and hs: "hs = h # hs'"
    by (auto simp: x split: option.splits prod.splits)
  note one = exchange_empty_body [where ns = ns, OF Cons.prems(1,2) run refl]
  from Cons.IH [OF one(1) Cons.prems(2) rest] one(2) [of a] one(3) hs show ?case by simp
qed

text \<open>
  C36. Empty responses use an upstream up: if every response header announces
  Content-Length 0, each answered request leaks its connection, so that over any sequence
  of requests, however the bodies are read, at most \<open>maxUpstreamConnectionsPerHost\<close>
  requests to an upstream are ever answered with its response; the connections in use never go down.
\<close>
theorem empty_responses_exhaust_upstream:
  fixes s :: "('e, 'm) proxy_sys_scheme" and E :: "('e, 'x) proxy_env_scheme"
  assumes "pool_wf s" and "empty_bodies E" and "exchanges url_Parse E xs s = Some (hs, t)"
  shows "in_use a t = in_use a s + int (length (filter (streamed_to a) hs)) \<and>
    in_use a s + int (length (filter (streamed_to a) hs)) \<le> maxUpstreamConnectionsPerHost s"
  using exchanges_empty_bodies [OF assms, of a] pool_wf_bounds [of t a] by linarith

theorem empty_responses_exhaust_upstream_witness:
  "\<exists>h t. exchanges sample_url_Parse (proxy_sample_env (sample_header 204 0)) [(sample_request, [4])]
       (proxy_init (0, []) (NewUpstreams sample_url_Parse [])) = Some ([h], t) \<and> in_use ''http://h'' t = 1"
proof -
  let ?E = "proxy_sample_env (sample_header 204 0)"
  let ?s = "proxy_init (0, []) (NewUpstreams sample_url_Parse []) :: sample_state proxy_sys"
  obtain h s' where run: "serve sample_url_Parse ?E sample_request ?s = Some (h, s')"
    and h: "h_upstreamAddress h = ''http://h''" "body_streams h \<noteq> []"
    using sample_serve by blast
  then obtain t where ex: "exchanges sample_url_Parse ?E [(sample_request, [4])] ?s = Some ([h], t)"
    by simp
  have "empty_bodies ?E" by (simp add: empty_bodies_def sample_header_def)
  from empty_responses_exhaust_upstream [OF proxy_init_wf(1) this ex, of "''http://h''"] ex h
  show ?thesis by (simp add: proxy_init_wf streamed_to_def)
qed

section \<open>Which upstream is used\<close>

text \<open>
  C37. With an empty upstream list the first Host wins for ever: the first request with a
  Host adds it to the list, and every later request, whatever host it names, is sent
  to the first one.
\<close>
theorem first_host_captures_all:
  fixes s :: "('e, 'm) proxy_sys_scheme" and E :: "('e, 'x) proxy_env_scheme"
  assumes "rand_in_range E" and "upstreamsObj s = NewUpstreams url_Parse []" and "req_Host r1 \<noteq> []"
    and "serve url_Parse E r1 s = Some (h1, s1)"
    and "upstreamsObj t = upstreamsObj s1" and "serve url_Parse E r2 t = Some (h2, s2)"
  shows "h_upstreamAddress h1 = with_scheme (req_Host r1) \<and>
    h_upstreamAddress h2 = with_scheme (req_Host r1) \<and> upstreamsObj s2 = upstreamsObj s1"
proof -
  let ?a = "with_scheme (req_Host r1)"
  have nil: "ups_keys (upstreamsObj s) = []" by (simp add: assms(2) NewUpstreams_keys)
  obtain ok h0 s0 where res: "resolveUpstream url_Parse E (new_handler r1) s = (ok, h0, s0)"
    by (metis prod.exhaust)
  with resolve_host [of s "new_handler r1" url_Parse E] nil assms(3)
  have r1: "h_upstreamAddress h0 = ?a" "upstreamsObj s0 = Append url_Parse ?a (upstreamsObj s)"
    by (auto split: if_splits)
  note one = serve_settings(3,4) [OF assms(4) res]
  have u1: "upstreamsObj s1 = Append url_Parse ?a (NewUpstreams url_Parse [])"
    using one r1 assms(2) by simp
  note ut = assms(5)
  have keys: "ups_keys (upstreamsObj t) = [Some (stored_upstream url_Parse ?a)]"
    by (simp add: ut u1 Append_def NewUpstreams_m NewUpstreams_keys Let_def)
  have "upstreams_wf (upstreamsObj t)" by (simp add: ut u1 Append_wf NewUpstreams_wf)
  from Random_member [OF assms(1) this, of t] keys
  have pick: "fst (fst (Random E (upstreamsObj t) t)) = Some (stored_upstream url_Parse ?a)"
    by fastforce
  from resolve_configured [of t url_Parse E "new_handler r2"] keys
  have res2: "resolveUpstream url_Parse E (new_handler r2) t =
    (True, (new_handler r2)\<lparr>h_upstreamAddress := up_Address (stored_upstream url_Parse ?a)\<rparr>,
     snd (Random E (upstreamsObj t) t))" by (simp add: pick)
  note two = serve_settings(3,4) [OF assms(6) res2]
  have "upstreamsObj (snd (Random E (upstreamsObj t) t)) = upstreamsObj t"
    using Random_vars [of t E "upstreamsObj t"] by (simp add: same_pools_def)
  with two one r1 ut show ?thesis by (simp add: stored_upstream_address)
qed

theorem first_host_captures_all_witness:
  "\<exists>h1 s1 h2 s2. serve sample_url_Parse silent_env sample_request
       (proxy_init (0, []) (NewUpstreams sample_url_Parse [])) = Some (h1, s1) \<and>
     serve sample_url_Parse silent_env (sample_request\<lparr>req_Host := ''other''\<rparr>) s1 = Some (h2, s2) \<and>
     h_upstreamAddress h2 = ''http://h''"
proof -
  let ?s = "proxy_init (0, []) (NewUpstreams sample_url_Parse []) :: sample_state proxy_sys"
  obtain h1 s1 where one: "serve sample_url_Parse silent_env sample_request ?s = Some (h1, s1)"
    using silent_serve by blast
  have total: "\<exists>h2 s2. serve sample_url_Parse silent_env r t = Some (h2, s2)"
    if "req_BodyStream r = None" for r and t :: "sample_state proxy_sys"
    by (rule serve_total [where m = "\<lambda>e :: sample_state. 0"]) (use that in \<open>simp_all add: writes_all_def upstream_answers_def\<close>)
  obtain h2 s2 where two:
    "serve sample_url_Parse silent_env (sample_request\<lparr>req_Host := ''other''\<rparr>) s1 = Some (h2, s2)"
    using total [of "sample_request\<lparr>req_Host := ''other''\<rparr>" s1] by (auto simp: sample_request_def)
  have rand: "rand_in_range silent_env" by (simp add: rand_in_range_def)
  have "h_upstreamAddress h2 = with_scheme (req_Host sample_request)"
    using first_host_captures_all [OF rand _ _ one refl two]
    by (simp add: proxy_init_def sample_request_def)
  then have "h_upstreamAddress h2 = ''http://h''"
    by (simp add: sample_request_def with_scheme_def HasPrefix_def PrefixHTTP_def PrefixHTTPS_def)
  with one two show ?thesis by blast
qed



section \<open>The reader of a failed response\<close>

text \<open>
  A response whose header cannot be read leaks its bufio.Reader: the reader taken from the
  pool is not put back, and the in-use count is one higher for good, also after the
  connection has been dropped. (A streamed response releases its reader when its body
  has been consumed.)
\<close>
theorem header_error_leaks_reader:
  fixes s :: "('e, 'm) proxy_sys_scheme" and E :: "('e, 'x) proxy_env_scheme"
  assumes "readResponseHeaders E h s = Some (False, h', s')"
  shows "bufIOReaderPoolInUse (CloseAndDropUpstreamConnection E a c s') = bufIOReaderPoolInUse s + 1 \<and>
    length (bufIOReaderPool (CloseAndDropUpstreamConnection E a c s')) \<le> length (bufIOReaderPool s)"
proof -
  have drop: "bufIOReaderPoolInUse (CloseAndDropUpstreamConnection E a c s') = bufIOReaderPoolInUse s'"
    "bufIOReaderPool (CloseAndDropUpstreamConnection E a c s') = bufIOReaderPool s'"
  proof -
    have "pool_sys.more (CloseAndDropUpstreamConnection E a c s') = pool_sys.more s'"
      by (simp add: CloseAndDropUpstreamConnection_def LoadOrStore_def AddCount_def upd_pool_def)
    then show "bufIOReaderPoolInUse (CloseAndDropUpstreamConnection E a c s') = bufIOReaderPoolInUse s'"
      "bufIOReaderPool (CloseAndDropUpstreamConnection E a c s') = bufIOReaderPool s'"
      by (cases "CloseAndDropUpstreamConnection E a c s'", cases s', simp)+
  qed
  from assms obtain br s1 e where get: "AcquireBufIOReader E (the (h_connection h)) s = (br, s1)"
    and s': "s' = (if False then s1\<lparr>ext := e\<rparr> else count_metric ReadErrors (s1\<lparr>ext := e\<rparr>))"
    by (rule readResponseHeaders_cases)
  have used: "bufIOReaderPoolInUse s1 = bufIOReaderPoolInUse s + 1"
    using acquire_reader_used(1) [of E "the (h_connection h)" s] get by simp
  have "length (bufIOReaderPool (snd (AcquireBufIOReader E (the (h_connection h)) s))) \<le>
      length (bufIOReaderPool s)"
    by (auto simp: AcquireBufIOReader_def sync_Get_def Let_def split_beta gauge_defs split: option.split)
  moreover have "bufIOReaderPoolInUse s' = bufIOReaderPoolInUse s1" "bufIOReaderPool s' = bufIOReaderPool s1"
    by (simp_all add: s' count_metric_def)
  ultimately show ?thesis using used drop get by simp
qed

theorem header_error_leaks_reader_witness:
  "\<exists>h' s'. readResponseHeaders silent_env ((new_handler sample_request)\<lparr>h_connection := Some (NetConn 0)\<rparr>)
       (proxy_init (0, []) (NewUpstreams sample_url_Parse [])) = Some (False, h', s') \<and>
     bufIOReaderPoolInUse (CloseAndDropUpstreamConnection silent_env ''http://h'' (NetConn 0) s') = 1"
proof -
  let ?h = "(new_handler sample_request)\<lparr>h_connection := Some (NetConn 0)\<rparr>"
  let ?s = "proxy_init (0, []) (NewUpstreams sample_url_Parse []) :: sample_state proxy_sys"
  have "map_option fst (readResponseHeaders silent_env ?h ?s) = Some False"
    by (simp add: readResponseHeaders_def read_header_def split_beta Let_def)
  then obtain h' s' where run: "readResponseHeaders silent_env ?h ?s = Some (False, h', s')"
    by auto
  from header_error_leaks_reader [OF run, of "''http://h''" "NetConn 0"] run show ?thesis
    by (simp add: proxy_init_def)
qed

end
