(* ===== verification/Startup.thy ===== *)
theory Startup
  imports Proxy Flags
begin

text \<open>
  cmd/proxy/main.go: how the process is set up from its configuration. \<open>os.ReadFile\<close>,
  \<open>AppendCertsFromPEM\<close> and \<open>tls.LoadX509KeyPair\<close> are arguments; the process then listens
  on the addresses of its result. \<open>main\<close>, which only logs, and the listening itself
  belong to the libraries.
\<close>

text \<open>The fields of \<open>fasthttp.Server\<close> that \<open>runWith\<close> sets, apart from the handler.\<close>

record server =
  srv_Concurrency :: int
  srv_DisableHeaderNamesNormalizing :: bool
  srv_DisableKeepalive :: bool
  srv_DisablePreParseMultipartForm :: bool
  srv_GetOnly :: bool
  srv_LogAllErrors :: bool
  srv_MaxConnsPerIP :: int
  srv_MaxRequestBodySize :: int
  srv_MaxRequestsPerConn :: int
  srv_NoDefaultContentType :: bool
  srv_NoDefaultDate :: bool
  srv_NoDefaultServerHeader :: bool
  srv_ReadBufferSize :: int
  srv_ReadTimeout :: int
  srv_ReduceMemoryUsage :: bool
  srv_SecureErrorLogMessage :: bool
  srv_StreamRequestBody :: bool
  srv_WriteBufferSize :: int
  srv_WriteTimeout :: int
  srv_TLSConfig :: "tls_config option"

definition VersionTLS12 :: nat where "VersionTLS12 = 0x0303"

text \<open>
  A loaded key pair is known by its two file names; the zero certificate that
  \<open>make([]tls.Certificate, 1)\<close> and a failed load leave is known by two empty ones.
\<close>

definition constructTLSConfig ::
  "(string \<Rightarrow> string \<Rightarrow> go_error option) \<Rightarrow> Values \<Rightarrow> tls_config \<times> bool" where
  "constructTLSConfig LoadX509KeyPair values =
     (let result = tls_config_zero in
      if v_TLSServerName values = [] then (result, False)
      else if v_TLSServerCertificatePemFile values = [] \<or> v_TLSServerKeyPemFile values = []
      then (result, False)
      else
        (case LoadX509KeyPair (v_TLSServerCertificatePemFile values) (v_TLSServerKeyPemFile values) of
           Some _ \<Rightarrow> (result\<lparr>tls_Certificates := [([], [])]\<rparr>, False)
         | None \<Rightarrow>
             (result\<lparr>tls_Certificates :=
                       [(v_TLSServerCertificatePemFile values, v_TLSServerKeyPemFile values)],
                     tls_ServerName := v_TLSServerName values,
                     tls_InsecureSkipVerify := v_TLSInsecureSkipVerify values,
                     tls_MinVersion := VersionTLS12\<rparr>, True)))"

text \<open>What runs once the set-up is done: the metrics server and the proxy.\<close>

record listening =
  l_MetricsAddr :: string
  l_ProxyAddr :: string
  l_server :: server

record loaders =
  os_ReadFile :: "string \<Rightarrow> go_error + byte list"
  AppendCertsFromPEM :: "byte list \<Rightarrow> bool"
  LoadX509KeyPair :: "string \<Rightarrow> string \<Rightarrow> go_error option"

definition runWith ::
  "url_parser \<Rightarrow> loaders \<Rightarrow> Values \<Rightarrow> ('e, 'm) proxy_sys_scheme
     \<Rightarrow> (tls_error + listening) \<times> ('e, 'm) proxy_sys_scheme" where
  "runWith url_Parse L values s =
     (let s1 = BufferSize (v_IOBuffersSize values) s;
          s2 = HTTPDialerTimeout (v_DialerTimeout values) s1;
          s3 = IdleTimeout (v_IdleTimeout values) s2;
          s4 = MaxConnectionsPerHost (v_MaxConnections values) s3;
          s5 = PipeCopyBufferSize (v_CopyBuffersSize values) s4;
          (err, s6) =
            (if v_TLSEnabled values then
               (case NewTLSConfig (os_ReadFile L) (AppendCertsFromPEM L) values of
                  Inl e \<Rightarrow> (Some e, s5)
                | Inr tlsCfg \<Rightarrow> (None, TLSConfig (Some tlsCfg) s5))
             else (None, s5))
      in case err of
           Some e \<Rightarrow> (Inl e, s6)
         | None \<Rightarrow>
             (let s7 = Handler url_Parse (v_Upstreams values) s6;
                  srv =
                    \<lparr>srv_Concurrency = v_Concurrency values,
                     srv_DisableHeaderNamesNormalizing = v_DisableHeaderNamesNormalizing values,
                     srv_DisableKeepalive = v_DisableKeepalive values,
                     srv_DisablePreParseMultipartForm = v_DisablePreParseMultipartForm values,
                     srv_GetOnly = v_GetOnly values,
                     srv_LogAllErrors = v_LogAllErrors values,
                     srv_MaxConnsPerIP = v_MaxConnectionsPerIP values,
                     srv_MaxRequestBodySize = v_MaxRequestBodySize values,
                     srv_MaxRequestsPerConn = v_MaxRequestsPerConn values,
                     srv_NoDefaultContentType = v_NoDefaultContentType values,
                     srv_NoDefaultDate = v_NoDefaultDate values,
                     srv_NoDefaultServerHeader = v_NoDefaultServerHeader values,
                     srv_ReadBufferSize = v_ReadBufferSize values,
                     srv_ReadTimeout = v_ReadTimeout values,
                     srv_ReduceMemoryUsage = v_ReduceMemoryUsage values,
                     srv_SecureErrorLogMessage = v_SecureErrorLogMessage values,
                     srv_StreamRequestBody = True,
                     srv_WriteBufferSize = v_WriteBufferSize values,
                     srv_WriteTimeout = v_WriteTimeout values,
                     srv_TLSConfig = None\<rparr>;
                  srv1 =
                    (if v_TLSEnabled values then
                       (let (tlsConfig, ok) = constructTLSConfig (LoadX509KeyPair L) values in
                        if ok then srv\<lparr>srv_TLSConfig := Some tlsConfig\<rparr> else srv)
                     else srv)
              in (Inr \<lparr>l_MetricsAddr = v_MetricsAddr values, l_ProxyAddr = v_ProxyAddr values,
                       l_server = srv1\<rparr>, s7)))"

text \<open>
  \<open>run\<close>: the whole start. A fatal error of \<open>ParseFlags\<close> ends the process before
  anything is set; an error of \<open>runWith\<close> is returned to \<open>main\<close>, which ends the process.
\<close>

datatype run_result = Exit fatal | Failed tls_error | Serving listening

definition run ::
  "url_parser \<Rightarrow> (string \<Rightarrow> int option) \<Rightarrow> loaders \<Rightarrow> string list \<Rightarrow> ('e, 'm) proxy_sys_scheme
     \<Rightarrow> run_result \<times> ('e, 'm) proxy_sys_scheme" where
  "run url_Parse parseDuration L args s =
     (case ParseFlags url_Parse parseDuration args of
        Inl e \<Rightarrow> (Exit e, s)
      | Inr values \<Rightarrow>
          (case runWith url_Parse L values s of
             (Inl e, t) \<Rightarrow> (Failed e, t)
           | (Inr l, t) \<Rightarrow> (Serving l, t)))"

text \<open>
  \<open>main\<close>: any error ends the process through \<open>log.Fatal\<close>. Whether and with what error the server
  stops is up to the library: a parameter. The metrics server runs in a goroutine of its own; its error is
  logged and ends that goroutine only.
\<close>

datatype process_end =
    FatalFlags fatal | FatalSetup tls_error | FatalServe go_error | Returned

definition main ::
  "url_parser \<Rightarrow> (string \<Rightarrow> int option) \<Rightarrow> loaders \<Rightarrow> (listening \<Rightarrow> go_error option) \<Rightarrow> string list
     \<Rightarrow> ('e, 'm) proxy_sys_scheme \<Rightarrow> process_end" where
  "main url_Parse parseDuration L ListenAndServe args s =
     (case fst (run url_Parse parseDuration L args s) of
        Exit e \<Rightarrow> FatalFlags e
      | Failed e \<Rightarrow> FatalSetup e
      | Serving l \<Rightarrow> (case ListenAndServe l of Some err \<Rightarrow> FatalServe err | None \<Rightarrow> Returned))"

definition serveMetrics :: "(string \<Rightarrow> go_error option) \<Rightarrow> string \<Rightarrow> (string \<times> go_error) list" where
  "serveMetrics ListenAndServe addr =
     (case ListenAndServe addr of Some err \<Rightarrow> [(''metrics server error: '', err)] | None \<Rightarrow> [])"

section \<open>What the set-up changes\<close>

text \<open>The process ends well only if it has served, with the addresses of the flags, and the server stopped without an error.\<close>

lemma main_returned:
  "main url_Parse pd L ListenAndServe args s = Returned \<longleftrightarrow>
    (\<exists>v l t. ParseFlags url_Parse pd args = Inr v \<and> runWith url_Parse L v s = (Inr l, t) \<and>
      l_ProxyAddr l = v_ProxyAddr v \<and> l_MetricsAddr l = v_MetricsAddr v \<and> ListenAndServe l = None)"
proof -
  have "l_ProxyAddr l = v_ProxyAddr v \<and> l_MetricsAddr l = v_MetricsAddr v"
    if "runWith url_Parse L v s = (Inr l, t)" for v l t
    using that by (auto simp: runWith_def Let_def split_beta split: if_splits sum.splits)
  then show ?thesis
    by (fastforce simp: main_def run_def split: sum.splits prod.splits option.splits)
qed

lemma run_serving:
  assumes "run url_Parse pd L args s = (Serving l, t)"
  obtains v where "ParseFlags url_Parse pd args = Inr v" and "runWith url_Parse L v s = (Inr l, t)"
  using assms by (auto simp: run_def split: sum.splits prod.splits)

lemma settings_sel:
  "maxUpstreamConnectionsPerHost (BufferSize n s) = maxUpstreamConnectionsPerHost s"
  "idleTimeout (BufferSize n s) = idleTimeout s" "upstreamPool (BufferSize n s) = upstreamPool s"
  "pipeCopyBufferSize (BufferSize n s) = pipeCopyBufferSize s" "tlsConfig (BufferSize n s) = tlsConfig s"
  "customDial (BufferSize n s) = customDial s" "upstreamsObj (BufferSize n s) = upstreamsObj s"
  "defaultBufSize (PipeCopyBufferSize n s) = defaultBufSize s"
  "maxUpstreamConnectionsPerHost (PipeCopyBufferSize n s) = maxUpstreamConnectionsPerHost s"
  "idleTimeout (PipeCopyBufferSize n s) = idleTimeout s" "upstreamPool (PipeCopyBufferSize n s) = upstreamPool s"
  "tlsConfig (PipeCopyBufferSize n s) = tlsConfig s" "customDial (PipeCopyBufferSize n s) = customDial s"
  "upstreamsObj (PipeCopyBufferSize n s) = upstreamsObj s"
  for s :: "('e, 'm) proxy_sys_scheme"
  by (simp_all add: BufferSize_def PipeCopyBufferSize_def set_gauge_def)

lemma runWith_ok:
  fixes s :: "('e, 'm) proxy_sys_scheme"
  assumes "runWith url_Parse L v s = (Inr l, t)"
  shows "maxUpstreamConnectionsPerHost t =
           (if v_MaxConnections v < 1 then maxUpstreamConnectionsPerHost s else v_MaxConnections v)"
    and "idleTimeout t = (if v_IdleTimeout v < Second then idleTimeout s else v_IdleTimeout v)"
    and "defaultBufSize t = (if v_IOBuffersSize v < 64 then defaultBufSize s else v_IOBuffersSize v)"
    and "pipeCopyBufferSize t =
           (if v_CopyBuffersSize v < 256 then pipeCopyBufferSize s else v_CopyBuffersSize v)"
    and "customDial t = Some (FasthttpHTTPDialerDualStackTimeout [] (v_DialerTimeout v))"
    and "upstreamPool t = upstreamPool s"
    and "upstreamsObj t = NewUpstreams url_Parse (v_Upstreams v)"
    and "if v_TLSEnabled v
         then \<exists>cfg. NewTLSConfig (os_ReadFile L) (AppendCertsFromPEM L) v = Inr cfg \<and> tlsConfig t = Some cfg
         else tlsConfig t = tlsConfig s"
  using assms
  by (auto simp: runWith_def Let_def Handler_def TLSConfig_def MaxConnectionsPerHost_def IdleTimeout_def
      HTTPDialerTimeout_def settings_sel BufferSize_def PipeCopyBufferSize_def set_gauge_def
      split: if_splits sum.splits)

text \<open>
  C33. Starting the proxy installs the configuration and its minima: a limit below 1, an
  idle timeout below a second, buffers below 64 and 256 bytes leave the previous setting in
  force, any other value is installed; the dialer has the configured timeout and the upstreams are the configured
  ones. No connection pool is touched. With upstream TLS enabled the TLS configuration made of the
  values is installed, and the start fails if there is none.
\<close>
theorem startup_installs_settings:
  fixes s :: "('e, 'm) proxy_sys_scheme"
  assumes "runWith url_Parse L v s = (r, t)"
  shows "upstreamPool t = upstreamPool s \<and>
    maxUpstreamConnectionsPerHost t =
      (if v_MaxConnections v < 1 then maxUpstreamConnectionsPerHost s else v_MaxConnections v) \<and>
    idleTimeout t = (if v_IdleTimeout v < Second then idleTimeout s else v_IdleTimeout v) \<and>
    defaultBufSize t = (if v_IOBuffersSize v < 64 then defaultBufSize s else v_IOBuffersSize v) \<and>
    pipeCopyBufferSize t =
      (if v_CopyBuffersSize v < 256 then pipeCopyBufferSize s else v_CopyBuffersSize v) \<and>
    customDial t = Some (FasthttpHTTPDialerDualStackTimeout [] (v_DialerTimeout v)) \<and>
    (case r of
       Inl e \<Rightarrow> v_TLSEnabled v \<and> NewTLSConfig (os_ReadFile L) (AppendCertsFromPEM L) v = Inl e \<and>
         upstreamsObj t = upstreamsObj s \<and> tlsConfig t = tlsConfig s
     | Inr l \<Rightarrow> upstreamsObj t = NewUpstreams url_Parse (v_Upstreams v) \<and>
         (if v_TLSEnabled v
          then \<exists>cfg. NewTLSConfig (os_ReadFile L) (AppendCertsFromPEM L) v = Inr cfg \<and> tlsConfig t = Some cfg
          else tlsConfig t = tlsConfig s))"
proof (cases r)
  case (Inr l)
  with runWith_ok [of url_Parse L v s l t] assms show ?thesis by simp
next
  case (Inl e)
  with assms show ?thesis
    by (auto simp: runWith_def Let_def MaxConnectionsPerHost_def IdleTimeout_def
        HTTPDialerTimeout_def settings_sel BufferSize_def PipeCopyBufferSize_def set_gauge_def
        split: if_splits sum.splits)
qed

definition no_files :: loaders where
  "no_files = \<lparr>os_ReadFile = (\<lambda>f. Inl (OtherError ''no such file'')), AppendCertsFromPEM = (\<lambda>p. True),
     LoadX509KeyPair = (\<lambda>c k. Some (OtherError ''no such file''))\<rparr>"

theorem startup_installs_settings_witness:
  "\<exists>r t. runWith sample_url_Parse no_files (default_values\<lparr>v_MaxConnections := 0\<rparr>)
       (proxy_init ((0, []) :: sample_state) (NewUpstreams sample_url_Parse [])) = (r, t) \<and>
     maxUpstreamConnectionsPerHost t = 100 \<and> idleTimeout t = 45 * Second"
proof -
  obtain r t where run: "runWith sample_url_Parse no_files (default_values\<lparr>v_MaxConnections := 0\<rparr>)
       (proxy_init ((0, []) :: sample_state) (NewUpstreams sample_url_Parse [])) = (r, t)" by fastforce
  have "maxUpstreamConnectionsPerHost t = 100" "idleTimeout t = 45 * Second"
    using startup_installs_settings [OF run]
    by (simp_all add: default_values_def proxy_init_def Second_def)
  with run show ?thesis by blast
qed

text \<open>
  The server is given a TLS configuration exactly when the \<^emph>\<open>upstream\<close> TLS flag is on, a server name, a
  certificate and a key file are given and the pair loads; then it has that certificate and asks for at least TLS 1.2. In
  every other case it has none. The flag meant for it, \<open>--tls-server-enabled\<close>, has no
  influence at all on what is run.
\<close>
theorem server_tls_flag_ignored:
  fixes s :: "('e, 'm) proxy_sys_scheme"
  assumes "runWith url_Parse L v s = (Inr l, t)"
  shows "runWith url_Parse L (v\<lparr>v_TLSServerEnabled := b\<rparr>) s = (Inr l, t) \<and>
    (if v_TLSEnabled v \<and> v_TLSServerName v \<noteq> [] \<and> v_TLSServerCertificatePemFile v \<noteq> [] \<and>
        v_TLSServerKeyPemFile v \<noteq> [] \<and>
        LoadX509KeyPair L (v_TLSServerCertificatePemFile v) (v_TLSServerKeyPemFile v) = None
     then \<exists>cfg. srv_TLSConfig (l_server l) = Some cfg \<and> tls_MinVersion cfg = 0x0303 \<and>
       tls_Certificates cfg = [(v_TLSServerCertificatePemFile v, v_TLSServerKeyPemFile v)] \<and>
       tls_ServerName cfg = v_TLSServerName v
     else srv_TLSConfig (l_server l) = None)"
proof -
  have "runWith url_Parse L (v\<lparr>v_TLSServerEnabled := b\<rparr>) s = runWith url_Parse L v s"
    by (cases v) (simp only: runWith_def NewTLSConfig_def constructTLSConfig_def Values.simps)
  moreover have "srv_TLSConfig (l_server l) =
      (if v_TLSEnabled v \<and> snd (constructTLSConfig (LoadX509KeyPair L) v)
       then Some (fst (constructTLSConfig (LoadX509KeyPair L) v)) else None)"
    using assms by (auto simp: runWith_def Let_def split_beta split: if_splits sum.splits)
  ultimately show ?thesis
    using assms by (auto simp: constructTLSConfig_def VersionTLS12_def Let_def split: option.splits)
qed

theorem server_tls_flag_ignored_witness:
  "\<exists>l t. runWith sample_url_Parse no_files (default_values\<lparr>v_TLSServerEnabled := True\<rparr>)
       (proxy_init ((0, []) :: sample_state) (NewUpstreams sample_url_Parse [])) = (Inr l, t) \<and>
     srv_TLSConfig (l_server l) = None"
proof -
  let ?s = "proxy_init ((0, []) :: sample_state) (NewUpstreams sample_url_Parse [])"
  have "\<exists>l t. runWith sample_url_Parse no_files default_values ?s = (Inr l, t)"
    by (simp add: runWith_def default_values_def Let_def)
  then obtain l t where run: "runWith sample_url_Parse no_files default_values ?s = (Inr l, t)" by blast
  have "\<not> v_TLSEnabled default_values" by (simp add: default_values_def)
  with server_tls_flag_ignored [OF run, of True]
  have "runWith sample_url_Parse no_files (default_values\<lparr>v_TLSServerEnabled := True\<rparr>) ?s = (Inr l, t)"
    "srv_TLSConfig (l_server l) = None" by simp_all
  then show ?thesis by blast
qed

end
