(* ===== verification/Service.thy ===== *)
theory Service
  imports Startup
begin

text \<open>
  The proxy in service: any sequence of exchanges after a start. What every exchange keeps
  (the settings, the configured upstreams), and the pools of a proxy just started.
\<close>

section \<open>What reading a response keeps\<close>

text \<open>The cleanup of the body streams that the handler makes.\<close>

definition releases_reader :: "('e, 'm) proxy_sys_scheme body_stream \<Rightarrow> bool" where
  "releases_reader pr \<longleftrightarrow> pr_onDone pr = Some (\<lambda>r. ReleaseBufIOReader (tr_reader r))"

lemma response_releases: "releases_reader (response_stream addr c br hdr)"
  by (simp add: releases_reader_def response_stream_def NewPoolReader_def)

lemma releases_cleanup_ok: "releases_reader pr \<Longrightarrow> cleanup_ok pr"
  by (simp add: releases_reader_def cleanup_ok_def ReleaseBufIOReader_def gauge_defs)

lemma pool_Read_onDone: "pr_onDone (fst (snd (pool_Read E rd pr n s))) = pr_onDone pr"
proof (cases "pr_remain pr = 0")
  case True
  then show ?thesis by (simp add: pool_Read_exhausted)
next
  case False
  obtain b err r s1 where rd: "rd (pr_reader pr) (limited pr n) s = ((b, err), r, s1)"
    by (metis prod.exhaust)
  from pool_Read_eq [where E = E and rd = rd and pr = pr, OF False rd] show ?thesis by simp
qed

lemma pool_Read_releases:
  "releases_reader pr \<Longrightarrow> body_stack_Read E pr n s = (x, pr', t) \<Longrightarrow> releases_reader pr'"
  using pool_Read_onDone [of E "timed_Read E (bufio_Read E)" pr n s] by (simp add: releases_reader_def)

lemma give_back_upstreams:
  fixes s :: "('e, 'm) proxy_sys_scheme"
  shows "upstreamsObj (give_back E pr s) = upstreamsObj s"
    "maxUpstreamConnectionsPerHost (give_back E pr s) = maxUpstreamConnectionsPerHost s"
proof -
  have "pool_sys.more (give_back E pr s) = pool_sys.more s"
    by (simp add: give_back_def ReleaseUpstreamConnection_def CloseAndDropUpstreamConnection_def
        LoadOrStore_def Let_def split_beta call_simps AddCount_def upd_pool_def)
  then show "upstreamsObj (give_back E pr s) = upstreamsObj s"
    by (cases "give_back E pr s", cases s) simp
  show "maxUpstreamConnectionsPerHost (give_back E pr s) = maxUpstreamConnectionsPerHost s"
    by (simp add: give_back_def ReleaseUpstreamConnection_def CloseAndDropUpstreamConnection_def
        LoadOrStore_def Let_def split_beta frame_simps)
qed

lemma stream_reads_keep:
  fixes s :: "('e, 'm) proxy_sys_scheme"
  assumes "releases_reader pr" and "reads (body_stack_Read E) pr ns s = (xs, pr', t)"
  shows "upstreamsObj t = upstreamsObj s \<and>
    maxUpstreamConnectionsPerHost t = maxUpstreamConnectionsPerHost s"
proof -
  let ?g = "\<lambda>s :: ('e, 'm) proxy_sys_scheme. (upstreamsObj s, maxUpstreamConnectionsPerHost s)"
  have "?g t = ?g s"
  proof (rule reads_keep [where g = ?g, OF _ _ _ assms(2)])
    fix r n and s :: "('e, 'm) proxy_sys_scheme"
    show "?g (snd (snd (timed_Read E (bufio_Read E) r n s))) = ?g s"
      using same_pools_pool_at(6,8) [OF same_pools_of_more [OF timed_body.keeps_pools [of E r n s]]] by simp
  next
    fix f :: "bufio_reader timed_reader \<Rightarrow> ('e, 'm) proxy_sys_scheme \<Rightarrow> ('e, 'm) proxy_sys_scheme"
      and r and s :: "('e, 'm) proxy_sys_scheme"
    assume "pr_onDone pr = Some f"
    then have "f r s = ReleaseBufIOReader (tr_reader r) s"
      using assms(1) by (simp add: releases_reader_def)
    then show "?g (f r s) = ?g s"
      using same_pools_pool_at(6,8) [OF bufio_ops_same_pools(4) [of s "tr_reader r"]] by simp
  qed (simp add: give_back_upstreams)
  then show ?thesis by simp
qed

lemmas response_reads_keep = stream_reads_keep [OF response_releases]

text \<open>Every body stream of a served request reads the connection of its upstream.\<close>

lemma serve_streams:
  fixes s :: "('e, 'm) proxy_sys_scheme" and E :: "('e, 'x) proxy_env_scheme"
  assumes "serve url_Parse E req s = Some (h', s')"
  obtains "body_streams h' = []"
  | c br hdr where "body_streams h' = [response_stream (h_upstreamAddress h') c br hdr]"
  using assms
proof (cases rule: serve_cases)
  case no_upstream
  from resolve_frame(9) [OF this] show ?thesis using that by (simp add: body_streams_def)
next
  case (no_connection h1 s1 err s2)
  from no_connection(3) resolve_frame(8) [OF no_connection(1)] show ?thesis
    using that by (auto simp: body_streams_def)
next
  case (failed h1 s1 c s2 s3)
  from answers_502_client [OF failed(6)] resolve_frame(8) [OF failed(1)] show ?thesis
    using that by (auto simp: body_streams_def)
next
  case (streams h1 s1 c s2 h3 s3 h4 s4 h5 s5 br hdr)
  have "h_connection h5 = Some c" using same_requestD [OF streams(3)] by simp
  note resp = streamed_response [OF streams(7,8) this streams(9)]
  have "body_streams h5 = []"
    using client_of_resp [OF streams(6)] resolve_frame(8) [OF streams(1)]
    by (auto simp: body_streams_def)
  with resp(2,5) show ?thesis using that by simp
qed

section \<open>One exchange, many exchanges\<close>

lemma exchange_upstreams:
  fixes s :: "('e, 'm) proxy_sys_scheme" and E :: "('e, 'x) proxy_env_scheme"
  assumes "serve url_Parse E req s = Some (h, s1)"
  shows "upstreamsObj (read_streams E (body_streams h) ns s1) = upstreamsObj s1"
  using assms
proof (cases rule: serve_streams)
  case (2 c br hdr)
  obtain xs pr' t where
    "reads (body_stack_Read E) (response_stream (h_upstreamAddress h) c br hdr) ns s1 = (xs, pr', t)"
    by (metis prod.exhaust)
  with response_reads_keep [OF this] 2 show ?thesis by simp
qed simp

lemma exchanges_Cons:
  fixes s :: "('e, 'm) proxy_sys_scheme" and E :: "('e, 'x) proxy_env_scheme"
  assumes "exchanges url_Parse E ((req, ns) # xs) s = Some (hs, t)"
  obtains h s1 hs' where "serve url_Parse E req s = Some (h, s1)"
    and "exchanges url_Parse E xs (read_streams E (body_streams h) ns s1) = Some (hs', t)"
    and "hs = h # hs'"
  using assms by (auto split: option.splits prod.splits)

text \<open>With upstreams configured, requests go to them and leave the list as it is.\<close>

lemma exchanges_upstreams:
  fixes s :: "('e, 'm) proxy_sys_scheme" and E :: "('e, 'x) proxy_env_scheme"
  assumes "rand_in_range E" and "upstreamsObj s = NewUpstreams url_Parse ups" and "ups \<noteq> []"
    and "exchanges url_Parse E xs s = Some (hs, t)"
  shows "upstreamsObj t = NewUpstreams url_Parse ups \<and>
    (\<forall>h \<in> set hs. h_upstreamAddress h \<in> (\<lambda>a. up_Address (stored_upstream url_Parse a)) ` set ups)"
  using assms(2,4)
proof (induction xs arbitrary: s hs)
  case Nil
  then show ?case by simp
next
  case (Cons x xs)
  obtain req ns where x: "x = (req, ns)" by fastforce
  from Cons.prems(2) [unfolded x] obtain h s1 hs' where run: "serve url_Parse E req s = Some (h, s1)"
    and rest: "exchanges url_Parse E xs (read_streams E (body_streams h) ns s1) = Some (hs', t)"
    and hs: "hs = h # hs'" by (rule exchanges_Cons)
  have ne: "ups_keys (upstreamsObj s) \<noteq> []"
    using assms(3) by (simp add: Cons.prems(1) NewUpstreams_keys)
  have "upstreams_wf (upstreamsObj s)" by (simp add: Cons.prems(1) NewUpstreams_wf)
  from Random_member [OF assms(1) this ne, of s] obtain up where
    pick: "fst (Random E (upstreamsObj s) s) = (Some up, True)"
    and up: "Some up \<in> set (ups_keys (upstreamsObj s))" by blast
  note set = serve_settings(3,4) [OF run resolve_configured [OF ne]]
  have "upstreamsObj (snd (Random E (upstreamsObj s) s)) = upstreamsObj s"
    using Random_vars [of s E "upstreamsObj s"] by (simp add: same_pools_def)
  then have s1: "upstreamsObj s1 = NewUpstreams url_Parse ups" using set(1) Cons.prems(1) by simp
  have "h_upstreamAddress h = up_Address up" using set(2) pick by simp
  then have "h_upstreamAddress h \<in> (\<lambda>a. up_Address (stored_upstream url_Parse a)) ` set ups"
    using up by (auto simp: Cons.prems(1) NewUpstreams_keys)
  with Cons.IH [OF _ rest] exchange_upstreams [OF run] s1 hs show ?case by simp
qed

section \<open>From the start\<close>

lemma pool_wf_init:
  assumes "upstreamPool s = (\<lambda>_. None)" and "1 \<le> maxUpstreamConnectionsPerHost s"
    and "maxUpstreamConnectionsPerHost s < 2 ^ 31"
  shows "pool_wf s" "in_use a s = 0" "idle_list a s = []"
  using assms
  by (simp_all add: pool_wf_def in_use_def slots_def idle_list_def pool_at_def connPool_zero_def)

lemma started_pools:
  assumes "runWith url_Parse L v (proxy_init e ups0) = (Inr l, s)" and "v_MaxConnections v < 2 ^ 31"
  shows "pool_wf s" "in_use a s = 0"
    "maxUpstreamConnectionsPerHost s = (if v_MaxConnections v < 1 then 100 else v_MaxConnections v)"
    "idle_list a s = []"
proof -
  note ok = runWith_ok [OF assms(1)]
  show max: "maxUpstreamConnectionsPerHost s = (if v_MaxConnections v < 1 then 100 else v_MaxConnections v)"
    using ok(1) by (simp add: proxy_init_def)
  have "upstreamPool s = (\<lambda>_. None)" using ok(6) by (simp add: proxy_init_def)
  from pool_wf_init [OF this] show "pool_wf s" "in_use a s = 0" "idle_list a s = []"
    using max assms(2) by simp_all
qed

end
