(* ===== verification/Interleaving.thy ===== *)
theory Interleaving
  imports Service
begin

text \<open>
  Many clients at once: requests are served and the bodies of their responses are read in
  any order, one handler or one Read at a time. A state is the list of the body
  streams handed to the server so far and the state of the proxy.
\<close>

datatype proxy_op = Request request | ClientRead nat nat

fun proxy_step ::
  "url_parser \<Rightarrow> ('e, 'x) proxy_env_scheme \<Rightarrow> proxy_op
     \<Rightarrow> ('e, 'm) proxy_sys_scheme body_stream list \<times> ('e, 'm) proxy_sys_scheme
     \<Rightarrow> (('e, 'm) proxy_sys_scheme body_stream list \<times> ('e, 'm) proxy_sys_scheme) option" where
  "proxy_step url_Parse E (Request req) (prs, s) =
     (case serve url_Parse E req s of
        None \<Rightarrow> None
      | Some (h, s1) \<Rightarrow> Some (prs @ body_streams h, s1))"
| "proxy_step url_Parse E (ClientRead i n) (prs, s) =
     (if i < length prs then
        (case body_stack_Read E (prs ! i) n s of (x, pr', s1) \<Rightarrow> Some (prs[i := pr'], s1))
      else Some (prs, s))"

fun proxy_run ::
  "url_parser \<Rightarrow> ('e, 'x) proxy_env_scheme \<Rightarrow> proxy_op list
     \<Rightarrow> ('e, 'm) proxy_sys_scheme body_stream list \<times> ('e, 'm) proxy_sys_scheme
     \<Rightarrow> (('e, 'm) proxy_sys_scheme body_stream list \<times> ('e, 'm) proxy_sys_scheme) option" where
  "proxy_run url_Parse E [] st = Some st"
| "proxy_run url_Parse E (op # ops) st =
     (case proxy_step url_Parse E op st of None \<Rightarrow> None | Some st1 \<Rightarrow> proxy_run url_Parse E ops st1)"

section \<open>A connection in use is held by an open stream\<close>

definition holds :: "string \<Rightarrow> ('r, 's) pool_reader \<Rightarrow> bool" where
  "holds a pr \<longleftrightarrow> pr_upstreamAddr pr = a \<and> \<not> pr_returned pr"

definition open_streams :: "string \<Rightarrow> ('r, 's) pool_reader list \<Rightarrow> int" where
  "open_streams a prs = int (length (filter (holds a) prs))"

lemma open_streams_simps [simp]:
  "open_streams a [] = 0"
  "open_streams a (prs @ qs) = open_streams a prs + open_streams a qs"
  "open_streams a [pr] = (if holds a pr then 1 else 0)"
  by (simp_all add: open_streams_def)

lemma open_streams_nth:
  assumes "i < length prs"
  shows "open_streams a (prs[i := pr]) =
    open_streams a prs - (if holds a (prs ! i) then 1 else 0) + (if holds a pr then 1 else 0)"
proof -
  have "prs = take i prs @ [prs ! i] @ drop (Suc i) prs" using assms by (simp add: id_take_nth_drop)
  then have "open_streams a prs =
      open_streams a (take i prs) + open_streams a [prs ! i] + open_streams a (drop (Suc i) prs)"
    by (metis open_streams_simps(2) add.assoc)
  moreover have "prs[i := pr] = take i prs @ [pr] @ drop (Suc i) prs"
    using assms by (simp add: upd_conv_take_nth_drop)
  then have "open_streams a (prs[i := pr]) =
      open_streams a (take i prs) + open_streams a [pr] + open_streams a (drop (Suc i) prs)"
    by (metis open_streams_simps(2) add.assoc)
  ultimately show ?thesis by simp
qed

lemma open_streams_pos: "i < length prs \<Longrightarrow> holds a (prs ! i) \<Longrightarrow> 1 \<le> open_streams a prs"
  by (auto simp: open_streams_def Suc_le_eq filter_empty_conv intro!: int_one_le_iff_zero_less [THEN iffD2]
      intro: bexI [OF _ nth_mem])

definition accounted :: "('e, 'm) proxy_sys_scheme body_stream list \<times> ('e, 'm) proxy_sys_scheme \<Rightarrow> bool" where
  "accounted st \<longleftrightarrow> pool_wf (snd st) \<and> (\<forall>pr \<in> set (fst st). releases_reader pr) \<and>
     (\<forall>a. in_use a (snd st) = open_streams a (fst st))"

lemma step_accounted:
  assumes "accounted (prs, s)" and "proxy_step url_Parse E op (prs, s) = Some (prs', s')"
  shows "accounted (prs', s') \<and> maxUpstreamConnectionsPerHost s' = maxUpstreamConnectionsPerHost s"
proof (cases op)
  case (Request req)
  with assms(2) obtain h where run: "serve url_Parse E req s = Some (h, s')"
    and prs': "prs' = prs @ body_streams h" by (auto split: option.splits)
  obtain ok h0 s0 where "resolveUpstream url_Parse E (new_handler req) s = (ok, h0, s0)"
    by (metis prod.exhaust)
  note max = serve_settings(1) [OF run this]
  have wf: "pool_wf s" using assms(1) by (simp add: accounted_def)
  from serve_accounting [OF wf run] consider
      "body_streams h = []" "pool_wf s'" "\<And>a. in_use a s' = in_use a s"
    | c br hdr where "body_streams h = [response_stream (h_upstreamAddress h) c br hdr]" "pool_wf s'"
        "\<And>a. in_use a s' = in_use a s + (if a = h_upstreamAddress h then 1 else 0)"
    by blast
  then show ?thesis
    using assms(1) max prs' by cases (auto simp: accounted_def holds_def response_releases)
next
  case (ClientRead i n)
  show ?thesis
  proof (cases "i < length prs")
    case False
    with assms ClientRead show ?thesis by simp
  next
    case True
    obtain b err pr' where rd: "body_stack_Read E (prs ! i) n s = ((b, err), pr', s')"
      and prs': "prs' = prs[i := pr']"
      using assms(2) ClientRead True by (auto split: prod.splits)
    have rel: "releases_reader (prs ! i)" and wf: "pool_wf s"
      and acc: "\<And>a. in_use a s = open_streams a prs"
      using assms(1) True by (auto simp: accounted_def)
    have use: "pr_returned (prs ! i) \<or> 1 \<le> in_use (pr_upstreamAddr (prs ! i)) s"
      using open_streams_pos [OF True, of "pr_upstreamAddr (prs ! i)"] acc by (auto simp: holds_def)
    note step = timed_body.pool_Read_step [OF rd releases_cleanup_ok [OF rel] wf use]
    have "in_use a s' = open_streams a prs'" for a
      using step(9) [of a] step(4,7) acc [of a]
      unfolding prs' open_streams_nth [OF True] holds_def by auto
    moreover have "\<forall>pr \<in> set prs'. releases_reader pr"
      using assms(1) pool_Read_releases [OF rel rd] set_update_subset_insert [of prs i pr']
      by (auto simp: accounted_def prs')
    moreover have "reads (body_stack_Read E) (prs ! i) [n] s = ([(b, err)], pr', s')" using rd by simp
    from stream_reads_keep [OF rel this] have
      "maxUpstreamConnectionsPerHost s' = maxUpstreamConnectionsPerHost s" by simp
    ultimately show ?thesis using step(8) by (simp add: accounted_def)
  qed
qed

lemma run_accounted:
  assumes "accounted (prs, s)" and "proxy_run url_Parse E ops (prs, s) = Some (prs', s')"
  shows "accounted (prs', s') \<and> maxUpstreamConnectionsPerHost s' = maxUpstreamConnectionsPerHost s"
  using assms
proof (induction ops arbitrary: prs s)
  case Nil
  then show ?case by simp
next
  case (Cons op ops)
  from Cons.prems(2) obtain prs1 s1 where one: "proxy_step url_Parse E op (prs, s) = Some (prs1, s1)"
    and rest: "proxy_run url_Parse E ops (prs1, s1) = Some (prs', s')"
    by (auto split: option.splits)
  from step_accounted [OF Cons.prems(1) one] Cons.IH [OF _ rest] show ?case by simp
qed

end
