(* ===== verification/Frames.thy ===== *)
theory Frames
  imports Interleaving
begin

text \<open>
  What the operations of the proxy do to the outside world. A relation that every call
  of it respects, the calls on some connections excepted, is respected by every operation
  that works on the others. Sockets (no socket is dialled twice) and Responses (nobody reads
  from the connection of another) are instances.
\<close>

section \<open>The calls\<close>

text \<open>
  \<open>R e f\<close>: the outside world has come from \<open>e\<close> to \<open>f\<close>. \<open>P c\<close>: connection \<open>c\<close> may be read from and
  written to.
\<close>

locale call_frame =
  fixes E :: "('e, 'x) env_scheme" and R :: "'e \<Rightarrow> 'e \<Rightarrow> bool" and P :: "net_conn \<Rightarrow> bool"
  assumes frame_refl: "R e e"
    and frame_trans: "R e f \<Longrightarrow> R f g \<Longrightarrow> R e g"
    and frame_call: "R e (snd (time_Now E e))" "R e (snd (rand_Intn E n e))" "R e (snd (dial_call E df a e))"
      "R e (snd (conn_Close E c e))" "R e (snd (body_Read E i n e))" "R e (snd (pool_Get E n e))"
    and frame_io: "P c \<Longrightarrow> R e (snd (conn_Write E c b e))" "P c \<Longrightarrow> R e (snd (conn_Read E c n e))"
begin

lemma keeps_call:
  "R (ext s) (ext (snd (now E s)))" "R (ext s) (ext (snd (net_dial E f a s)))"
  "R (ext s) (ext (snd (net_Close E c s)))" "R (ext s) (ext (snd (stream_Read E i n s)))"
  "R (ext s) (ext (snd (snd (sync_Get E xs s))))" "R (ext s) (ext (snd (Random E u s)))"
  "P c \<Longrightarrow> R (ext s) (ext (snd (net_Write E c b s)))" "P c \<Longrightarrow> R (ext s) (ext (snd (net_Read E c n s)))"
  by (simp_all add: frame_refl frame_call frame_io now_def net_dial_def net_Close_def net_Write_def
      net_Read_def stream_Read_def sync_Get_def Random_def split_beta split: option.split)

lemma keeps_then: "R e (ext s) \<Longrightarrow> R (ext s) (ext t) \<Longrightarrow> ext t' = ext t \<Longrightarrow> R e (ext t')"
  using frame_trans by simp

section \<open>The pools\<close>

lemma keeps_close: "R (ext s) (ext (close_counted E c s))"
  using keeps_call(3) [of s c]
  by (simp add: close_counted_def split_beta count_metric_def split: option.split)

lemma keeps_give_back:
  "R (ext s) (ext (ReleaseUpstreamConnection E a c s))"
  "R (ext s) (ext (CloseAndDropUpstreamConnection E a c s))"
proof -
  have close: "R (ext s) (ext (close_counted E c (AddCount a (-1) (upd_pool a id s))))"
    using keeps_close [of "AddCount a (-1) (upd_pool a id s)" c] by simp
  moreover have "R (ext s) (ext (snd (now E (upd_pool a id s))))"
    using keeps_call(1) [of "upd_pool a id s"] by simp
  ultimately show "R (ext s) (ext (ReleaseUpstreamConnection E a c s))"
    by (simp add: ReleaseUpstreamConnection_def LoadOrStore_def Let_def split_beta)
  from close show "R (ext s) (ext (CloseAndDropUpstreamConnection E a c s))"
    by (simp add: CloseAndDropUpstreamConnection_def LoadOrStore_def)
qed

lemma keeps_dialNew: "R (ext s) (ext (snd (dialNew E a s)))"
proof -
  have "R (ext s) (ext (snd (dial E a (AddCount a 1 s))))" by (simp add: dial_snd frame_call)
  then show ?thesis by (simp add: dialNew_def Let_def split_beta frame_refl split: sum.split)
qed

lemma keeps_dropped_stale: "R (ext s) (ext (dropped_stale E a s))"
proof -
  let ?s1 = "upd_pool a (\<lambda>cp. cp\<lparr>cp_free := butlast (cp_free cp)\<rparr>) (upd_pool a id s)"
  let ?s2 = "count_metric IdleDropErrors (snd (now E ?s1))"
  let ?s3 = "snd (now E ?s2)"
  have "R (ext s) (ext ?s2)" using keeps_call(1) [of ?s1] by (simp add: count_metric_def)
  from frame_trans [OF this frame_trans [OF keeps_call(1)
        keeps_close [of ?s3 "idle_conn (last (idle_list a s))"]]]
  show ?thesis by (simp add: dropped_stale_def)
qed

lemma keeps_acquire: "R (ext s) (ext (snd (AcquireUpstreamConnection E a s)))"
proof (cases "idle_list a s = []")
  case True
  with keeps_dialNew [of "upd_pool a id s" a] show ?thesis by (simp add: acquire_empty)
next
  case False
  with frame_trans [OF keeps_dropped_stale keeps_dialNew [of "dropped_stale E a s" a]] frame_call(1) show ?thesis
    by (cases "fst (time_Now E (ext s)) - returnedAt (last (idle_list a s)) \<le> idleTimeout s")
      (simp_all add: acquire_reuse acquire_stale)
qed

section \<open>Buffered readers and writers\<close>

lemma keeps_bufio:
  "R (ext s) (ext (snd (AcquireBufIOWriter E c s)))" "R (ext s) (ext (snd (AcquireBufIOReader E c s)))"
  "R (ext s) (ext (ReleaseBufIOWriter bw s))" "R (ext s) (ext (ReleaseBufIOReader br s))"
  using keeps_call(5) [of s "bufIOWriterPool s"] keeps_call(5) [of s "bufIOReaderPool s"]
  by (simp_all add: AcquireBufIOWriter_def AcquireBufIOReader_def ReleaseBufIOWriter_def
      ReleaseBufIOReader_def Let_def split_beta gauge_defs frame_refl split: option.split)

lemma keeps_Flush: "P (bw_dst bw) \<Longrightarrow> R (ext s) (ext (snd (snd (bufio_Flush E bw s))))"
  using keeps_call(7) [of "bw_dst bw" s "bw_buf bw"]
  by (simp add: bufio_Flush_def Let_def split_beta frame_refl split: option.split)

lemma Flush_dst: "bw_dst (fst (snd (bufio_Flush E bw s))) = bw_dst bw"
  by (simp add: bufio_Flush_def Let_def split_beta split: option.split)

lemma keeps_Write:
  fixes s :: "('e, 'm) sys_scheme"
  assumes "bufio_Write E bw p s = Some (r, bw', s')" and "P (bw_dst bw)"
  shows "R (ext s) (ext s') \<and> bw_dst bw' = bw_dst bw"
proof -
  let ?Q = "\<lambda>E' bw p s res. E' = E \<longrightarrow> P (bw_dst bw) \<longrightarrow>
    R (ext s) (ext (snd (snd res))) \<and> bw_dst (fst (snd res)) = bw_dst bw"
  have "?Q E bw p s res" if "bufio_Write E bw p s = Some res" for res
  proof (rule bufio_Write.raw_induct [where P = ?Q, OF _ that], intro impI)
    fix loop :: "('e, 'x) env_scheme \<Rightarrow> bufio_writer \<Rightarrow> byte list \<Rightarrow> ('e, 'm) sys_scheme
      \<Rightarrow> (go_error option \<times> bufio_writer \<times> ('e, 'm) sys_scheme) option"
    fix E' :: "('e, 'x) env_scheme" and bw p and s :: "('e, 'm) sys_scheme" and res
    assume IH: "\<And>E' bw p s res. loop E' bw p s = Some res \<Longrightarrow> ?Q E' bw p s res"
      and step: "(if bw_size bw - length (bw_buf bw) < length p \<and> bw_err bw = None then
        (if bw_buf bw = [] then
           (case net_Write E' (bw_dst bw) p s of
              ((n, err), s1) \<Rightarrow> loop E' (bw\<lparr>bw_err := err\<rparr>) (drop (nat n) p) s1)
         else
           (case bufio_Flush E'
                   (bw\<lparr>bw_buf := bw_buf bw @ take (bw_size bw - length (bw_buf bw)) p\<rparr>) s of
              (_, bw1, s1) \<Rightarrow> loop E' bw1 (drop (bw_size bw - length (bw_buf bw)) p) s1))
      else
        (case bw_err bw of
           Some err \<Rightarrow> Some (Some err, bw, s)
         | None \<Rightarrow> Some (None, bw\<lparr>bw_buf := bw_buf bw @ p\<rparr>, s))) = Some res"
      and E': "E' = E" and dst: "P (bw_dst bw)"
    let ?bw = "bw\<lparr>bw_buf := bw_buf bw @ take (bw_size bw - length (bw_buf bw)) p\<rparr>"
    obtain n err s1 where wr: "net_Write E (bw_dst bw) p s = ((n, err), s1)" by (metis prod.exhaust)
    obtain fr bw1 s2 where fl: "bufio_Flush E ?bw s = (fr, bw1, s2)" by (metis prod.exhaust)
    have one: "R (ext s) (ext s1)" "R (ext s) (ext s2)" "bw_dst bw1 = bw_dst bw"
      using keeps_call(7) [OF dst, of s p] keeps_Flush [of ?bw s] Flush_dst [of ?bw s] dst
      by (simp_all add: wr fl)
    from step consider "bw_dst (fst (snd res)) = bw_dst bw" "snd (snd res) = s"
      | "loop E (bw\<lparr>bw_err := err\<rparr>) (drop (nat n) p) s1 = Some res"
      | "loop E bw1 (drop (bw_size bw - length (bw_buf bw)) p) s2 = Some res"
      by (auto simp: wr fl E' split: if_splits option.splits)
    then show "R (ext s) (ext (snd (snd res))) \<and> bw_dst (fst (snd res)) = bw_dst bw"
    proof cases
      case 1
      then show ?thesis by (simp add: frame_refl)
    next
      case 2
      from IH [OF this] frame_trans [OF one(1)] dst show ?thesis by simp
    next
      case 3
      from IH [OF this] frame_trans [OF one(2)] dst one(3) show ?thesis by simp
    qed
  qed
  with assms show ?thesis by fastforce
qed

lemma keeps_pipe_turn:
  assumes "P dst"
  shows "R (ext s) (ext (snd (pipe_turn E src dst n s)))"
proof -
  let ?r = "stream_Read E src n s"
  have "R (ext s) (ext (snd ?r))" by (rule keeps_call(4))
  from this frame_trans [OF this keeps_call(7) [OF assms, of "snd ?r" "fst (fst ?r)"]] show ?thesis
    by (simp add: pipe_turn_def Let_def split_beta split: option.split)
qed

lemma keeps_pipe_loop:
  fixes s :: "('e, 'm) sys_scheme"
  assumes "pipe_loop E src dst n s = Some (r, s')" and "P dst"
  shows "R (ext s) (ext s')"
proof -
  let ?Q = "\<lambda>E' src dst n s res. E' = E \<longrightarrow> P dst \<longrightarrow> R (ext s) (ext (snd res))"
  have "?Q E src dst n s res" if "pipe_loop E src dst n s = Some res" for res
  proof (rule pipe_loop.raw_induct [where P = ?Q, OF _ that], intro impI)
    fix loop :: "('e, 'x) env_scheme \<Rightarrow> nat \<Rightarrow> net_conn \<Rightarrow> nat \<Rightarrow> ('e, 'm) sys_scheme
      \<Rightarrow> (go_error option \<times> ('e, 'm) sys_scheme) option"
    fix E' :: "('e, 'x) env_scheme" and src dst n and s :: "('e, 'm) sys_scheme" and res
    assume IH: "\<And>E' src dst n s res. loop E' src dst n s = Some res \<Longrightarrow> ?Q E' src dst n s res"
      and step: "(case pipe_turn E' src dst n s of (None, s') \<Rightarrow> loop E' src dst n s'
        | (Some r, s') \<Rightarrow> Some (r, s')) = Some res"
      and E': "E' = E" and dst: "P dst"
    obtain r1 s1 where turn: "pipe_turn E src dst n s = (r1, s1)" by fastforce
    have one: "R (ext s) (ext s1)" using keeps_pipe_turn [OF dst, of s src n] by (simp add: turn)
    show "R (ext s) (ext (snd res))"
    proof (cases r1)
      case None
      with step turn E' have "loop E src dst n s1 = Some res" by simp
      from IH [OF this] frame_trans [OF one] dst show ?thesis by simp
    next
      case (Some r)
      with step turn one E' show ?thesis by auto
    qed
  qed
  with assms show ?thesis by fastforce
qed

lemma keeps_PipeCopy:
  assumes "PipeCopy E src dst s = Some (r, s')" and "P dst"
  shows "R (ext s) (ext s')"
proof -
  obtain v p s1 where get: "sync_Get E (pipeCopyBufPool s) s = (v, p, s1)" by (metis prod.exhaust)
  define n where "n = (case v of Some n \<Rightarrow> n | None \<Rightarrow> nat (pipeCopyBufferSize s1))"
  define s2 where "s2 = metricsUpPipeCopy (s1\<lparr>pipeCopyBufPool := p\<rparr>)"
  from assms(1) get obtain s3 where loop: "pipe_loop E src dst n s2 = Some (r, s3)"
    and s': "s' = metricsDownPipeCopy (s3\<lparr>pipeCopyBufPool := pipeCopyBufPool s3 @ [n]\<rparr>)"
    by (auto simp: PipeCopy_def Let_def n_def s2_def)
  have "R (ext s) (ext s1)" using keeps_call(5) [of s "pipeCopyBufPool s"] by (simp add: get)
  moreover have "ext s2 = ext s1" "ext s' = ext s3" by (simp_all add: s2_def s' gauge_defs)
  ultimately show ?thesis using frame_trans keeps_pipe_loop [OF loop assms(2)] by simp
qed

section \<open>The reading of a body\<close>

lemma keeps_bufio_Read: "P (br_src br) \<Longrightarrow> R (ext s) (ext (snd (snd (bufio_Read E br n s))))"
  using keeps_call(8) [of "br_src br" s n] keeps_call(8) [of "br_src br" s "br_size br"]
  by (simp add: bufio_Read_def Let_def split_beta frame_refl)

lemma keeps_timed_Read:
  assumes "timed_Read E (bufio_Read E) tr n s = (x, tr', s')" and "P (br_src (tr_reader tr))"
  shows "R (ext s) (ext s')"
proof -
  let ?s0 = "snd (timed_start E tr s)"
  have "R (ext s) (ext ?s0)" using keeps_call(1) [of s] by (simp add: timed_start_def frame_refl)
  from frame_trans [OF this keeps_bufio_Read [OF assms(2)]]
  have mid: "R (ext s) (ext (snd (snd (bufio_Read E (tr_reader tr) n ?s0))))" .
  from mid frame_trans [OF mid keeps_call(1)] assms(1) show ?thesis
    by (auto simp: timed_Read_eq Let_def observe_def split: if_splits)
qed

lemma keeps_body_Read:
  assumes rd: "body_stack_Read E pr n s = (x, pr', s')" and "releases_reader pr"
    and "pr_remain pr = 0 \<or> P (br_src (tr_reader (pr_reader pr)))"
  shows "R (ext s) (ext s')"
proof (cases "pr_remain pr = 0")
  case True
  with rd show ?thesis by (auto simp: pool_Read_exhausted frame_refl)
next
  case False
  obtain b err r s1 where tr: "timed_Read E (bufio_Read E) (pr_reader pr) (limited pr n) s = ((b, err), r, s1)"
    by (metis prod.exhaust)
  have s1: "R (ext s) (ext s1)" using keeps_timed_Read [OF tr] assms(3) False by blast
  have quiet: "ext (call_onDone (after_read pr b r) u) = ext u" for u
    using assms(2) by (simp add: releases_reader_def call_onDone_def after_read_def ReleaseBufIOReader_def gauge_defs)
  have "R (ext s) (ext (give_back E pr s1))"
    using frame_trans [OF s1 keeps_give_back(1)] frame_trans [OF s1 keeps_give_back(2)]
    by (simp add: give_back_def)
  with s1 quiet pool_Read_eq [where E = E and rd = "timed_Read E (bufio_Read E)" and pr = pr, OF False tr] rd
  show ?thesis by auto
qed

end

section \<open>The steps of a request\<close>

locale request_frame = call_frame E R P
  for E :: "('e, 'x) proxy_env_scheme" and R :: "'e \<Rightarrow> 'e \<Rightarrow> bool" and P :: "net_conn \<Rightarrow> bool" +
  assumes frame_header: "P (br_src br) \<Longrightarrow> header_Read E br e = Some (r, br', e') \<Longrightarrow> R e e'"
begin

lemma keeps_writeRequestHeaders:
  assumes "writeRequestHeaders E h s = Some (ok, h', s')" and "P (the (h_connection h))"
  shows "R (ext s) (ext s')"
proof -
  obtain bw s1 where get: "AcquireBufIOWriter E (the (h_connection h)) s = (bw, s1)" by fastforce
  from assms(1) obtain r bw1 s2 where wr: "bufio_Write E bw (req_Header (h_ctx h)) s1 = Some (r, bw1, s2)"
    by (auto simp: writeRequestHeaders_def get split: option.splits)
  obtain fr bw2 s3 where fl: "bufio_Flush E bw1 s2 = (fr, bw2, s3)" by (metis prod.exhaust)
  have one: "R (ext s) (ext s1)" using keeps_bufio(1) [of s "the (h_connection h)"] by (simp add: get)
  have "bw_dst bw = the (h_connection h)" using AcquireBufIOWriter_clean [of E "the (h_connection h)" s] get by simp
  with assms(2) have dst: "P (bw_dst bw)" by simp
  note w = keeps_Write [OF wr dst]
  have two: "R (ext s) (ext s2)" using frame_trans [OF one] w by blast
  have "R (ext s) (ext s3)"
    using frame_trans [OF two] keeps_Flush [of bw1 s2] w dst by (simp add: fl)
  with two assms(1) show ?thesis
    by (cases r; cases fr)
      (auto simp: writeRequestHeaders_def get wr fl count_metric_def ReleaseBufIOWriter_def gauge_defs)
qed

lemma keeps_writeRequestBody:
  assumes "writeRequestBody E h s = Some (ok, h', s')" and "P (the (h_connection h))"
  shows "R (ext s) (ext s')"
proof -
  let ?s1 = "snd (now E s)"
  from assms(1) obtain h1 s2 where send: "send_body E h ?s1 = Some (ok, h1, s2)"
    and s': "s' = observe RequestBodyWriteDuration (fst (now E s2) - fst (now E s)) (snd (now E s2))"
    by (auto simp: writeRequestBody_def split_beta Let_def split: option.splits)
  have "R (ext ?s1) (ext s2)"
  proof (cases "req_BodyStream (h_ctx h)")
    case None
    with send keeps_call(7) [OF assms(2), of ?s1 "req_Body (h_ctx h)"] show ?thesis
      by (auto simp: send_body_def Let_def split_beta count_metric_def frame_refl split: if_splits)
  next
    case (Some src)
    with send obtain r where "PipeCopy E src (the (h_connection h)) ?s1 = Some (r, s2)"
      by (auto simp: send_body_def split: option.splits)
    from keeps_PipeCopy [OF this assms(2)] show ?thesis .
  qed
  from frame_trans [OF keeps_call(1) frame_trans [OF this keeps_call(1)]] show ?thesis
    by (simp add: s' observe_def)
qed

lemma keeps_readResponseHeaders:
  assumes "readResponseHeaders E h s = Some (ok, h', s')" and "P (the (h_connection h))"
  shows "R (ext s) (ext s')"
  using assms(1)
proof (cases rule: readResponseHeaders_cases)
  case (1 br s1 err hdr br' e)
  have one: "R (ext s) (ext s1)" using keeps_bufio(2) [of s "the (h_connection h)"] by (simp add: 1(1))
  have "br_src br = the (h_connection h)"
    using 1(1) by (auto simp: AcquireBufIOReader_def Let_def split_beta NewReaderSize_def reader_Reset_def
        split: option.splits)
  with assms(2) have "P (br_src br)" by simp
  from frame_trans [OF one frame_header [OF this 1(2)]] 1(8) show ?thesis by (simp add: count_metric_def)
qed

lemma keeps_resolve:
  assumes "resolveUpstream url_Parse E h s = (ok, h1, s1)"
  shows "R (ext s) (ext s1)"
proof (cases "ups_keys (upstreamsObj s) = []")
  case False
  from resolve_configured [OF this, of url_Parse E h] assms have "s1 = snd (Random E (upstreamsObj s) s)" by simp
  with keeps_call(6) [of s "upstreamsObj s"] show ?thesis by simp
next
  case True
  with assms resolve_no_host [of s h url_Parse E] resolve_host [of s h url_Parse E] show ?thesis
    by (cases "req_Host (h_ctx h) = []") (auto simp: frame_refl)
qed

lemma keeps_acquireUpstreamConn:
  assumes "acquireUpstreamConn E h s = (ok, h1, s1)"
  shows "R (ext s) (ext s1)"
  using assms keeps_acquire [of s "h_upstreamAddress h"]
  by (auto simp: acquireUpstreamConn_def count_metric_def split_beta split: sum.splits)

end

end
