(* ===== verification/Sockets.thy ===== *)
theory Sockets
  imports Frames
begin

text \<open>
  No connection is ever shared: with sockets that are new when they are dialled, no two
  open responses read from the same connection, and none of them from one that is idle in a pool.
\<close>

section \<open>New sockets\<close>

text \<open>
  Sockets are numbered by the state of the outside world: a dial answers with a number
  not used before, and no call takes numbers back.
\<close>

fun socket :: "net_conn \<Rightarrow> nat" where
  "socket (NetConn n) = n" | "socket (TLSClient c cfg) = socket c"

definition new_sockets :: "('e, 'x) env_scheme \<Rightarrow> ('e \<Rightarrow> nat) \<Rightarrow> bool" where
  "new_sockets E used \<longleftrightarrow>
     (\<forall>f a e. used e \<le> used (snd (dial_call E f a e)) \<and>
        (\<forall>n. fst (dial_call E f a e) = Inr n \<longrightarrow> used e \<le> n \<and> n < used (snd (dial_call E f a e)))) \<and>
     (\<forall>e. used e \<le> used (snd (time_Now E e))) \<and>
     (\<forall>n e. used e \<le> used (snd (rand_Intn E n e))) \<and>
     (\<forall>c e. used e \<le> used (snd (conn_Close E c e))) \<and>
     (\<forall>c b e. used e \<le> used (snd (conn_Write E c b e))) \<and>
     (\<forall>c n e. used e \<le> used (snd (conn_Read E c n e))) \<and>
     (\<forall>i n e. used e \<le> used (snd (body_Read E i n e))) \<and>
     (\<forall>n e. used e \<le> used (snd (pool_Get E n e)))"

definition fresh_sockets :: "('e, 'x) proxy_env_scheme \<Rightarrow> ('e \<Rightarrow> nat) \<Rightarrow> bool" where
  "fresh_sockets E used \<longleftrightarrow> new_sockets E used \<and>
     (\<forall>br e r br' e'. header_Read E br e = Some (r, br', e') \<longrightarrow> used e \<le> used e')"

definition grows :: "('e \<Rightarrow> nat) \<Rightarrow> ('e, 'm) sys_scheme \<Rightarrow> ('e, 'm) sys_scheme \<Rightarrow> bool" where
  "grows used s t \<longleftrightarrow> used (ext s) \<le> used (ext t)"

lemma grows_refl [simp]: "ext t = ext s \<Longrightarrow> grows used s t"
  by (simp add: grows_def)

lemma grows_trans: "grows used s t \<Longrightarrow> grows used t u \<Longrightarrow> grows used s u"
  by (simp add: grows_def)

lemma grows_ext: "ext t' = ext t \<Longrightarrow> grows used s t' = grows used s t"
  by (simp add: grows_def)

section \<open>Every operation keeps the numbers\<close>

text \<open>Numbers in use stay in use: an instance of the frames of Frames, with every connection.\<close>

interpretation numbers: call_frame E "\<lambda>e f. new_sockets E used \<longrightarrow> used e \<le> used f" "\<lambda>_. True"
  for E :: "('e, 'x) env_scheme" and used
  by unfold_locales (auto simp: new_sockets_def intro: order_trans)

interpretation request_numbers: request_frame E "\<lambda>e f. fresh_sockets E used \<longrightarrow> used e \<le> used f" "\<lambda>_. True"
  for E :: "('e, 'x) proxy_env_scheme" and used
  by unfold_locales (auto simp: new_sockets_def fresh_sockets_def intro: order_trans)

text \<open>A dial that succeeds answers with a socket in between.\<close>

lemma socket_wrap [simp]: "socket (wrap_conn a cfg c) = socket c"
  by (simp add: wrap_conn_def split: option.split)

lemma dialNew_new:
  assumes "new_sockets E used"
  shows "grows used s (snd (dialNew E a s))"
    and "fst (dialNew E a s) = Inr c \<Longrightarrow> used (ext s) \<le> socket c \<and> socket c < used (ext (snd (dialNew E a s)))"
proof -
  let ?s1 = "AddCount a 1 s"
  show "grows used s (snd (dialNew E a s))"
    using numbers.keeps_dialNew assms by (auto simp: grows_def)
  assume ok: "fst (dialNew E a s) = Inr c"
  then have d: "fst (dial E a ?s1) = Inr c" "snd (dialNew E a s) = snd (dial E a ?s1)"
    by (auto simp: dialNew_def Let_def split_beta split: if_splits sum.splits)
  then obtain n where n: "fst (dial_call E (dial_function ?s1) (parseUpstreamAddressForDial a) (ext s)) = Inr n"
    and "c = wrap_conn a (tlsConfig ?s1) (NetConn n)"
    by (cases "fst (dial_call E (dial_function ?s1) (parseUpstreamAddressForDial a) (ext s))")
      (auto simp: dial_fst)
  with assms show "used (ext s) \<le> socket c \<and> socket c < used (ext (snd (dialNew E a s)))"
    by (simp add: d(2) dial_snd new_sockets_def)
qed

text \<open>
  Acquire hands out the connection it takes off the idle list, or a new one; the list
  loses its last entry in either case.
\<close>

lemma acquire_owner:
  fixes s :: "('e, 'm) pool_sys_scheme"
  assumes "new_sockets E used" and "AcquireUpstreamConnection E a s = (r, t)"
  shows "grows used s t" "idle_list b t = (if b = a then butlast (idle_list a s) else idle_list b s)"
    "r = Inr c \<Longrightarrow> (idle_list a s \<noteq> [] \<and> c = idle_conn (last (idle_list a s))) \<or>
       used (ext s) \<le> socket c \<and> socket c < used (ext t)"
proof -
  have idle: "idle_list b (snd (dialNew E a u)) = idle_list b u" for u :: "('e, 'm) pool_sys_scheme"
    using dialNew_full [where s = u and a = a and E = E] dialNew_room(2) [where E = E and s = u and a = a and b = b]
    by (cases "slots a u < sint (to_int32 (maxUpstreamConnectionsPerHost u))")
      (auto simp: idle_list_def)
  have dial: "grows used s t \<and> idle_list b t = (if b = a then butlast (idle_list a s) else idle_list b s) \<and>
      (r = Inr c \<longrightarrow> used (ext s) \<le> socket c \<and> socket c < used (ext t))"
    if "AcquireUpstreamConnection E a s = dialNew E a u" "grows used s u"
      "idle_list b u = (if b = a then butlast (idle_list a s) else idle_list b s)" for u
  proof -
    have eq: "dialNew E a u = (r, t)" using that(1) assms(2) by simp
    have "grows used u t" "r = Inr c \<longrightarrow> used (ext u) \<le> socket c \<and> socket c < used (ext t)"
      using dialNew_new(1) [OF assms(1), of u a] dialNew_new(2) [where s = u and a = a and c = c, OF assms(1)]
      by (simp_all add: eq)
    moreover have "idle_list b t = idle_list b u" using idle [of u] by (simp add: eq)
    ultimately show ?thesis using that(2,3) by (auto simp: grows_def)
  qed
  have "grows used s t \<and> idle_list b t = (if b = a then butlast (idle_list a s) else idle_list b s) \<and>
    (r = Inr c \<longrightarrow> (idle_list a s \<noteq> [] \<and> c = idle_conn (last (idle_list a s))) \<or>
       used (ext s) \<le> socket c \<and> socket c < used (ext t))"
  proof (cases "idle_list a s = []")
    case True
    from dial [OF acquire_empty [OF True]] True show ?thesis by (simp add: idle_list_def)
  next
    case False
    show ?thesis
    proof (cases "fst (time_Now E (ext s)) - returnedAt (last (idle_list a s)) \<le> idleTimeout s")
      case True
      from acquire_reuse [OF False True] assms show ?thesis
        using False by (auto simp: grows_def new_sockets_def idle_list_def pool_at_def upd_pool_def)
    next
      case stale: False
      have "grows used s (dropped_stale E a s)"
        using numbers.keeps_dropped_stale assms(1) by (auto simp: grows_def)
      from dial [OF acquire_stale [OF False] this] stale show ?thesis
        by (simp add: idle_list_def)
    qed
  qed
  then show "grows used s t" "idle_list b t = (if b = a then butlast (idle_list a s) else idle_list b s)"
    "r = Inr c \<Longrightarrow> (idle_list a s \<noteq> [] \<and> c = idle_conn (last (idle_list a s))) \<or>
       used (ext s) \<le> socket c \<and> socket c < used (ext t)" by blast+
qed

section \<open>What a request does to the owners\<close>

lemma request_grows:
  fixes s :: "('e, 'm) proxy_sys_scheme" and E :: "('e, 'x) proxy_env_scheme"
  assumes "fresh_sockets E used"
  shows "writeRequestHeaders E h s = Some (ok, h', s') \<Longrightarrow> grows used s s'"
    and "writeRequestBody E h s = Some (ok, h', s') \<Longrightarrow> grows used s s'"
    and "readResponseHeaders E h s = Some (ok, h', s') \<Longrightarrow> grows used s s'"
    and "resolveUpstream url_Parse E h s = (ok, h', s') \<Longrightarrow> grows used s s'"
    and "grows used s (CloseAndDropUpstreamConnection E a c s)"
  using assms request_numbers.keeps_writeRequestHeaders [of E h s ok h' s' used]
    request_numbers.keeps_writeRequestBody [of E h s ok h' s' used]
    request_numbers.keeps_readResponseHeaders [of E h s ok h' s' used]
    request_numbers.keeps_resolve [of url_Parse E h s ok h' s' used]
    request_numbers.keeps_give_back(2) [of E used s a c]
  by (simp_all add: grows_def)

lemma connected_grows:
  fixes s :: "('e, 'm) proxy_sys_scheme" and E :: "('e, 'x) proxy_env_scheme"
  assumes fresh: "fresh_sockets E used"
    and "resolveUpstream url_Parse E h s = (True, h1, s1)"
    and "AcquireUpstreamConnection E (h_upstreamAddress h1) s1 = (Inr c, s2)"
    and run: "handle url_Parse E h s = Some (h', s')"
  shows "grows used s2 s'"
proof -
  have new: "new_sockets E used" using fresh by (simp add: fresh_sockets_def)
  note eq = run [unfolded handle_connected [OF assms(2,3)]]
  from eq obtain ok3 h3 s3 where w: "writeRequestHeaders E (h1\<lparr>h_connection := Some c\<rparr>) s2 = Some (ok3, h3, s3)"
    by (auto split: option.splits)
  note g3 = request_grows(1) [OF fresh w]
  show ?thesis
  proof (cases ok3)
    case False
    with eq w grows_trans [OF g3 request_grows(5) [OF fresh]] show ?thesis by auto
  next
    case True
    with eq w obtain ok4 h4 s4 where b: "writeRequestBody E h3 s3 = Some (ok4, h4, s4)"
      by (auto split: option.splits)
    note g4 = grows_trans [OF g3 request_grows(2) [OF fresh b]]
    show ?thesis
    proof (cases ok4)
      case False
      with eq w b True grows_trans [OF g4 request_grows(5) [OF fresh]] show ?thesis by auto
    next
      case ok4: True
      with eq w b True obtain ok5 h5 s5 where r: "readResponseHeaders E h4 s4 = Some (ok5, h5, s5)"
        by (auto split: option.splits)
      note g5 = grows_trans [OF g4 request_grows(3) [OF fresh r]]
      have "ext (snd (copyResponseStatus h5 s5)) = ext s5"
        by (simp add: copyResponseStatus_def count_metric_def split: option.split)
      with eq w b r True ok4 g5 grows_trans [OF g5 request_grows(5) [OF fresh]] show ?thesis
        by (cases ok5) (auto simp: grows_def)
    qed
  qed
qed

text \<open>
  What a request does to the owners of connections: the idle list of its upstream may lose its
  last entry, and its body stream gets that connection or a new one.
\<close>

lemma serve_owner:
  fixes s :: "('e, 'm) proxy_sys_scheme" and E :: "('e, 'x) proxy_env_scheme"
  assumes fresh: "fresh_sockets E used" and run: "serve url_Parse E req s = Some (h, s')"
  defines "a \<equiv> h_upstreamAddress h"
  shows "grows used s s'"
    and "idle_list b s' = idle_list b s \<or> b = a \<and> idle_list b s' = butlast (idle_list b s)"
    and "body_streams h = [] \<or>
      (\<exists>c br hdr. body_streams h = [response_stream a c br hdr] \<and>
         idle_list a s' = butlast (idle_list a s) \<and>
         (idle_list a s \<noteq> [] \<and> c = idle_conn (last (idle_list a s)) \<or>
          used (ext s) \<le> socket c \<and> socket c < used (ext s')))"
proof -
  have new: "new_sockets E used" using fresh by (simp add: fresh_sockets_def)
  note handled = run [unfolded serve_def]
  have "grows used s s' \<and>
    (idle_list b s' = idle_list b s \<or> b = a \<and> idle_list b s' = butlast (idle_list b s)) \<and>
    (body_streams h = [] \<or>
      (\<exists>c br hdr. body_streams h = [response_stream a c br hdr] \<and>
         idle_list a s' = butlast (idle_list a s) \<and>
         (idle_list a s \<noteq> [] \<and> c = idle_conn (last (idle_list a s)) \<or>
          used (ext s) \<le> socket c \<and> socket c < used (ext s'))))"
    using run
  proof (cases rule: serve_cases)
    case no_upstream
    with resolve_frame(9) [OF no_upstream] show ?thesis by (simp add: body_streams_def)
  next
    case (no_connection h1 s1 err s2)
    note fr = resolve_frame [OF no_connection(1)]
    have idle1: "idle_list b s1 = idle_list b s" for b using fr(2) by (simp add: idle_list_def)
    note acq = acquire_owner [OF new no_connection(2)]
    have "ext s' = ext s2" "idle_list b s' = idle_list b s2" for b
      using no_connection(4) by (simp_all add: count_metric_def idle_list_def pool_at_def)
    moreover have "a = h_upstreamAddress h1" "body_streams h = []"
      using no_connection(3) fr(8) by (auto simp: a_def body_streams_def)
    ultimately show ?thesis
      using grows_trans [OF request_grows(4) [OF fresh no_connection(1)] acq(1)] acq(2) [of b] idle1
      by (simp add: grows_def)
  next
    case (failed h1 s1 c s2 s3)
    note fr = resolve_frame [OF failed(1)]
    have idle1: "idle_list b s1 = idle_list b s" for b using fr(2) by (simp add: idle_list_def)
    note acq = acquire_owner [OF new failed(2)]
    have "idle_list b s' = idle_list b s2" for b
      using same_pools_pool_at(5) [OF failed(4)] by (simp add: failed(7) idle_list_def)
    moreover have "a = h_upstreamAddress h1" "body_streams h = []"
      using same_requestD [OF failed(3)] answers_502_client [OF failed(6)] fr(8)
      by (auto simp: a_def body_streams_def)
    ultimately show ?thesis
      using grows_trans [OF request_grows(4) [OF fresh failed(1)]
          grows_trans [OF acq(1) connected_grows [OF fresh failed(1,2) handled]]] acq(2) [of b] idle1
      by simp
  next
    case (streams h1 s1 c s2 h3 s3 h4 s4 h5 s5 br hdr)
    note fr = resolve_frame [OF streams(1)]
    have idle1: "idle_list b s1 = idle_list b s" for b using fr(2) by (simp add: idle_list_def)
    note acq = acquire_owner [OF new streams(2)]
    have h5: "h_connection h5 = Some c" "h_upstreamAddress h5 = h_upstreamAddress h1"
      using same_requestD [OF streams(3)] by simp_all
    note resp = streamed_response [OF streams(7,8) h5(1) streams(9)]
    have a: "a = h_upstreamAddress h1" using resp(5) h5 by (simp add: a_def)
    have idle: "idle_list b s' = idle_list b s2" for b
      using same_pools_pool_at(5) [OF streams(4)] same_pools_pool_at(5) [OF resp(3)] by simp
    have "body_streams h5 = []"
      using client_of_resp [OF streams(6)] fr(8) by (auto simp: body_streams_def)
    then have "body_streams h = [response_stream a c br hdr]" using resp(2) h5 a by simp
    moreover have late: "grows used s2 s'" by (rule connected_grows [OF fresh streams(1,2) handled])
    moreover have early: "grows used s s1" by (rule request_grows(4) [OF fresh streams(1)])
    moreover have "idle_list a s \<noteq> [] \<and> c = idle_conn (last (idle_list a s)) \<or>
        used (ext s) \<le> socket c \<and> socket c < used (ext s')"
      using acq(3) [OF refl] late early idle1 by (auto simp: a grows_def)
    ultimately show ?thesis
      using grows_trans [OF early grows_trans [OF acq(1) late]] acq(2) idle1 idle a by auto
  qed
  then show "grows used s s'"
    "idle_list b s' = idle_list b s \<or> b = a \<and> idle_list b s' = butlast (idle_list b s)"
    "body_streams h = [] \<or>
      (\<exists>c br hdr. body_streams h = [response_stream a c br hdr] \<and>
         idle_list a s' = butlast (idle_list a s) \<and>
         (idle_list a s \<noteq> [] \<and> c = idle_conn (last (idle_list a s)) \<or>
          used (ext s) \<le> socket c \<and> socket c < used (ext s')))" by blast+
qed

text \<open>What a Read does to them: a stream that gives its connection back to the pool ends its list.\<close>

lemma read_grows:
  assumes "new_sockets E used" and "releases_reader pr" and "body_stack_Read E pr n s = (x, pr', s')"
  shows "grows used s s'"
  using numbers.keeps_body_Read [OF assms(3,2)] assms(1) by (simp add: grows_def)

lemma read_idle:
  assumes "releases_reader pr" and "pool_wf s" and "pr_returned pr \<or> 1 \<le> in_use (pr_upstreamAddr pr) s"
    and rd: "body_stack_Read E pr n s = ((b, err), pr', s')"
  shows "map idle_conn (idle_list a s') = map idle_conn (idle_list a s) @
    (if a = pr_upstreamAddr pr \<and> pr_returned pr' \<and> \<not> pr_returned pr \<and> 0 \<le> pr_remain pr
     then [pr_connection pr] else [])"
proof (cases "a = pr_upstreamAddr pr")
  case True
  from timed_body.pool_Read_effects(1) [OF rd releases_cleanup_ok [OF assms(1)] assms(2,3)] True
  show ?thesis by simp
next
  case False
  from timed_body.pool_Read_elsewhere(1) [OF rd releases_cleanup_ok [OF assms(1)] False] False
  show ?thesis by (simp add: idle_list_def)
qed

section \<open>One owner for every connection\<close>

text \<open>
  The places where a connection can be: an open body stream, by its number, or an
  idle list, by its address and the position.
\<close>

definition owner ::
  "('e, 'm) proxy_sys_scheme body_stream list \<Rightarrow> ('e, 'm) proxy_sys_scheme
     \<Rightarrow> nat + string \<times> nat \<Rightarrow> net_conn option" where
  "owner prs s p =
     (case p of
        Inl i \<Rightarrow> if i < length prs \<and> \<not> pr_returned (prs ! i) then Some (pr_connection (prs ! i)) else None
      | Inr (a, j) \<Rightarrow>
          if j < length (idle_list a s) then Some (idle_conn (idle_list a s ! j)) else None)"

definition one_owner :: "('p \<Rightarrow> net_conn option) \<Rightarrow> nat \<Rightarrow> bool" where
  "one_owner ow k \<longleftrightarrow> inj_on (\<lambda>p. map_option socket (ow p)) (dom ow) \<and> (\<forall>c \<in> ran ow. socket c < k)"

lemma one_owner_sub:
  assumes "one_owner ow k" and "ow' \<subseteq>\<^sub>m ow" and "k \<le> k'"
  shows "one_owner ow' k'"
proof -
  have eq: "ow' p = ow p" if "p \<in> dom ow'" for p using assms(2) that by (simp add: map_le_def)
  have "inj_on (\<lambda>p. map_option socket (ow' p)) (dom ow')"
  proof (rule inj_onI)
    fix p q assume "p \<in> dom ow'" "q \<in> dom ow'" "map_option socket (ow' p) = map_option socket (ow' q)"
    with eq have "map_option socket (ow p) = map_option socket (ow q)" "p \<in> dom ow" "q \<in> dom ow"
      by (metis domD domI)+
    with assms(1) show "p = q" by (simp add: one_owner_def inj_on_def)
  qed
  moreover have "ran ow' \<subseteq> ran ow" using eq by (auto simp: ran_def dom_def) (metis option.distinct(1))
  ultimately show ?thesis using assms(1,3) by (fastforce simp: one_owner_def)
qed

text \<open>A connection moves from one place to another, or a new one appears.\<close>

lemma one_owner_add:
  assumes "one_owner ow k" and fresh: "socket c \<notin> socket ` ran ow" and "socket c < k'" and "k \<le> k'"
  shows "one_owner (ow(q \<mapsto> c)) k'"
proof -
  have no: "socket d \<noteq> socket c" if "ow x = Some d" for x d using fresh that by (metis imageI ranI)
  have "inj_on (\<lambda>p. map_option socket ((ow(q \<mapsto> c)) p)) (dom (ow(q \<mapsto> c)))"
  proof (rule inj_onI)
    fix p r assume "p \<in> dom (ow(q \<mapsto> c))" "r \<in> dom (ow(q \<mapsto> c))"
      "map_option socket ((ow(q \<mapsto> c)) p) = map_option socket ((ow(q \<mapsto> c)) r)"
    with no no [symmetric] assms(1) show "p = r"
      unfolding one_owner_def inj_on_def by (auto split: if_splits)
  qed
  moreover have "\<forall>d \<in> ran (ow(q \<mapsto> c)). socket d < k'"
    using assms by (fastforce simp: one_owner_def ran_def split: if_splits)
  ultimately show ?thesis by (simp add: one_owner_def)
qed

lemma one_owner_new:
  assumes "one_owner ow k" and "k \<le> socket c" and "socket c < k'"
  shows "one_owner (ow(q \<mapsto> c)) k'"
proof (rule one_owner_add [OF assms(1) _ assms(3)])
  show "socket c \<notin> socket ` ran ow" using assms(1,2) by (force simp: one_owner_def)
qed (use assms in simp)

lemma one_owner_move:
  assumes "one_owner ow k" and "ow p = Some c" and "k \<le> k'"
  shows "one_owner (ow(p := None, q \<mapsto> c)) k'"
proof (rule one_owner_add)
  show "one_owner (ow(p := None)) k" by (rule one_owner_sub [OF assms(1)]) (auto simp: map_le_def)
  show "socket c \<notin> socket ` ran (ow(p := None))"
  proof
    assume "socket c \<in> socket ` ran (ow(p := None))"
    then obtain x d where "x \<noteq> p" "ow x = Some d" "socket c = socket d"
      by (auto simp: ran_def split: if_splits)
    with assms(1,2) show False unfolding one_owner_def inj_on_def by (metis domI option.simps(9))
  qed
  show "socket c < k'" using assms by (force simp: one_owner_def ran_def)
qed (rule assms(3))

lemma owner_stream: "owner prs s (Inl i) =
    (if i < length prs \<and> \<not> pr_returned (prs ! i) then Some (pr_connection (prs ! i)) else None)"
  by (simp add: owner_def)

lemma owner_idle: "owner prs s (Inr (a, j)) =
    (if j < length (map idle_conn (idle_list a s)) then Some (map idle_conn (idle_list a s) ! j) else None)"
  by (simp add: owner_def)

lemma owner_leI:
  assumes "\<And>i c. owner prs s (Inl i) = Some c \<Longrightarrow> ow (Inl i) = Some c"
    and "\<And>a j c. owner prs s (Inr (a, j)) = Some c \<Longrightarrow> ow (Inr (a, j)) = Some c"
  shows "owner prs s \<subseteq>\<^sub>m ow"
proof -
  have "ow p = Some c" if "owner prs s p = Some c" for p c
    using that assms by (cases p) auto
  then show ?thesis unfolding map_le_def by (metis domD)
qed

lemma request_owner:
  fixes s :: "('e, 'm) proxy_sys_scheme" and E :: "('e, 'x) proxy_env_scheme"
  assumes fresh: "fresh_sockets E used" and run: "serve url_Parse E req s = Some (h, s')"
    and one: "one_owner (owner prs s) (used (ext s))"
  shows "one_owner (owner (prs @ body_streams h) s') (used (ext s'))"
proof -
  let ?a = "h_upstreamAddress h"
  have le: "used (ext s) \<le> used (ext s')" using serve_owner(1) [OF fresh run] by (simp add: grows_def)
  have idle: "owner qs s' (Inr (b, j)) = Some c \<Longrightarrow> owner prs s (Inr (b, j)) = Some c" for qs b j c
    using serve_owner(2) [OF fresh run, of b] by (auto simp: owner_def nth_butlast split: if_splits)
  from serve_owner(3) [OF fresh run] consider
      "body_streams h = []"
    | c br hdr where "body_streams h = [response_stream ?a c br hdr]"
        "idle_list ?a s' = butlast (idle_list ?a s)" "idle_list ?a s \<noteq> []"
        "c = idle_conn (last (idle_list ?a s))"
    | c br hdr where "body_streams h = [response_stream ?a c br hdr]"
        "used (ext s) \<le> socket c" "socket c < used (ext s')"
    by blast
  then show ?thesis
  proof cases
    case 1
    have "owner prs s' \<subseteq>\<^sub>m owner prs s"
      by (rule owner_leI) (use idle in \<open>auto simp: owner_stream\<close>)
    from one_owner_sub [OF one this le] 1 show ?thesis by simp
  next
    case 2
    let ?p = "Inr (?a, length (idle_list ?a s) - 1) :: nat + string \<times> nat"
    let ?q = "Inl (length prs) :: nat + string \<times> nat"
    have at: "owner prs s ?p = Some c"
      using 2(3,4) by (simp add: owner_def last_conv_nth)
    have "owner (prs @ body_streams h) s' \<subseteq>\<^sub>m (owner prs s)(?p := None, ?q \<mapsto> c)"
    proof (rule owner_leI)
      fix i d assume "owner (prs @ body_streams h) s' (Inl i) = Some d"
      then show "((owner prs s)(?p := None, ?q \<mapsto> c)) (Inl i) = Some d"
        by (auto simp: owner_stream 2(1) nth_append less_Suc_eq split: if_splits)
    next
      fix b j d assume own: "owner (prs @ body_streams h) s' (Inr (b, j)) = Some d"
      have "Inr (b, j) \<noteq> ?p" using own 2(2) by (auto simp: owner_def split: if_splits)
      with idle [OF own] show "((owner prs s)(?p := None, ?q \<mapsto> c)) (Inr (b, j)) = Some d" by simp
    qed
    from one_owner_sub [OF one_owner_move [OF one at order_refl] this le] show ?thesis .
  next
    case 3
    let ?q = "Inl (length prs) :: nat + string \<times> nat"
    have "owner (prs @ body_streams h) s' \<subseteq>\<^sub>m (owner prs s)(?q \<mapsto> c)"
    proof (rule owner_leI)
      fix i d assume "owner (prs @ body_streams h) s' (Inl i) = Some d"
      then show "((owner prs s)(?q \<mapsto> c)) (Inl i) = Some d"
        by (auto simp: owner_stream 3(1) nth_append less_Suc_eq split: if_splits)
    next
      fix b j d assume "owner (prs @ body_streams h) s' (Inr (b, j)) = Some d"
      from idle [OF this] show "((owner prs s)(?q \<mapsto> c)) (Inr (b, j)) = Some d" by simp
    qed
    from one_owner_sub [OF one_owner_new [OF one 3(2,3)] this order_refl] show ?thesis .
  qed
qed

lemma read_owner:
  fixes s :: "('e, 'm) proxy_sys_scheme" and E :: "('e, 'x) proxy_env_scheme"
  assumes new: "new_sockets E used" and i: "i < length prs" and rel: "releases_reader (prs ! i)"
    and wf: "pool_wf s" "pr_returned (prs ! i) \<or> 1 \<le> in_use (pr_upstreamAddr (prs ! i)) s"
    and rd: "body_stack_Read E (prs ! i) n s = ((b, err), pr', s')"
    and one: "one_owner (owner prs s) (used (ext s))"
  shows "one_owner (owner (prs[i := pr']) s') (used (ext s'))"
proof -
  let ?pr = "prs ! i"
  let ?a = "pr_upstreamAddr ?pr" and ?c = "pr_connection ?pr"
  let ?gives = "pr_returned pr' \<and> \<not> pr_returned ?pr \<and> 0 \<le> pr_remain ?pr"
  have le: "used (ext s) \<le> used (ext s')" using read_grows [OF new rel rd] by (simp add: grows_def)
  note step = timed_body.pool_Read_step [OF rd releases_cleanup_ok [OF rel] wf]
  note idle = read_idle [OF rel wf rd]
  have stream: "owner prs s (Inl k) = Some d \<and> (pr_returned pr' \<longrightarrow> k \<noteq> i)"
    if "owner (prs[i := pr']) s' (Inl k) = Some d" for k d
    using that step(6,7) i by (auto simp: owner_stream nth_list_update split: if_splits)
  show ?thesis
  proof (cases ?gives)
    case False
    have "owner (prs[i := pr']) s' \<subseteq>\<^sub>m owner prs s"
    proof (rule owner_leI)
      fix a j d assume "owner (prs[i := pr']) s' (Inr (a, j)) = Some d"
      moreover have "map idle_conn (idle_list a s') = map idle_conn (idle_list a s)"
        using idle [of a] False by auto
      ultimately show "owner prs s (Inr (a, j)) = Some d" by (simp only: owner_idle)
    qed (use stream in blast)
    from one_owner_sub [OF one this le] show ?thesis .
  next
    case True
    let ?p = "Inl i :: nat + string \<times> nat"
    let ?q = "Inr (?a, length (idle_list ?a s)) :: nat + string \<times> nat"
    have at: "owner prs s ?p = Some ?c" using True i by (simp add: owner_stream)
    have "owner (prs[i := pr']) s' \<subseteq>\<^sub>m (owner prs s)(?p := None, ?q \<mapsto> ?c)"
    proof (rule owner_leI)
      fix k d assume "owner (prs[i := pr']) s' (Inl k) = Some d"
      from stream [OF this] True show "((owner prs s)(?p := None, ?q \<mapsto> ?c)) (Inl k) = Some d" by simp
    next
      fix a j d assume own: "owner (prs[i := pr']) s' (Inr (a, j)) = Some d"
      show "((owner prs s)(?p := None, ?q \<mapsto> ?c)) (Inr (a, j)) = Some d"
      proof (cases "a = ?a")
        case False
        then have "map idle_conn (idle_list a s') = map idle_conn (idle_list a s)" using idle [of a] by simp
        with own have "owner prs s (Inr (a, j)) = Some d" by (simp only: owner_idle)
        with False show ?thesis by simp
      next
        case here: True
        have cs: "map idle_conn (idle_list ?a s') = map idle_conn (idle_list ?a s) @ [?c]"
          using idle [of ?a] True by simp
        then have len: "length (idle_list ?a s') = Suc (length (idle_list ?a s))"
          by (metis length_append_singleton length_map)
        have "j < Suc (length (idle_list ?a s))"
          "d = (map idle_conn (idle_list ?a s) @ [?c]) ! j"
          using own unfolding owner_idle here cs by (simp_all add: len split: if_splits)
        then show ?thesis
          by (cases "j = length (idle_list ?a s)") (simp_all add: here owner_idle nth_append)
      qed
    qed
    from one_owner_sub [OF one_owner_move [OF one at order_refl] this le] show ?thesis .
  qed
qed

lemma run_owner:
  fixes s :: "('e, 'm) proxy_sys_scheme" and E :: "('e, 'x) proxy_env_scheme"
  assumes fresh: "fresh_sockets E used"
    and "accounted (prs, s)" and "one_owner (owner prs s) (used (ext s))"
    and "proxy_run url_Parse E ops (prs, s) = Some (prs', s')"
  shows "one_owner (owner prs' s') (used (ext s'))"
  using assms(2-4)
proof (induction ops arbitrary: prs s)
  case Nil
  then show ?case by simp
next
  case (Cons op ops)
  from Cons.prems(3) obtain prs1 s1 where step: "proxy_step url_Parse E op (prs, s) = Some (prs1, s1)"
    and rest: "proxy_run url_Parse E ops (prs1, s1) = Some (prs', s')"
    by (auto split: option.splits)
  have "one_owner (owner prs1 s1) (used (ext s1))"
  proof (cases op)
    case (Request req)
    with step obtain h where "serve url_Parse E req s = Some (h, s1)" "prs1 = prs @ body_streams h"
      by (auto split: option.splits)
    with request_owner [OF fresh _ Cons.prems(2)] show ?thesis by simp
  next
    case (ClientRead i n)
    show ?thesis
    proof (cases "i < length prs")
      case False
      with step ClientRead Cons.prems(2) show ?thesis by simp
    next
      case True
      with step ClientRead obtain b err pr' where rd: "body_stack_Read E (prs ! i) n s = ((b, err), pr', s1)"
        and prs1: "prs1 = prs[i := pr']" by (auto split: prod.splits)
      have rel: "releases_reader (prs ! i)" and wf: "pool_wf s"
        and acc: "\<And>a. in_use a s = open_streams a prs"
        using Cons.prems(1) True by (auto simp: accounted_def)
      have use: "pr_returned (prs ! i) \<or> 1 \<le> in_use (pr_upstreamAddr (prs ! i)) s"
        using open_streams_pos [OF True, of "pr_upstreamAddr (prs ! i)"] acc by (auto simp: holds_def)
      have "new_sockets E used" using fresh by (simp add: fresh_sockets_def)
      from read_owner [OF this True rel wf use rd Cons.prems(2)] show ?thesis by (simp add: prs1)
    qed
  qed
  with Cons.IH [OF _ _ rest] step_accounted [OF Cons.prems(1) step] show ?case by blast
qed

lemma owner_start:
  assumes "\<And>a. idle_list a s = []"
  shows "one_owner (owner [] s) k"
proof -
  have "owner [] s p = None" for p using assms by (cases p) (auto simp: owner_def)
  then have "owner [] s = (\<lambda>_. None)" by auto
  then show ?thesis by (simp add: one_owner_def)
qed

text \<open>What one owner for every connection means for streams and idle lists.\<close>

lemma one_owner_places:
  assumes "one_owner (owner prs s) k"
  shows "i < length prs \<Longrightarrow> j < length prs \<Longrightarrow> i \<noteq> j \<Longrightarrow>
      \<not> pr_returned (prs ! i) \<Longrightarrow> \<not> pr_returned (prs ! j) \<Longrightarrow>
      socket (pr_connection (prs ! i)) \<noteq> socket (pr_connection (prs ! j))"
    and "i < length prs \<Longrightarrow> \<not> pr_returned (prs ! i) \<Longrightarrow> x \<in> set (idle_list a s) \<Longrightarrow>
      socket (pr_connection (prs ! i)) \<noteq> socket (idle_conn x)"
    and "distinct (map (socket \<circ> idle_conn) (idle_list a s))"
    and "a \<noteq> b \<Longrightarrow> x \<in> set (idle_list a s) \<Longrightarrow> y \<in> set (idle_list b s) \<Longrightarrow>
      socket (idle_conn x) \<noteq> socket (idle_conn y)"
proof -
  have same: "p = q" if "owner prs s p = Some c" "owner prs s q = Some d" "socket c = socket d" for p q c d
    using assms that unfolding one_owner_def inj_on_def by (metis domI option.simps(9))
  have idle: "owner prs s (Inr (a, n)) = Some (idle_conn (idle_list a s ! n))"
    if "n < length (idle_list a s)" for a n using that by (simp add: owner_def)
  have stream: "owner prs s (Inl n) = Some (pr_connection (prs ! n))"
    if "n < length prs" "\<not> pr_returned (prs ! n)" for n using that by (simp add: owner_def)
  show "socket (pr_connection (prs ! i)) \<noteq> socket (pr_connection (prs ! j))"
    if "i < length prs" "j < length prs" "i \<noteq> j" "\<not> pr_returned (prs ! i)" "\<not> pr_returned (prs ! j)"
    using same [OF stream [OF that(1,4)] stream [OF that(2,5)]] that(3) by auto
  show "socket (pr_connection (prs ! i)) \<noteq> socket (idle_conn x)"
    if "i < length prs" "\<not> pr_returned (prs ! i)" "x \<in> set (idle_list a s)"
    using that(3) same [OF stream [OF that(1,2)] idle] by (auto simp: in_set_conv_nth)
  show "distinct (map (socket \<circ> idle_conn) (idle_list a s))"
  proof -
    have "n = m" if "n < length (idle_list a s)" "m < length (idle_list a s)"
      "socket (idle_conn (idle_list a s ! n)) = socket (idle_conn (idle_list a s ! m))" for n m
      using same [OF idle [OF that(1)] idle [OF that(2)] that(3)] by simp
    then show ?thesis by (auto simp: distinct_conv_nth)
  qed
  show "socket (idle_conn x) \<noteq> socket (idle_conn y)"
    if "a \<noteq> b" "x \<in> set (idle_list a s)" "y \<in> set (idle_list b s)"
    using that same [OF idle idle, of _ a _ b] by (auto simp: in_set_conv_nth)
qed

lemma distinct_socket_conns: "distinct (map (socket \<circ> idle_conn) ics) \<Longrightarrow> distinct (map idle_conn ics)"
  by (metis distinct_map map_map)

end
