(* ===== verification/PoolSteps.thy ===== *)
theory PoolSteps
  imports PoolConcurrency
begin

text \<open>
  The two models of the connection pool agree: an operation of \<open>ConnPool\<close>, run from its
  beginning to its end by one goroutine, is a run of the atomic actions of
  \<open>PoolConcurrency\<close>, with the other goroutines wherever they are.
\<close>

text \<open>The pool of address \<open>a\<close> in both models; nobody is inside a critical section.\<close>

definition agrees :: "string \<Rightarrow> ('e, 'm) pool_sys_scheme \<Rightarrow> cpool \<Rightarrow> bool" where
  "agrees a s c \<longleftrightarrow>
     c_free c = idle_list a s \<and> c_count c = cp_count (pool_at a s) \<and> c_lock c = None"

text \<open>Goroutine \<open>t\<close> alone moves, from its point in \<open>c\<close> to \<open>p\<close>.\<close>

definition runs_to :: "nat \<Rightarrow> int \<Rightarrow> int \<Rightarrow> nat \<Rightarrow> pc \<Rightarrow> cpool \<Rightarrow> cpool \<Rightarrow> bool" where
  "runs_to N limit timeout t p c c' \<longleftrightarrow>
     (pool_step N limit timeout)\<^sup>*\<^sup>* c c' \<and> c_pc c' = (c_pc c)(t := p)"

definition outcome :: "go_error + net_conn \<Rightarrow> pc" where
  "outcome r = (case r of Inl _ \<Rightarrow> Outside | Inr conn \<Rightarrow> Holding conn)"

lemma runs_to_refl: "c_pc c t = p \<Longrightarrow> runs_to N limit timeout t p c c"
  by (auto simp: runs_to_def)

lemma runs_to_step:
  assumes "pool_step N limit timeout c c1" and "\<And>u. u \<noteq> t \<Longrightarrow> c_pc c1 u = c_pc c u"
    and "runs_to N limit timeout t p c1 c'"
  shows "runs_to N limit timeout t p c c'"
proof -
  have "(c_pc c1)(t := p) = (c_pc c)(t := p)" using assms(2) by auto
  with assms(1,3) show ?thesis
    by (auto simp: runs_to_def intro: converse_rtranclp_into_rtranclp)
qed

lemma runs_to_reachable:
  assumes "reachable N limit timeout c" and "runs_to N limit timeout t p c c'"
  shows "reachable N limit timeout c'"
proof -
  from assms(2) have "(pool_step N limit timeout)\<^sup>*\<^sup>* c c'" by (simp add: runs_to_def)
  then show ?thesis using assms(1)
    by (induction rule: rtranclp_induct) (auto intro: reachable.step)
qed

section \<open>dialNew\<close>

lemma dialNew_runs:
  fixes s :: "('e, 'm) pool_sys_scheme"
  assumes "t < N" and "c_pc c t = DialLoad" and agree: "agrees a s c"
    and limit: "limit = maxUpstreamConnectionsPerHost s"
    and new: "\<And>conn. fst (dialNew E a s) = Inr conn \<Longrightarrow> conn \<notin> c_known c"
  shows "\<exists>c'. runs_to N limit timeout t (outcome (fst (dialNew E a s))) c c' \<and>
    agrees a (snd (dialNew E a s)) c'"
proof (cases "sint (to_int32 limit) \<le> sint (c_count c)")
  case True
  have "pool_step N limit timeout c (goto t Outside c)"
    by (rule load_full [OF assms(1,2) True])
  then have "runs_to N limit timeout t Outside c (goto t Outside c)"
    by (rule runs_to_step) (simp_all add: runs_to_refl)
  moreover have "dialNew E a s = (Inl ErrDialTimeout, s)"
    using True agree limit by (intro dialNew_full) (simp add: agrees_def slots_def)
  ultimately show ?thesis using agree by (auto simp: outcome_def agrees_def)
next
  case False
  with agree limit have "slots a s < sint (to_int32 (maxUpstreamConnectionsPerHost s))"
    by (simp add: agrees_def slots_def)
  note room = dialNew_room(2) [where E = E, OF this]
  define c1 where "c1 = goto t DialAdd c"
  define c2 where "c2 = goto t Dialing (c1\<lparr>c_count := c_count c1 + 1\<rparr>)"
  have s1: "pool_step N limit timeout c c1" "c_pc c1 t = DialAdd"
    using load_room [OF assms(1,2) False] by (simp_all add: c1_def)
  have s2: "pool_step N limit timeout c1 c2" "c_pc c2 t = Dialing"
    using dial_add [OF assms(1) s1(2)] by (simp_all add: c2_def)
  have other: "c_pc c1 u = c_pc c u" "c_pc c2 u = c_pc c1 u" if "u \<noteq> t" for u
    using that by (simp_all add: c1_def c2_def)
  have c2: "c_free c2 = c_free c" "c_count c2 = c_count c + 1" "c_lock c2 = c_lock c"
    "c_known c2 = c_known c"
    by (simp_all add: c1_def c2_def)
  show ?thesis
  proof (cases "fst (dialNew E a s)")
    case (Inr conn)
    define c3 where "c3 = goto t (Holding conn) (c2\<lparr>c_known := insert conn (c_known c2)\<rparr>)"
    have "pool_step N limit timeout c2 c3"
      unfolding c3_def by (rule dial_ok [OF assms(1) s2(2)]) (use new [OF Inr] c2(4) in simp)
    then have "runs_to N limit timeout t (Holding conn) c2 c3"
      by (rule runs_to_step) (simp_all add: runs_to_refl c3_def)
    from runs_to_step [OF s1(1) other(1) runs_to_step [OF s2(1) other(2) this]]
    have "runs_to N limit timeout t (Holding conn) c c3" .
    moreover have "agrees a (snd (dialNew E a s)) c3"
      using agree c2 room Inr by (simp add: agrees_def idle_list_def c3_def)
    ultimately show ?thesis using Inr by (auto simp: outcome_def)
  next
    case (Inl e)
    define c3 where "c3 = goto t DialUndo c2"
    define c4 where "c4 = goto t Outside (c3\<lparr>c_count := c_count c3 - 1\<rparr>)"
    have s3: "pool_step N limit timeout c2 c3" "c_pc c3 t = DialUndo"
      using dial_fail [OF assms(1) s2(2)] by (simp_all add: c3_def)
    have "pool_step N limit timeout c3 c4"
      unfolding c4_def by (rule dial_undo [OF assms(1) s3(2)])
    then have "runs_to N limit timeout t Outside c3 c4"
      by (rule runs_to_step) (simp_all add: runs_to_refl c4_def)
    from runs_to_step [OF s3(1) _ this]
    have "runs_to N limit timeout t Outside c2 c4" by (simp add: c3_def)
    from runs_to_step [OF s1(1) other(1) runs_to_step [OF s2(1) other(2) this]]
    have "runs_to N limit timeout t Outside c c4" .
    moreover have "agrees a (snd (dialNew E a s)) c4"
      using agree c2 room Inl by (simp add: agrees_def idle_list_def c3_def c4_def)
    ultimately show ?thesis using Inl by (auto simp: outcome_def)
  qed
qed

section \<open>The operations\<close>

lemma acquire_runs:
  fixes s :: "('e, 'm) pool_sys_scheme"
  assumes "t < N" and "c_pc c t = Outside" and agree: "agrees a s c"
    and limit: "limit = maxUpstreamConnectionsPerHost s" and timeout: "timeout = idleTimeout s"
    and clock: "c_now c \<le> fst (time_Now E (ext s))"
    and new: "\<And>conn. fst (AcquireUpstreamConnection E a s) = Inr conn \<Longrightarrow>
      trace (snd (AcquireUpstreamConnection E a s)) \<noteq> trace s \<Longrightarrow> conn \<notin> c_known c"
  shows "\<exists>c'. runs_to N limit timeout t (outcome (fst (AcquireUpstreamConnection E a s))) c c' \<and>
    agrees a (snd (AcquireUpstreamConnection E a s)) c'"
proof (cases "idle_list a s = []")
  case True
  note eq = acquire_empty [where E = E, OF True]
  define c1 where "c1 = goto t DialLoad c"
  have step: "pool_step N limit timeout c c1"
    unfolding c1_def using agree True assms(2)
    by (intro acquire_none [OF assms(1)]) (simp_all add: agrees_def)
  have new': "conn \<notin> c_known c1" if "fst (dialNew E a (upd_pool a id s)) = Inr conn" for conn
  proof -
    have "slots a (upd_pool a id s) < sint (to_int32 (maxUpstreamConnectionsPerHost (upd_pool a id s)))"
      using that dialNew_full [where s = "upd_pool a id s" and a = a and E = E] by fastforce
    from dialNew_room(3) [where E = E, OF this] new [of conn] that show ?thesis by (simp add: eq c1_def)
  qed
  have "\<exists>c'. runs_to N limit timeout t (outcome (fst (dialNew E a (upd_pool a id s)))) c1 c' \<and>
      agrees a (snd (dialNew E a (upd_pool a id s))) c'"
    by (rule dialNew_runs [OF assms(1)])
      (use agree limit new' in \<open>auto simp: agrees_def c1_def idle_list_def\<close>)
  then obtain c' where run: "runs_to N limit timeout t (outcome (fst (dialNew E a (upd_pool a id s)))) c1 c'"
    and "agrees a (snd (dialNew E a (upd_pool a id s))) c'" by blast
  moreover have "c_pc c1 u = c_pc c u" if "u \<noteq> t" for u using that by (simp add: c1_def)
  ultimately show ?thesis using runs_to_step [OF step _ run] by (auto simp: eq)
next
  case False
  let ?l = "last (idle_list a s)" and ?now = "fst (time_Now E (ext s))"
  define c1 where "c1 = c\<lparr>c_now := ?now\<rparr>"
  have c1: "c_free c1 = idle_list a s" "c_lock c1 = None" "c_now c1 = ?now" "c_pc c1 = c_pc c"
    "c_count c1 = c_count c" "c_known c1 = c_known c"
    using agree by (simp_all add: c1_def agrees_def)
  have "pool_step N limit timeout c (c\<lparr>c_now := c_now c + (?now - c_now c)\<rparr>)"
    by (rule tick) (use clock in simp)
  then have s1: "pool_step N limit timeout c c1" by (simp add: c1_def)
  define c2 where "c2 = goto t (Popped ?l) (c1\<lparr>c_free := butlast (c_free c1)\<rparr>)"
  have s2: "pool_step N limit timeout c1 c2" "c_pc c2 t = Popped ?l"
    using acquire_pop [OF assms(1), of c1 limit timeout] c1 assms(2) False by (simp_all add: c2_def)
  have other: "c_pc c1 u = c_pc c u" "c_pc c2 u = c_pc c1 u" if "u \<noteq> t" for u
    using that by (simp_all add: c1_def c2_def)
  have lead: "runs_to N limit timeout t p c c'" if "runs_to N limit timeout t p c2 c'" for p c'
    using runs_to_step [OF s1 other(1) runs_to_step [OF s2(1) other(2) that]] .
  show ?thesis
  proof (cases "timeout < ?now - returnedAt ?l")
    case fresh: False
    then have "?now - returnedAt ?l \<le> idleTimeout s" by (simp add: timeout)
    note eq = acquire_reuse [where E = E, OF False this]
    define c3 where "c3 = goto t (Holding (idle_conn ?l)) c2"
    have "pool_step N limit timeout c2 c3"
      unfolding c3_def by (rule check_fresh [OF assms(1) s2(2)]) (use fresh c1 in \<open>simp add: c2_def\<close>)
    then have "runs_to N limit timeout t (Holding (idle_conn ?l)) c2 c3"
      by (rule runs_to_step) (simp_all add: runs_to_refl c3_def)
    from lead [OF this] have "runs_to N limit timeout t (Holding (idle_conn ?l)) c c3" .
    moreover have "agrees a (snd (AcquireUpstreamConnection E a s)) c3"
      using agree c1 by (simp add: agrees_def idle_list_def eq c3_def c2_def pool_at_def upd_pool_def)
    ultimately show ?thesis by (auto simp: eq outcome_def)
  next
    case stale: True
    then have "idleTimeout s < ?now - returnedAt ?l" by (simp add: timeout)
    note eq = acquire_stale [where E = E, OF False this]
    define c3 where "c3 = goto t (Stale (idle_conn ?l)) c2"
    define c4 where "c4 = goto t StaleClosed (c3\<lparr>c_closed := c_closed c3 @ [idle_conn ?l]\<rparr>)"
    define c5 where "c5 = goto t DialLoad (c4\<lparr>c_count := c_count c4 - 1\<rparr>)"
    have s3: "pool_step N limit timeout c2 c3" "c_pc c3 t = Stale (idle_conn ?l)"
      using check_stale [OF assms(1) s2(2), of timeout limit] stale c1 by (simp_all add: c2_def c3_def)
    have s4: "pool_step N limit timeout c3 c4" "c_pc c4 t = StaleClosed"
      using stale_close [OF assms(1) s3(2)] by (simp_all add: c4_def)
    have s5: "pool_step N limit timeout c4 c5" "c_pc c5 t = DialLoad"
      using stale_dec [OF assms(1) s4(2)] by (simp_all add: c5_def)
    have other': "c_pc c3 u = c_pc c2 u" "c_pc c4 u = c_pc c3 u" "c_pc c5 u = c_pc c4 u" if "u \<noteq> t" for u
      using that by (simp_all add: c3_def c4_def c5_def)
    have new': "conn \<notin> c_known c5" if "fst (dialNew E a (dropped_stale E a s)) = Inr conn" for conn
    proof -
      have "slots a (dropped_stale E a s) < sint (to_int32 (maxUpstreamConnectionsPerHost (dropped_stale E a s)))"
        using that dialNew_full [where s = "dropped_stale E a s" and a = a and E = E] by fastforce
      from dialNew_room(3) [where E = E, OF this] new [of conn] that show ?thesis
        by (simp add: eq c5_def c4_def c3_def c2_def c1)
    qed
    have agree5: "agrees a (dropped_stale E a s) c5"
      using agree c1 by (simp add: agrees_def idle_list_def c5_def c4_def c3_def c2_def)
    have "\<exists>c'. runs_to N limit timeout t (outcome (fst (dialNew E a (dropped_stale E a s)))) c5 c' \<and>
        agrees a (snd (dialNew E a (dropped_stale E a s))) c'"
      by (rule dialNew_runs [OF assms(1) s5(2)]) (use agree5 limit new' in auto)
    then obtain c' where run: "runs_to N limit timeout t (outcome (fst (dialNew E a (dropped_stale E a s)))) c5 c'"
      and "agrees a (snd (dialNew E a (dropped_stale E a s))) c'" by blast
    moreover note lead [OF runs_to_step [OF s3(1) other'(1)
        runs_to_step [OF s4(1) other'(2) runs_to_step [OF s5(1) other'(3) run]]]]
    ultimately show ?thesis by (auto simp: eq)
  qed
qed

lemma drop_runs:
  fixes s :: "('e, 'm) pool_sys_scheme"
  assumes "t < N" and "c_pc c t = Holding conn" and agree: "agrees a s c"
  shows "\<exists>c'. runs_to N limit timeout t Outside c c' \<and>
    agrees a (CloseAndDropUpstreamConnection E a conn s) c'"
proof -
  define c1 where "c1 = goto t (DropClose conn) (c\<lparr>c_count := c_count c - 1\<rparr>)"
  define c2 where "c2 = goto t Outside (c1\<lparr>c_closed := c_closed c1 @ [conn]\<rparr>)"
  have s1: "pool_step N limit timeout c c1" "c_pc c1 t = DropClose conn"
    using drop_dec [OF assms(1,2)] agree by (simp_all add: c1_def agrees_def)
  have "pool_step N limit timeout c1 c2" unfolding c2_def by (rule drop_close [OF assms(1) s1(2)])
  then have "runs_to N limit timeout t Outside c1 c2"
    by (rule runs_to_step) (simp_all add: runs_to_refl c2_def)
  from runs_to_step [OF s1(1) _ this] have "runs_to N limit timeout t Outside c c2" by (simp add: c1_def)
  moreover have "agrees a (CloseAndDropUpstreamConnection E a conn s) c2"
    using agree by (simp add: agrees_def idle_list_def c1_def c2_def)
  ultimately show ?thesis by blast
qed

lemma release_runs:
  fixes s :: "('e, 'm) pool_sys_scheme"
  assumes "t < N" and "c_pc c t = Holding conn" and agree: "agrees a s c"
    and limit: "limit = maxUpstreamConnectionsPerHost s"
    and clock: "c_now c \<le> fst (time_Now E (ext s))"
  shows "\<exists>c'. runs_to N limit timeout t Outside c c' \<and>
    agrees a (ReleaseUpstreamConnection E a conn s) c'"
proof (cases "limit \<le> int (length (idle_list a s))")
  case True
  define c1 where "c1 = goto t (RelOverflow conn) (c\<lparr>c_lock := Some t\<rparr>)"
  define c2 where "c2 = goto t (RelClose conn) (c1\<lparr>c_count := c_count c1 - 1\<rparr>)"
  define c3 where "c3 = goto t Outside (c2\<lparr>c_lock := None, c_closed := c_closed c2 @ [conn]\<rparr>)"
  have s1: "pool_step N limit timeout c c1" "c_pc c1 t = RelOverflow conn"
    using release_full [OF assms(1,2)] agree True by (simp_all add: c1_def agrees_def)
  have s2: "pool_step N limit timeout c1 c2" "c_pc c2 t = RelClose conn"
    using overflow_dec [OF assms(1) s1(2)] by (simp_all add: c2_def)
  have "pool_step N limit timeout c2 c3" unfolding c3_def by (rule overflow_close [OF assms(1) s2(2)])
  then have "runs_to N limit timeout t Outside c2 c3"
    by (rule runs_to_step) (simp_all add: runs_to_refl c3_def)
  from runs_to_step [OF s2(1) _ this] have "runs_to N limit timeout t Outside c1 c3" by (simp add: c2_def)
  from runs_to_step [OF s1(1) _ this] have "runs_to N limit timeout t Outside c c3" by (simp add: c1_def)
  moreover have "ReleaseUpstreamConnection E a conn s = CloseAndDropUpstreamConnection E a conn s"
    using True limit by (intro release_overflow) simp
  then have "agrees a (ReleaseUpstreamConnection E a conn s) c3"
    using agree by (simp add: agrees_def idle_list_def c1_def c2_def c3_def)
  ultimately show ?thesis by blast
next
  case False
  let ?now = "fst (time_Now E (ext s))"
  define c1 where "c1 = c\<lparr>c_now := ?now\<rparr>"
  define c2 where "c2 = goto t Outside (c1\<lparr>c_free := c_free c1 @ [\<lparr>idle_conn = conn, returnedAt = c_now c1\<rparr>]\<rparr>)"
  have "pool_step N limit timeout c (c\<lparr>c_now := c_now c + (?now - c_now c)\<rparr>)"
    by (rule tick) (use clock in simp)
  then have s1: "pool_step N limit timeout c c1" by (simp add: c1_def)
  have "pool_step N limit timeout c1 c2"
    unfolding c2_def using agree False assms(2)
    by (intro release_push [OF assms(1)]) (simp_all add: c1_def agrees_def)
  then have "runs_to N limit timeout t Outside c1 c2"
    by (rule runs_to_step) (simp_all add: runs_to_refl c2_def)
  from runs_to_step [OF s1 _ this] have "runs_to N limit timeout t Outside c c2" by (simp add: c1_def)
  moreover have "int (length (idle_list a s)) < maxUpstreamConnectionsPerHost s" using False limit by simp
  note eq = release_room [where E = E and c = conn, OF this]
  have "agrees a (ReleaseUpstreamConnection E a conn s) c2"
    using agree by (simp add: agrees_def idle_list_def eq c1_def c2_def pool_at_def upd_pool_def)
  ultimately show ?thesis by blast
qed

text \<open>
  C13. The sequential and the concurrent model of the pool agree: if goroutine \<open>t\<close> is about to
  enter the pool of \<open>a\<close>, Acquire as a whole is one of its runs of atomic actions, which ends with the
  connection in its hands exactly if Acquire succeeds, and with the free list and the counter that Acquire
  leaves; if it holds a connection, the same is true of Release and of CloseAndDrop. No
  other goroutine moves, so what holds of every interleaving holds of the sequential
  operations. (The clock does not go back, and a connection that is dialled is new.)
\<close>
theorem operations_are_runs:
  fixes s :: "('e, 'm) pool_sys_scheme"
  assumes "t < N" and "agrees a s c"
    and "limit = maxUpstreamConnectionsPerHost s" and "timeout = idleTimeout s"
    and "c_now c \<le> fst (time_Now E (ext s))"
    and "\<And>conn. fst (AcquireUpstreamConnection E a s) = Inr conn \<Longrightarrow>
      trace (snd (AcquireUpstreamConnection E a s)) \<noteq> trace s \<Longrightarrow> conn \<notin> c_known c"
  shows "case c_pc c t of
      Outside \<Rightarrow>
        (\<exists>c'. runs_to N limit timeout t (outcome (fst (AcquireUpstreamConnection E a s))) c c' \<and>
           agrees a (snd (AcquireUpstreamConnection E a s)) c')
    | Holding conn \<Rightarrow>
        (\<exists>c'. runs_to N limit timeout t Outside c c' \<and> agrees a (ReleaseUpstreamConnection E a conn s) c') \<and>
        (\<exists>c'. runs_to N limit timeout t Outside c c' \<and> agrees a (CloseAndDropUpstreamConnection E a conn s) c')
    | _ \<Rightarrow> True"
  using acquire_runs [OF assms(1) _ assms(2-6)]
    release_runs [where E = E, OF assms(1) _ assms(2,3,5)]
    drop_runs [where E = E, OF assms(1) _ assms(2)]
  by (auto split: pc.split)

theorem operations_are_runs_witness:
  "\<exists>c'. runs_to 1 100 (45 * Second) 0 (Holding (NetConn 0)) cpool_init c' \<and>
     c_count c' = 1 \<and> reachable 1 100 (45 * Second) c'"
proof -
  let ?s = "pool_init ((0, []) :: sample_state)"
  have acq: "fst (AcquireUpstreamConnection sample_env ''h'' ?s) = Inr (NetConn 0)"
    "cp_count (pool_at ''h'' (snd (AcquireUpstreamConnection sample_env ''h'' ?s))) = 1"
    by (simp_all add: pool_eval sample_simps)
  have "agrees ''h'' ?s cpool_init"
    by (simp add: agrees_def cpool_init_def idle_list_def pool_at_def pool_init_def connPool_zero_def)
  then have "case c_pc cpool_init 0 of
      Outside \<Rightarrow>
        (\<exists>c'. runs_to 1 100 (45 * Second) 0 (outcome (fst (AcquireUpstreamConnection sample_env ''h'' ?s))) cpool_init c' \<and>
           agrees ''h'' (snd (AcquireUpstreamConnection sample_env ''h'' ?s)) c')
    | Holding conn \<Rightarrow>
        (\<exists>c'. runs_to 1 100 (45 * Second) 0 Outside cpool_init c' \<and> agrees ''h'' (ReleaseUpstreamConnection sample_env ''h'' conn ?s) c') \<and>
        (\<exists>c'. runs_to 1 100 (45 * Second) 0 Outside cpool_init c' \<and> agrees ''h'' (CloseAndDropUpstreamConnection sample_env ''h'' conn ?s) c')
    | _ \<Rightarrow> True"
    by (intro operations_are_runs) (simp_all add: cpool_init_def pool_init_def)
  then obtain c' where run: "runs_to 1 100 (45 * Second) 0 (Holding (NetConn 0)) cpool_init c'"
    and "agrees ''h'' (snd (AcquireUpstreamConnection sample_env ''h'' ?s)) c'"
    by (auto simp: cpool_init_def acq(1) outcome_def)
  then have "c_count c' = 1" by (simp add: agrees_def acq(2))
  with run runs_to_reachable [OF reachable.start run] show ?thesis by blast
qed

end
