(* ===== verification/ResponseStream.thy ===== *)
theory ResponseStream
  imports Proxy
begin

text \<open>
  The bytes of a response on their way from the upstream's connection through bufio.Reader,
  TimedReader and PoolReader to the client. The connections are byte streams: each
  delivers a sequence of bytes of which a Read takes the front.
\<close>

section \<open>Connections as byte streams\<close>

text \<open>
  \<open>pending c\<close>: the bytes that connection \<open>c\<close> will deliver. Reading takes them from the
  front, and looking at the clock or closing a connection takes none.
\<close>

definition byte_streams :: "('e, 'x) env_scheme \<Rightarrow> (net_conn \<Rightarrow> 'e \<Rightarrow> byte list) \<Rightarrow> bool" where
  "byte_streams E pending \<longleftrightarrow>
     (\<forall>c n e. length (fst (fst (conn_Read E c n e))) \<le> n \<and>
        pending c e = fst (fst (conn_Read E c n e)) @ pending c (snd (conn_Read E c n e))) \<and>
     (\<forall>c e. pending c (snd (time_Now E e)) = pending c e) \<and>
     (\<forall>c d e. pending c (snd (conn_Close E d e)) = pending c e)"

text \<open>fasthttp reads a response header from the front of its reader, and only there.\<close>

definition header_prefix :: "('e, 'x) proxy_env_scheme \<Rightarrow> (net_conn \<Rightarrow> 'e \<Rightarrow> byte list) \<Rightarrow> bool" where
  "header_prefix E pending \<longleftrightarrow>
     (\<forall>br e r br' e'. header_Read E br e = Some (r, br', e') \<longrightarrow>
        br_src br' = br_src br \<and>
        (\<exists>hb. br_buf br @ pending (br_src br) e = hb @ br_buf br' @ pending (br_src br) e'))"

lemma header_prefixD:
  assumes "header_prefix E pending" and "header_Read E br e = Some (r, br', e')"
  shows "br_src br' = br_src br"
    "\<exists>hb. br_buf br @ pending (br_src br) e = hb @ br_buf br' @ pending (br_src br) e'"
  using assms unfolding header_prefix_def by (cases r; simp)+

text \<open>What a reader over a connection will still deliver.\<close>

definition unread :: "(net_conn \<Rightarrow> 'e \<Rightarrow> byte list) \<Rightarrow> bufio_reader \<Rightarrow> ('e, 'm) sys_scheme \<Rightarrow> byte list" where
  "unread pending br s = br_buf br @ pending (br_src br) (ext s)"

section \<open>The contract of a reader in the stack\<close>

text \<open>
  A Read delivers the front of what is unread, and nothing is lost or repeated; \<open>fit\<close> is
  what the reader needs for it.
\<close>

locale byte_source =
  fixes rd :: "('r, 's) io_read" and fit :: "'r \<Rightarrow> bool" and left :: "'r \<Rightarrow> 's \<Rightarrow> byte list"
  assumes keeps_fit: "fit r \<Longrightarrow> fit (fst (snd (rd r n s)))"
    and delivers: "fit r \<Longrightarrow>
      left r s = fst (fst (rd r n s)) @ left (fst (snd (rd r n s))) (snd (snd (rd r n s)))"
begin

lemma reads_deliver:
  "fit r \<Longrightarrow> reads rd r ns s = (xs, r', s') \<Longrightarrow> fit r' \<and> left r s = read_bytes xs @ left r' s'"
proof (induction ns arbitrary: r s xs)
  case Nil
  then show ?case by simp
next
  case (Cons n ns)
  obtain x r1 s1 where one: "rd r n s = (x, r1, s1)" by (metis prod.exhaust)
  with Cons.prems(2) obtain ys where rest: "reads rd r1 ns s1 = (ys, r', s')" and xs: "xs = x # ys"
    by (cases "reads rd r1 ns s1") auto
  have "fit r1" "left r s = fst x @ left r1 s1"
    using keeps_fit [OF Cons.prems(1), of n s] delivers [OF Cons.prems(1), of s n] one by simp_all
  with Cons.IH [OF this(1) rest] xs show ?case by simp
qed

end

lemma net_Read_stream:
  assumes "byte_streams E pending" and "net_Read E c n s = ((b, err), s')"
  shows "pending c (ext s) = b @ pending c (ext s')"
proof -
  obtain b0 err0 e where rd: "conn_Read E c n (ext s) = ((b0, err0), e)" by (metis prod.exhaust)
  have "length b0 \<le> n" "pending c (ext s) = b0 @ pending c e"
    using assms(1) rd unfolding byte_streams_def by (metis fst_conv snd_conv)+
  with assms(2) rd show ?thesis by (auto simp: net_Read_def)
qed

lemma bufio_Read_stream:
  assumes "byte_streams E pending" and "bufio_Read E br n s = ((b, err), br', s')"
  shows "unread pending br s = b @ unread pending br' s'"
proof -
  obtain b1 err1 s1 where one: "net_Read E (br_src br) n s = ((b1, err1), s1)" by (metis prod.exhaust)
  obtain b2 err2 s2 where two: "net_Read E (br_src br) (br_size br) s = ((b2, err2), s2)"
    by (metis prod.exhaust)
  show ?thesis
  proof (cases "br_size br \<le> n")
    case True
    with assms(2) net_Read_stream [OF assms(1) one] show ?thesis
      by (auto simp: bufio_Read_def unread_def one split: if_splits)
  next
    case False
    with assms(2) net_Read_stream [OF assms(1) two] show ?thesis
      by (auto simp: bufio_Read_def unread_def two split: if_splits)
  qed
qed

interpretation bufio_bytes: byte_source "bufio_Read E" "\<lambda>_. byte_streams E pending" "unread pending"
  for E :: "('e, 'x) env_scheme" and pending
proof unfold_locales
  fix r n and s :: "('e, 'm) sys_scheme"
  assume ok: "byte_streams E pending"
  then show "byte_streams E pending" .
  let ?x = "bufio_Read E r n s"
  have "?x = ((fst (fst ?x), snd (fst ?x)), fst (snd ?x), snd (snd ?x))" by simp
  from bufio_Read_stream [OF ok this]
  show "unread pending r s = fst (fst ?x) @ unread pending (fst (snd ?x)) (snd (snd ?x))" .
qed

lemma now_stream:
  "byte_streams E pending \<Longrightarrow> unread pending br (snd (now E s)) = unread pending br s"
  by (simp add: byte_streams_def unread_def now_def split_beta)

lemma timed_Read_stream:
  assumes "byte_streams E pending" and "timed_Read E (bufio_Read E) tr n s = ((b, err), tr', s')"
  shows "unread pending (tr_reader tr) s = b @ unread pending (tr_reader tr') s'"
proof -
  have observed: "unread pending br (observe h d u) = unread pending br u" for br h d and u :: "('a, 'c) sys_scheme"
    by (simp add: unread_def observe_def)
  have start: "unread pending (tr_reader tr) (snd (timed_start E tr s)) = unread pending (tr_reader tr) s"
    using now_stream [OF assms(1), of "tr_reader tr" s] by (simp add: timed_start_def)
  obtain b1 err1 br1 s1 where
    rd: "bufio_Read E (tr_reader tr) n (snd (timed_start E tr s)) = ((b1, err1), br1, s1)"
    by (metis prod.exhaust)
  from bufio_Read_stream [OF assms(1) rd] assms(2) start now_stream [OF assms(1), of br1 s1] show ?thesis
    by (auto simp: timed_Read_eq rd Let_def observed split: if_splits)
qed

interpretation timed_bytes: byte_source "timed_Read E (bufio_Read E)" "\<lambda>_. byte_streams E pending"
  "\<lambda>tr. unread pending (tr_reader tr)"
  for E :: "('e, 'x) env_scheme" and pending
proof unfold_locales
  fix r n and s :: "('e, 'm) sys_scheme"
  assume ok: "byte_streams E pending"
  then show "byte_streams E pending" .
  let ?x = "timed_Read E (bufio_Read E) r n s"
  have "?x = ((fst (fst ?x), snd (fst ?x)), fst (snd ?x), snd (snd ?x))" by simp
  from timed_Read_stream [OF ok this]
  show "unread pending (tr_reader r) s = fst (fst ?x) @ unread pending (tr_reader (fst (snd ?x))) (snd (snd ?x))" .
qed

lemma close_stream:
  "byte_streams E pending \<Longrightarrow> unread pending br (close_counted E c s) = unread pending br s"
  by (auto simp: byte_streams_def unread_def close_counted_def net_Close_def split_beta count_metric_def
      split: option.split)

lemma pool_vars_stream [simp]:
  "unread pending br (upd_pool a f s) = unread pending br s"
  "unread pending br (AddCount a d s) = unread pending br s"
  by (simp_all add: unread_def)

lemma give_back_stream:
  assumes "byte_streams E pending"
  shows "unread pending br (give_back E pr s) = unread pending br s"
  by (simp add: give_back_def ReleaseUpstreamConnection_def CloseAndDropUpstreamConnection_def
      LoadOrStore_def Let_def split_beta close_stream [OF assms] now_stream [OF assms])

text \<open>What PoolReader's cleanup must respect: it takes no bytes.\<close>

definition quiet_cleanup :: "('r, ('e, 'm) pool_sys_scheme) pool_reader \<Rightarrow> bool" where
  "quiet_cleanup pr \<longleftrightarrow> (\<forall>f r s. pr_onDone pr = Some f \<longrightarrow> ext (f r s) = ext s)"

lemma body_stack_Read_stream:
  assumes "byte_streams E pending" and "quiet_cleanup pr"
    and "body_stack_Read E pr n s = ((b, err), pr', s')"
  shows "unread pending (tr_reader (pr_reader pr)) s = b @ unread pending (tr_reader (pr_reader pr')) s'"
    and "quiet_cleanup pr'"
proof -
  obtain b1 err1 r s1 where
    rd: "timed_Read E (bufio_Read E) (pr_reader pr) (limited pr n) s = ((b1, err1), r, s1)"
    by (metis prod.exhaust)
  have quiet: "unread pending br (call_onDone (after_read pr b r) t) = unread pending br t" for br b r t
    using assms(2) by (auto simp: quiet_cleanup_def call_onDone_def unread_def split: option.split)
  have "unread pending (tr_reader (pr_reader pr)) s = b @ unread pending (tr_reader (pr_reader pr')) s' \<and>
    quiet_cleanup pr'"
  proof (cases "pr_remain pr = 0")
    case True
    with assms show ?thesis by (auto simp: pool_Read_exhausted)
  next
    case False
    from pool_Read_eq [where E = E and rd = "timed_Read E (bufio_Read E)" and pr = pr, OF False rd] assms(3) have
      "b = b1" "pr_reader pr' = r" "pr_onDone pr' = pr_onDone pr"
      "unread pending (tr_reader r) s' = unread pending (tr_reader r) s1"
      using quiet give_back_stream [OF assms(1)] by (auto split: if_splits)
    with timed_Read_stream [OF assms(1) rd] assms(2) show ?thesis by (simp add: quiet_cleanup_def)
  qed
  then show "unread pending (tr_reader (pr_reader pr)) s = b @ unread pending (tr_reader (pr_reader pr')) s'"
    "quiet_cleanup pr'" by simp_all
qed

interpretation body_bytes: byte_source "body_stack_Read E"
  "\<lambda>pr. byte_streams E pending \<and> quiet_cleanup pr" "\<lambda>pr. unread pending (tr_reader (pr_reader pr))"
  for E :: "('e, 'x) env_scheme" and pending
proof unfold_locales
  fix pr :: "(bufio_reader timed_reader, ('e, 'm) pool_sys_scheme) pool_reader"
    and n and s :: "('e, 'm) pool_sys_scheme"
  assume ok: "byte_streams E pending \<and> quiet_cleanup pr"
  let ?x = "body_stack_Read E pr n s"
  have eq: "?x = ((fst (fst ?x), snd (fst ?x)), fst (snd ?x), snd (snd ?x))" by simp
  show "byte_streams E pending \<and> quiet_cleanup (fst (snd ?x))"
    using body_stack_Read_stream(2) [OF _ _ eq] ok by blast
  show "unread pending (tr_reader (pr_reader pr)) s =
      fst (fst ?x) @ unread pending (tr_reader (pr_reader (fst (snd ?x)))) (snd (snd ?x))"
    using body_stack_Read_stream(1) [OF _ _ eq] ok by blast
qed

section \<open>A whole response\<close>

text \<open>Where the header is read: a clean reader on the connection, nothing else in between.\<close>

lemma readResponseHeaders_stream:
  fixes s :: "('e, 'm) proxy_sys_scheme" and E :: "('e, 'x) proxy_env_scheme"
  assumes "header_prefix E pending" and "readResponseHeaders E h s = Some (True, h', s')"
    and "h_connection h = Some c"
  obtains br0 and s0 :: "('e, 'm) proxy_sys_scheme" and br hdr hb where
    "AcquireBufIOReader E c s = (br0, s0)" "br_src br0 = c" "br_buf br0 = []"
    "header_Read E br0 (ext s0) = Some ((None, hdr), br, ext s')" "br_src br = c"
    "h_bufIOReader h' = Some br" "h_responseHeader h' = Some hdr"
    "pending c (ext s0) = hb @ br_buf br @ pending c (ext s')"
  using assms(2)
proof (cases rule: readResponseHeaders_cases)
  case (1 br0 s0 err hdr br e)
  have get: "AcquireBufIOReader E c s = (br0, s0)" using 1(1) assms(3) by simp
  then have clean: "br_src br0 = c" "br_buf br0 = []" using AcquireBufIOReader_clean [of E c s] by simp_all
  have rd: "header_Read E br0 (ext s0) = Some ((None, hdr), br, ext s')" using 1(2,3,8) by simp
  with clean have "br_src br = c" "\<exists>hb. pending c (ext s0) = hb @ br_buf br @ pending c (ext s')"
    using header_prefixD [OF assms(1) rd] by simp_all
  with that [OF get clean rd _ 1(4,5)] show thesis by blast
qed

text \<open>No Read exceeds what is left of the length, whatever the state of the pools.\<close>

lemma body_Read_limit:
  assumes one: "body_stack_Read E pr n s = ((b, err), pr', s')" and "0 \<le> pr_remain pr"
  shows "0 \<le> pr_remain pr' \<and> pr_remain pr = pr_remain pr' + int (length b)"
proof (cases "pr_remain pr = 0")
  case True
  with one show ?thesis by (auto simp: pool_Read_exhausted)
next
  case False
  obtain b1 err1 r s1 where
    rd: "timed_Read E (bufio_Read E) (pr_reader pr) (limited pr n) s = ((b1, err1), r, s1)"
    by (metis prod.exhaust)
  have "length b1 \<le> limited pr n" using timed_body.rd_short [OF rd] .
  moreover from pool_Read_eq [where E = E and rd = "timed_Read E (bufio_Read E)" and pr = pr, OF False rd] one
  have "b = b1" "pr_remain pr' = pr_remain (after_read pr b r)" by (auto split: if_splits)
  ultimately show ?thesis using assms(2) by (auto simp: after_read_def limited_def split: if_splits)
qed

lemma body_limit:
  assumes "reads (body_stack_Read E) pr ns s = (xs, pr', t)" and "0 \<le> pr_remain pr"
  shows "int (length (read_bytes xs)) \<le> pr_remain pr"
  using assms
proof (induction ns arbitrary: pr s xs)
  case Nil
  then show ?case by simp
next
  case (Cons n ns)
  obtain b err pr1 s1 where one: "body_stack_Read E pr n s = ((b, err), pr1, s1)" by (metis prod.exhaust)
  with Cons.prems(1) obtain ys where rest: "reads (body_stack_Read E) pr1 ns s1 = (ys, pr', t)"
    and xs: "xs = (b, err) # ys"
    by (cases "reads (body_stack_Read E) pr1 ns s1") auto
  with Cons.IH [OF rest] body_Read_limit [OF one Cons.prems(2)] show ?case by simp
qed

text \<open>
  C5. A response is delivered faithfully. Right after the whole request has been written, the
  header is read from the connection of the request, by a reader without left-over bytes. If
  connections are byte streams and the header reader takes some bytes from the front of its
  reader, then the client reads, in order and without a gap, the bytes right after
  those: first what the header reader had buffered and not used, then what the connection
  delivers; what the client has not read is still to come. For a known length no byte beyond
  it is delivered.
\<close>
theorem response_forwarded:
  fixes s :: "('e, 'm) proxy_sys_scheme" and E :: "('e, 'x) proxy_env_scheme"
  assumes "byte_streams E pending" and "header_prefix E pending"
    and "serve url_Parse E req s = Some (h', s')" and "body_streams h' = [pr]"
    and "reads (body_stack_Read E) pr ns s' = (xs, pr', t)"
  shows "\<exists>c hdr h3 s3 h4 (s4 :: ('e, 'm) proxy_sys_scheme) br0 s0 br hb.
    h_connection h' = Some c \<and> h_responseHeader h' = Some hdr \<and>
    writeRequestBody E h3 s3 = Some (True, h4, s4) \<and> h_ctx h4 = req \<and> h_connection h4 = Some c \<and>
    trace s4 = trace s' \<and>
    AcquireBufIOReader E c s4 = (br0, s0) \<and> br_src br0 = c \<and> br_buf br0 = [] \<and>
    header_Read E br0 (ext s0) = Some ((None, hdr), br, ext s') \<and>
    pending c (ext s0) = hb @ br_buf br @ pending c (ext s') \<and>
    br_buf br @ pending c (ext s') = read_bytes xs @ unread pending (tr_reader (pr_reader pr')) t \<and>
    (0 \<le> rh_ContentLength hdr \<longrightarrow> int (length (read_bytes xs)) \<le> rh_ContentLength hdr)"
  using assms(3)
proof (cases rule: serve_cases)
  case no_upstream
  from resolve_frame(9) [OF this] assms(4) show ?thesis by (simp add: body_streams_def)
next
  case (no_connection h1 s1 err s2)
  from no_connection(3) resolve_frame(8) [OF no_connection(1)] assms(4) show ?thesis
    by (auto simp: body_streams_def)
next
  case (failed h1 s1 c s2 s3)
  from answers_502_client [OF failed(6)] resolve_frame(8) [OF failed(1)] assms(4) show ?thesis
    by (auto simp: body_streams_def)
next
  case (streams h1 s1 c s2 h3 s3 h4 s4 h5 s5 br hdr)
  have h5: "h_connection h5 = Some c" "h_ctx h5 = req"
    using same_requestD [OF streams(3)] resolve_frame(7) [OF streams(1)] by simp_all
  then have h4: "h_connection h4 = Some c" "h_ctx h4 = req"
    using same_requestD [OF readResponseHeaders_step(1) [OF streams(12), THEN conjunct1]] by simp_all
  note resp = streamed_response [OF streams(7,8) h5(1) streams(9)]
  obtain br0 hb and s0 :: "('e, 'm) proxy_sys_scheme" where
    head: "AcquireBufIOReader E c s4 = (br0, s0)" "br_src br0 = c" "br_buf br0 = []"
    "header_Read E br0 (ext s0) = Some ((None, hdr), br, ext s5)" "br_src br = c"
    "pending c (ext s0) = hb @ br_buf br @ pending c (ext s5)"
    by (rule readResponseHeaders_stream [OF assms(2) streams(12) h4(1)])
      (use streams(7,8) that in fastforce)
  have "body_streams h5 = []"
    using client_of_resp [OF streams(6)] resolve_frame(8) [OF streams(1)]
    by (auto simp: body_streams_def)
  with resp(2) assms(4) have pr: "pr = response_stream (h_upstreamAddress h5) c br hdr" by simp
  have same: "ext s' = ext s5"
    using streams(9) by (auto simp: copyResponseStatus_def count_metric_def streams(8) split: if_splits)
  have "byte_streams E pending \<and> quiet_cleanup pr"
    using assms(1)
    by (simp add: pr quiet_cleanup_def response_stream_def NewPoolReader_def ReleaseBufIOReader_def
        gauge_defs)
  from body_bytes.reads_deliver [OF this assms(5)]
  have del: "br_buf br @ pending c (ext s') = read_bytes xs @ unread pending (tr_reader (pr_reader pr')) t"
    by (simp add: pr response_stream_def NewPoolReader_def NewTimedReader_def unread_def head(5))
  have hdr: "h_responseHeader h' = Some hdr"
    using streams(8,9)
    by (auto simp: copyResponseStatus_def streamResponseBody_def respond_def Let_def split: if_splits)
  have tr: "trace s4 = trace s'" using readResponseHeaders_step(2) [OF streams(12)] resp(4) by simp
  have "0 \<le> rh_ContentLength hdr \<longrightarrow> int (length (read_bytes xs)) \<le> rh_ContentLength hdr"
    using body_limit [OF assms(5)] by (simp add: pr)
  with head(1-4,6) resp(6) hdr streams(11) h4 tr del show ?thesis
    by (intro exI [of _ c] exI [of _ hdr] exI [of _ h3] exI [of _ s3] exI [of _ h4] exI [of _ s4]
        exI [of _ br0] exI [of _ s0] exI [of _ br] exI [of _ hb]) (simp add: same)
qed

text \<open>A network of byte streams: reads take the front of what the script holds.\<close>

definition stream_env :: "response_header \<Rightarrow> sample_state proxy_env" where
  "stream_env hdr = (proxy_sample_env hdr)\<lparr>conn_Read := (\<lambda>c n st.
     let bs = concat (map fst (snd st))
     in ((take n bs, if bs = [] then Some EOF else None), (fst st, [(drop n bs, None)])))\<rparr>"

definition script_bytes :: "net_conn \<Rightarrow> sample_state \<Rightarrow> byte list" where
  "script_bytes c st = concat (map fst (snd st))"

lemma stream_env_sel [simp]:
  "time_Now (stream_env hdr) = time_Now sample_env"
  "rand_Intn (stream_env hdr) = rand_Intn sample_env"
  "dial_call (stream_env hdr) = dial_call sample_env"
  "conn_Close (stream_env hdr) = conn_Close sample_env"
  "conn_Write (stream_env hdr) = conn_Write sample_env"
  "body_Read (stream_env hdr) = body_Read sample_env"
  "pool_Get (stream_env hdr) = pool_Get sample_env"
  "header_Read (stream_env hdr) br st = Some ((None, hdr), br, st)"
  "conn_Read (stream_env hdr) c n st =
     (let bs = concat (map fst (snd st))
      in ((take n bs, if bs = [] then Some EOF else None), (fst st, [(drop n bs, None)])))"
  by (simp_all add: stream_env_def)

theorem response_forwarded_witness:
  "\<exists>h' s' pr xs pr' t. serve sample_url_Parse (stream_env (sample_header 200 3)) sample_request
       (proxy_init (0, [([1, 2, 3, 4], None)]) (NewUpstreams sample_url_Parse [])) = Some (h', s') \<and>
     body_streams h' = [pr] \<and>
     reads (body_stack_Read (stream_env (sample_header 200 3))) pr [8] s' = (xs, pr', t) \<and>
     (\<exists>br. header_Read (stream_env (sample_header 200 3)) br (ext s') =
        Some ((None, sample_header 200 3), br, ext s') \<and> br_buf br = [] \<and>
      script_bytes (NetConn 0) (ext s') = [1, 2, 3] @ unread script_bytes (tr_reader (pr_reader pr')) t)"
proof -
  let ?E = "stream_env (sample_header 200 3)"
  let ?s = "proxy_init (0, [([1, 2, 3, 4], None)]) (NewUpstreams sample_url_Parse [])"
  have ok: "byte_streams ?E script_bytes" "header_prefix ?E script_bytes"
    by (auto simp: byte_streams_def header_prefix_def script_bytes_def Let_def)
  have "map_option (\<lambda>r. length (body_streams (fst r))) (serve sample_url_Parse ?E sample_request ?s) = Some 1"
    by (simp add: serve_eval body_streams_def)
  then obtain h' s' where run: "serve sample_url_Parse ?E sample_request ?s = Some (h', s')"
    and "length (body_streams h') = 1" by auto
  then obtain pr where pr: "body_streams h' = [pr]" by (auto simp: length_Suc_conv)
  obtain xs pr' t where rd: "reads (body_stack_Read ?E) pr [8] s' = (xs, pr', t)" by (metis prod.exhaust)
  have "map_option (\<lambda>r. fst (reads (body_stack_Read ?E) (hd (body_streams (fst r))) [8] (snd r)))
      (serve sample_url_Parse ?E sample_request ?s) = Some [([1, 2, 3], None)]"
    by (simp add: serve_eval body_streams_def sample_body_eval)
  with run pr rd have "read_bytes xs = [1, 2, 3]" by simp
  with response_forwarded [OF ok run pr rd] obtain br0 c where
    "br_buf (br0 :: bufio_reader) = []" "script_bytes c (ext s') = [1, 2, 3] @ unread script_bytes (tr_reader (pr_reader pr')) t"
    by (elim exE conjE) (rule that; fastforce)
  with run pr rd show ?thesis by (auto simp: script_bytes_def)
qed

end
