(* ===== verification/UpstreamRace.thy ===== *)
theory UpstreamRace
  imports Handler
begin

text \<open>
  \<open>upstreamsObj\<close> is one variable that all requests share, without a lock: \<open>resolveUpstream\<close>
  (internal/proxy/handler.go) calls \<open>Random\<close> and \<open>Append\<close> (internal/upstream/upstream.go) from
  many goroutines at once. Here these functions are cut at their accesses to the shared
  map and slice, and any number of goroutines interleave.

  A slice is an array and a length; append writes into the array when it has room, else it
  copies into a new one, whose spare capacity the schedule chooses. A map is being written
  from the start of an assignment to its end, and an access in between is
  fatal, as the runtime of Go documents. Every other access is atomic. For a slice variable that is
  less than Go allows: it is three words, and without a lock another goroutine may see some of them
  stored and the others not, or all of them before the element. So the runs here are some of those of the
  program. They are enough to show that it can go wrong, and they are all there is
  where nobody writes the slice (configured upstreams); that racing goroutines
  keep some invariant is not claimed.
\<close>

section \<open>The shared variables and the program points\<close>

record go_slice =
  sl_array :: nat
  sl_len :: nat

text \<open>Random, and Append of one address.\<close>

datatype random_point =
    CheckEmpty           \<comment> \<open>about to compare \<open>len(u.keys)\<close> with 0\<close>
  | LoadLen              \<comment> \<open>about to load \<open>len(u.keys)\<close> for \<open>rand.Intn\<close>\<close>
  | LoadSlice nat        \<comment> \<open>\<open>rand.Intn\<close> has answered, about to index \<open>u.keys\<close>\<close>
  | LoadElem go_slice nat  \<comment> \<open>index checked, about to load the element\<close>

datatype append_point =
    MapLookup            \<comment> \<open>about to look \<open>u.m[address]\<close> up\<close>
  | MapAssign            \<comment> \<open>not there and parsed, about to start assigning\<close>
  | MapWriting           \<comment> \<open>in the assignment\<close>
  | LoadKeys             \<comment> \<open>about to load \<open>u.keys\<close> for append\<close>
  | Extend go_slice      \<comment> \<open>loaded, about to write the element\<close>
  | StoreKeys go_slice   \<comment> \<open>about to store the longer slice in \<open>u.keys\<close>\<close>

datatype resolve_point =
    NoRequest
  | InRandom string random_point     \<comment> \<open>serving a request with this Host\<close>
  | NoUpstream string                \<comment> \<open>Random answered false\<close>
  | InAppend string append_point     \<comment> \<open>appending this address\<close>
  | ResolvedTo string                \<comment> \<open>resolveUpstream returned true\<close>
  | NoHost                           \<comment> \<open>resolveUpstream returned false\<close>

datatype crash = ConcurrentMapAccess | IntnArgument | IndexOutOfRange | NilDereference

text \<open>\<open>su_hosts\<close> records the Host of every request so far.\<close>

record shared_upstreams =
  su_m :: "string \<Rightarrow> upstream option"
  su_writing :: bool
  su_keys :: go_slice
  su_arrays :: "nat \<Rightarrow> upstream option list"
  su_next :: nat
  su_point :: "nat \<Rightarrow> resolve_point"
  su_hosts :: "string set"
  su_crash :: "crash option"

definition upto_point :: "nat \<Rightarrow> resolve_point \<Rightarrow> shared_upstreams \<Rightarrow> shared_upstreams" where
  "upto_point t p s = s\<lparr>su_point := (su_point s)(t := p)\<rparr>"

definition crashed :: "crash \<Rightarrow> shared_upstreams \<Rightarrow> shared_upstreams" where
  "crashed c s = s\<lparr>su_crash := Some c\<rparr>"

section \<open>The steps\<close>

text \<open>\<open>c\<close> is what the outside decides in this step: here the answer of \<open>rand.Intn\<close>.\<close>

fun random_step :: "nat \<Rightarrow> nat \<Rightarrow> string \<Rightarrow> random_point \<Rightarrow> shared_upstreams \<Rightarrow> shared_upstreams" where
  "random_step t c host CheckEmpty s =
     upto_point t (if sl_len (su_keys s) = 0 then NoUpstream host else InRandom host LoadLen) s"
| "random_step t c host LoadLen s =
     (if sl_len (su_keys s) = 0 then crashed IntnArgument s
      else upto_point t (InRandom host (LoadSlice (c mod sl_len (su_keys s)))) s)"
| "random_step t c host (LoadSlice i) s =
     (if i < sl_len (su_keys s) then upto_point t (InRandom host (LoadElem (su_keys s) i)) s
      else crashed IndexOutOfRange s)"
| "random_step t c host (LoadElem sl i) s =
     (case su_arrays s (sl_array sl) ! i of
        None \<Rightarrow> crashed NilDereference s
      | Some up \<Rightarrow> upto_point t (ResolvedTo (up_Address up)) s)"

text \<open>Here \<open>c\<close> is the spare capacity of a new array.\<close>

fun append_step ::
  "url_parser \<Rightarrow> nat \<Rightarrow> nat \<Rightarrow> string \<Rightarrow> append_point \<Rightarrow> shared_upstreams \<Rightarrow> shared_upstreams" where
  "append_step url_Parse t c a MapLookup s =
     (if su_writing s then crashed ConcurrentMapAccess s
      else if su_m s a \<noteq> None then upto_point t (ResolvedTo a) s
      else upto_point t (InAppend a MapAssign) s)"
| "append_step url_Parse t c a MapAssign s =
     (if su_writing s then crashed ConcurrentMapAccess s
      else upto_point t (InAppend a MapWriting) (s\<lparr>su_writing := True\<rparr>))"
| "append_step url_Parse t c a MapWriting s =
     upto_point t (InAppend a LoadKeys)
       (s\<lparr>su_m := (su_m s)(a \<mapsto> stored_upstream url_Parse a), su_writing := False\<rparr>)"
| "append_step url_Parse t c a LoadKeys s = upto_point t (InAppend a (Extend (su_keys s))) s"
| "append_step url_Parse t c a (Extend sl) s =
     (let old = su_arrays s (sl_array sl); up = Some (stored_upstream url_Parse a) in
      if sl_len sl < length old then
        upto_point t (InAppend a (StoreKeys (sl\<lparr>sl_len := Suc (sl_len sl)\<rparr>)))
          (s\<lparr>su_arrays := (su_arrays s)(sl_array sl := old[sl_len sl := up])\<rparr>)
      else
        upto_point t (InAppend a (StoreKeys \<lparr>sl_array = su_next s, sl_len = Suc (sl_len sl)\<rparr>))
          (s\<lparr>su_arrays := (su_arrays s)
               (su_next s := take (sl_len sl) old @ [up] @ replicate c None),
             su_next := Suc (su_next s)\<rparr>))"
| "append_step url_Parse t c a (StoreKeys sl) s =
     upto_point t (ResolvedTo a) (s\<lparr>su_keys := sl\<rparr>)"

fun resolve_step ::
  "url_parser \<Rightarrow> nat \<Rightarrow> nat \<Rightarrow> resolve_point \<Rightarrow> shared_upstreams \<Rightarrow> shared_upstreams" where
  "resolve_step url_Parse t c (InRandom host q) s = random_step t c host q s"
| "resolve_step url_Parse t c (NoUpstream host) s =
     upto_point t
       (if host = [] then NoHost
        else InAppend
          (if \<not> HasPrefix host PrefixHTTP \<and> \<not> HasPrefix host PrefixHTTPS
           then PrefixHTTP @ host else host) MapLookup) s"
| "resolve_step url_Parse t c (InAppend a q) s = append_step url_Parse t c a q s"
| "resolve_step url_Parse t c NoRequest s = s"
| "resolve_step url_Parse t c (ResolvedTo a) s = s"
| "resolve_step url_Parse t c NoHost s = s"

text \<open>A request arrives at a goroutine that serves none, or one takes a step.\<close>

datatype move = Arrive nat string | Go nat nat

fun idle_point :: "resolve_point \<Rightarrow> bool" where
  "idle_point (InRandom host q) = False" | "idle_point (NoUpstream host) = False"
| "idle_point (InAppend a q) = False" | "idle_point p = True"

fun shared_step :: "url_parser \<Rightarrow> move \<Rightarrow> shared_upstreams \<Rightarrow> shared_upstreams" where
  "shared_step url_Parse (Arrive t host) s =
     (if su_crash s = None \<and> idle_point (su_point s t)
      then upto_point t (InRandom host CheckEmpty) (s\<lparr>su_hosts := insert host (su_hosts s)\<rparr>)
      else s)"
| "shared_step url_Parse (Go t c) s =
     (if su_crash s = None then resolve_step url_Parse t c (su_point s t) s else s)"

definition shared_run :: "url_parser \<Rightarrow> move list \<Rightarrow> shared_upstreams \<Rightarrow> shared_upstreams" where
  "shared_run url_Parse = fold (shared_step url_Parse)"

text \<open>After \<open>Handler(upstreams)\<close>, before the first request.\<close>

definition shared_init :: "url_parser \<Rightarrow> string list \<Rightarrow> shared_upstreams" where
  "shared_init url_Parse ups =
     (let u = NewUpstreams url_Parse ups in
      \<lparr>su_m = ups_m u, su_writing = False, su_keys = \<lparr>sl_array = 0, sl_len = length (ups_keys u)\<rparr>,
       su_arrays = (\<lambda>_. [])(0 := ups_keys u), su_next = 1, su_point = (\<lambda>_. NoRequest),
       su_hosts = {}, su_crash = None\<rparr>)"

text \<open>The set of upstreams that a goroutine running alone would see.\<close>

definition shared_view :: "shared_upstreams \<Rightarrow> upstreams" where
  "shared_view s =
     \<lparr>ups_m = su_m s, ups_keys = take (sl_len (su_keys s)) (su_arrays s (sl_array (su_keys s)))\<rparr>"

lemma upto_point_sel [simp]:
  "su_point (upto_point t p s) = (su_point s)(t := p)"
  "su_m (upto_point t p s) = su_m s" "su_writing (upto_point t p s) = su_writing s"
  "su_keys (upto_point t p s) = su_keys s" "su_arrays (upto_point t p s) = su_arrays s"
  "su_next (upto_point t p s) = su_next s" "su_hosts (upto_point t p s) = su_hosts s"
  "su_crash (upto_point t p s) = su_crash s"
  by (simp_all add: upto_point_def)

lemma crashed_sel [simp]:
  "su_point (crashed c s) = su_point s" "su_m (crashed c s) = su_m s"
  "su_writing (crashed c s) = su_writing s" "su_keys (crashed c s) = su_keys s"
  "su_arrays (crashed c s) = su_arrays s" "su_next (crashed c s) = su_next s"
  "su_hosts (crashed c s) = su_hosts s" "su_crash (crashed c s) = Some c"
  by (simp_all add: crashed_def)

lemma shared_run_simps [simp]:
  "shared_run url_Parse [] s = s"
  "shared_run url_Parse (mv # mvs) s = shared_run url_Parse mvs (shared_step url_Parse mv s)"
  by (simp_all add: shared_run_def)

lemma shared_init_view: "shared_view (shared_init url_Parse ups) = NewUpstreams url_Parse ups"
  by (simp add: shared_view_def shared_init_def Let_def)

text \<open>What holds of every run: it holds before the first request and every step keeps it.\<close>

locale shared_invariant =
  fixes url_Parse :: url_parser and ups :: "string list" and I :: "shared_upstreams \<Rightarrow> bool"
  assumes init: "I (shared_init url_Parse ups)"
    and arrive: "I s \<Longrightarrow> su_crash s = None \<Longrightarrow> idle_point (su_point s t) \<Longrightarrow>
      I (upto_point t (InRandom host CheckEmpty) (s\<lparr>su_hosts := insert host (su_hosts s)\<rparr>))"
    and step: "I s \<Longrightarrow> su_crash s = None \<Longrightarrow> I (resolve_step url_Parse t c (su_point s t) s)"
begin

lemma kept: "I s \<Longrightarrow> I (shared_run url_Parse mvs s)"
proof (induction mvs arbitrary: s)
  case Nil
  then show ?case by simp
next
  case (Cons mv mvs)
  have "I (shared_step url_Parse mv s)"
    using Cons.prems by (cases mv) (simp_all add: arrive step)
  with Cons.IH show ?case by simp
qed

lemma holds: "I (shared_run url_Parse mvs (shared_init url_Parse ups))"
  by (rule kept [OF init])

end

section \<open>Configured upstreams\<close>

text \<open>With configured upstreams nobody appends, and the variables stay as they were made.\<close>

definition configured_addresses :: "url_parser \<Rightarrow> string list \<Rightarrow> string set" where
  "configured_addresses url_Parse ups = (up_Address \<circ> stored_upstream url_Parse) ` set ups"

fun frozen_point :: "url_parser \<Rightarrow> string list \<Rightarrow> resolve_point \<Rightarrow> bool" where
  "frozen_point url_Parse ups (InRandom host (LoadSlice i)) = (i < length ups)"
| "frozen_point url_Parse ups (InRandom host (LoadElem sl i)) =
     (sl = \<lparr>sl_array = 0, sl_len = length ups\<rparr> \<and> i < length ups)"
| "frozen_point url_Parse ups (ResolvedTo a) = (a \<in> configured_addresses url_Parse ups)"
| "frozen_point url_Parse ups (NoUpstream host) = False"
| "frozen_point url_Parse ups (InAppend a q) = False"
| "frozen_point url_Parse ups NoHost = False"
| "frozen_point url_Parse ups p = True"

definition frozen :: "url_parser \<Rightarrow> string list \<Rightarrow> shared_upstreams \<Rightarrow> bool" where
  "frozen url_Parse ups s \<longleftrightarrow>
     su_crash s = None \<and> su_m s = ups_m (NewUpstreams url_Parse ups) \<and>
     su_keys s = \<lparr>sl_array = 0, sl_len = length ups\<rparr> \<and>
     su_arrays s 0 = ups_keys (NewUpstreams url_Parse ups) \<and>
     (\<forall>t. frozen_point url_Parse ups (su_point s t))"

lemma frozen_random:
  assumes "frozen url_Parse ups s" and "ups \<noteq> []" and "su_point s t = InRandom host q"
  shows "frozen url_Parse ups (random_step t c host q s)"
proof -
  have len: "0 < length ups" using assms(2) by simp
  have at: "frozen_point url_Parse ups (InRandom host q)"
    using assms(1,3) by (metis frozen_def)
  show ?thesis
  proof (cases q)
    case (LoadElem sl i)
    with at have "su_arrays s (sl_array sl) ! i = Some (stored_upstream url_Parse (ups ! i))"
      and "ups ! i \<in> set ups"
      using assms(1) by (simp_all add: frozen_def NewUpstreams_keys)
    with LoadElem assms(1) show ?thesis
      by (simp add: frozen_def configured_addresses_def)
  qed (use assms(1) at len in \<open>simp_all add: frozen_def\<close>)
qed

lemma frozen_step:
  assumes "frozen url_Parse ups s" and "ups \<noteq> []"
  shows "frozen url_Parse ups (resolve_step url_Parse t c (su_point s t) s)"
proof -
  have at: "frozen_point url_Parse ups (su_point s t)" using assms(1) by (simp add: frozen_def)
  show ?thesis
  proof (cases "su_point s t")
    case (InRandom host q)
    with frozen_random [OF assms InRandom] show ?thesis by simp
  qed (use at assms(1) in simp_all)
qed

interpretation unwritten: shared_invariant url_Parse ups "\<lambda>s. ups \<noteq> [] \<longrightarrow> frozen url_Parse ups s"
  for url_Parse :: url_parser and ups :: "string list"
proof unfold_locales
  show "ups \<noteq> [] \<longrightarrow> frozen url_Parse ups (shared_init url_Parse ups)"
    by (simp add: frozen_def shared_init_def Let_def NewUpstreams_keys)
qed (simp_all add: frozen_step, simp add: frozen_def)

section \<open>Any upstreams\<close>

text \<open>
  The addresses a request may be sent to: the configured ones and the Hosts of requests,
  completed with a scheme. Every slice that a goroutine can hold has only entries made
  for such addresses.
\<close>

definition known_addresses :: "string list \<Rightarrow> shared_upstreams \<Rightarrow> string set" where
  "known_addresses ups s = set ups \<union> with_scheme ` (su_hosts s - {[]})"

definition sound_slice ::
  "url_parser \<Rightarrow> string list \<Rightarrow> shared_upstreams \<Rightarrow> go_slice \<Rightarrow> bool" where
  "sound_slice url_Parse ups s sl \<longleftrightarrow>
     sl_array sl < su_next s \<and> sl_len sl \<le> length (su_arrays s (sl_array sl)) \<and>
     (\<forall>i < sl_len sl. \<exists>a \<in> known_addresses ups s.
        su_arrays s (sl_array sl) ! i = Some (stored_upstream url_Parse a))"

fun sound_point ::
  "url_parser \<Rightarrow> string list \<Rightarrow> shared_upstreams \<Rightarrow> resolve_point \<Rightarrow> bool" where
  "sound_point url_Parse ups s (InRandom host (LoadElem sl i)) =
     (sound_slice url_Parse ups s sl \<and> i < sl_len sl \<and> host \<in> su_hosts s)"
| "sound_point url_Parse ups s (InRandom host q) = (host \<in> su_hosts s)"
| "sound_point url_Parse ups s (NoUpstream host) = (host \<in> su_hosts s)"
| "sound_point url_Parse ups s (InAppend a (Extend sl)) =
     (a \<in> known_addresses ups s \<and> sound_slice url_Parse ups s sl)"
| "sound_point url_Parse ups s (InAppend a (StoreKeys sl)) =
     (a \<in> known_addresses ups s \<and> sound_slice url_Parse ups s sl)"
| "sound_point url_Parse ups s (InAppend a q) = (a \<in> known_addresses ups s)"
| "sound_point url_Parse ups s (ResolvedTo a) =
     (\<exists>b \<in> known_addresses ups s. a = b \<or> a = up_Address (stored_upstream url_Parse b))"
| "sound_point url_Parse ups s p = True"

definition sound :: "url_parser \<Rightarrow> string list \<Rightarrow> shared_upstreams \<Rightarrow> bool" where
  "sound url_Parse ups s \<longleftrightarrow>
     sound_slice url_Parse ups s (su_keys s) \<and> su_crash s \<noteq> Some NilDereference \<and>
     (\<forall>t. sound_point url_Parse ups s (su_point s t))"

text \<open>Slices and points stay sound when hosts are added and arrays change soundly.\<close>

definition sound_change ::
  "url_parser \<Rightarrow> string list \<Rightarrow> shared_upstreams \<Rightarrow> shared_upstreams \<Rightarrow> bool" where
  "sound_change url_Parse ups s s' \<longleftrightarrow>
     su_hosts s \<subseteq> su_hosts s' \<and> su_next s \<le> su_next s' \<and>
     (\<forall>p < su_next s. length (su_arrays s' p) = length (su_arrays s p) \<and>
        (\<forall>i < length (su_arrays s p). su_arrays s' p ! i = su_arrays s p ! i \<or>
           (\<exists>a \<in> known_addresses ups s. su_arrays s' p ! i = Some (stored_upstream url_Parse a))))"

lemma sound_change_mono:
  assumes "sound_change url_Parse ups s s'"
  shows "known_addresses ups s \<subseteq> known_addresses ups s'"
    and "sound_slice url_Parse ups s sl \<Longrightarrow> sound_slice url_Parse ups s' sl"
    and "sound_point url_Parse ups s p \<Longrightarrow> sound_point url_Parse ups s' p"
proof -
  show 1: "known_addresses ups s \<subseteq> known_addresses ups s'"
    using assms by (auto simp: sound_change_def known_addresses_def)
  show 2: "sound_slice url_Parse ups s' sl" if "sound_slice url_Parse ups s sl" for sl
    unfolding sound_slice_def
  proof (intro conjI allI impI)
    from that have at: "sl_array sl < su_next s" "sl_len sl \<le> length (su_arrays s (sl_array sl))"
      by (simp_all add: sound_slice_def)
    with assms show "sl_array sl < su_next s'" "sl_len sl \<le> length (su_arrays s' (sl_array sl))"
      by (auto simp: sound_change_def)
    fix i assume "i < sl_len sl"
    with at that assms have "\<exists>a \<in> known_addresses ups s.
        su_arrays s' (sl_array sl) ! i = Some (stored_upstream url_Parse a)"
      unfolding sound_change_def sound_slice_def by (metis order.strict_trans2)
    with 1 show "\<exists>a \<in> known_addresses ups s'.
        su_arrays s' (sl_array sl) ! i = Some (stored_upstream url_Parse a)" by blast
  qed
  have "su_hosts s \<subseteq> su_hosts s'" using assms by (simp add: sound_change_def)
  with 1 2 show "sound_point url_Parse ups s p \<Longrightarrow> sound_point url_Parse ups s' p"
    by (cases "(url_Parse, ups, s, p)" rule: sound_point.cases) auto
qed

lemma sound_change_same:
  assumes "su_hosts s \<subseteq> su_hosts s'" and "su_next s' = su_next s" and "su_arrays s' = su_arrays s"
  shows "sound_change url_Parse ups s s'"
  using assms by (simp add: sound_change_def)

text \<open>One goroutine moves, the others stay where they are.\<close>

lemma sound_move:
  assumes "sound url_Parse ups s" and change: "sound_change url_Parse ups s s'"
    and "su_point s' = (su_point s)(t := p)" and "sound_point url_Parse ups s' p"
    and "sound_slice url_Parse ups s' (su_keys s')" and "su_crash s' \<noteq> Some NilDereference"
  shows "sound url_Parse ups s'"
  using assms sound_change_mono(3) [OF change] by (simp add: sound_def)

lemma soundD:
  assumes "sound url_Parse ups s"
  shows "sound_slice url_Parse ups s (su_keys s)" "su_crash s \<noteq> Some NilDereference"
    "sound_point url_Parse ups s (su_point s t)"
  using assms by (simp_all add: sound_def)

text \<open>The map is not part of the invariant.\<close>

lemma sound_same:
  assumes "sound url_Parse ups s" and "sound_point url_Parse ups s p"
    and eq: "su_point s' = (su_point s)(t := p)" "su_hosts s' = su_hosts s"
      "su_next s' = su_next s" "su_arrays s' = su_arrays s" "su_keys s' = su_keys s"
    and "su_crash s' \<noteq> Some NilDereference"
  shows "sound url_Parse ups s'"
proof -
  have change: "sound_change url_Parse ups s s'" by (rule sound_change_same) (simp_all add: eq)
  from sound_move [OF assms(1) change eq(1) sound_change_mono(3) [OF change assms(2)]] show ?thesis
    using sound_change_mono(2) [OF change soundD(1) [OF assms(1)]] assms(8) by (simp add: eq)
qed

lemma sound_stay:
  assumes "sound url_Parse ups s" and "sound_point url_Parse ups s p"
  shows "sound url_Parse ups (upto_point t p s)"
    and "sound url_Parse ups (upto_point t p (s\<lparr>su_writing := w\<rparr>))"
    and "sound url_Parse ups (upto_point t p (s\<lparr>su_m := m, su_writing := w\<rparr>))"
  by (rule sound_same [OF assms]; simp add: soundD(2) [OF assms(1)])+

lemma sound_crashed:
  assumes "sound url_Parse ups s" and "c \<noteq> NilDereference"
  shows "sound url_Parse ups (crashed c s)"
  by (rule sound_same [OF assms(1) soundD(3) [OF assms(1), of undefined], where t = undefined])
    (simp_all add: assms(2))

lemma sound_random:
  assumes "sound url_Parse ups s" and "su_point s t = InRandom host q"
  shows "sound url_Parse ups (random_step t c host q s)"
proof -
  have at: "sound_point url_Parse ups s (InRandom host q)" using assms by (metis sound_def)
  then have host: "host \<in> su_hosts s" by (cases q) simp_all
  show ?thesis
  proof (cases q)
    case (LoadElem sl i)
    with at obtain a where "a \<in> known_addresses ups s"
      "su_arrays s (sl_array sl) ! i = Some (stored_upstream url_Parse a)"
      by (auto simp: sound_slice_def)
    with LoadElem show ?thesis by (auto intro!: sound_stay [OF assms(1)])
  qed (use host in \<open>auto intro!: sound_stay [OF assms(1)] sound_crashed [OF assms(1)]
      simp: soundD [OF assms(1)]\<close>)
qed

text \<open>append, in place and into a new array.\<close>

lemma sound_extend:
  assumes "sound url_Parse ups s" and "su_point s t = InAppend a (Extend sl)"
  shows "sound url_Parse ups (append_step url_Parse t c a (Extend sl) s)"
proof -
  let ?s = "append_step url_Parse t c a (Extend sl) s"
  have a: "a \<in> known_addresses ups s" and sl: "sound_slice url_Parse ups s sl"
    using assms by (metis sound_def sound_point.simps(6))+
  have known: "known_addresses ups ?s = known_addresses ups s"
    by (simp add: known_addresses_def Let_def)
  have change: "sound_change url_Parse ups s ?s"
    using a sl by (auto simp: sound_change_def sound_slice_def Let_def nth_list_update)
  define new where "new = (if sl_len sl < length (su_arrays s (sl_array sl))
    then sl\<lparr>sl_len := Suc (sl_len sl)\<rparr> else \<lparr>sl_array = su_next s, sl_len = Suc (sl_len sl)\<rparr>)"
  have pt: "su_point ?s = (su_point s)(t := InAppend a (StoreKeys new))"
    by (simp add: new_def Let_def)
  have "sound_slice url_Parse ups ?s new"
    using a sl unfolding sound_slice_def known
    by (auto simp: new_def Let_def nth_append less_Suc_eq nth_list_update min_def)
  with a known have "sound_point url_Parse ups ?s (InAppend a (StoreKeys new))" by simp
  then show ?thesis
  proof (rule sound_move [OF assms(1) change pt])
    have "su_keys ?s = su_keys s" by (simp add: Let_def)
    then show "sound_slice url_Parse ups ?s (su_keys ?s)"
      using sound_change_mono(2) [OF change soundD(1) [OF assms(1)]] by metis
    have "su_crash ?s = su_crash s" by (simp add: Let_def)
    then show "su_crash ?s \<noteq> Some NilDereference" using soundD(2) [OF assms(1)] by metis
  qed
qed

lemma sound_append:
  assumes "sound url_Parse ups s" and "su_point s t = InAppend a q"
  shows "sound url_Parse ups (append_step url_Parse t c a q s)"
proof -
  have at: "sound_point url_Parse ups s (InAppend a q)" using assms by (metis sound_def)
  then have a: "a \<in> known_addresses ups s" by (cases q) simp_all
  show ?thesis
  proof (cases q)
    case (Extend sl)
    with sound_extend [OF assms(1)] assms(2) show ?thesis by simp
  next
    case (StoreKeys sl)
    let ?s = "upto_point t (ResolvedTo a) (s\<lparr>su_keys := sl\<rparr>)"
    have change: "sound_change url_Parse ups s ?s" by (rule sound_change_same) simp_all
    have "sound url_Parse ups ?s"
    proof (rule sound_move [OF assms(1) change])
      show "sound_point url_Parse ups ?s (ResolvedTo a)"
        using a sound_change_mono(1) [OF change] by auto
      show "sound_slice url_Parse ups ?s (su_keys ?s)"
        using at StoreKeys sound_change_mono(2) [OF change] by simp
    qed (use assms(1) in \<open>simp_all add: sound_def\<close>)
    with StoreKeys show ?thesis by simp
  qed (use a in \<open>auto intro!: sound_stay [OF assms(1)] sound_crashed [OF assms(1)]
      simp: soundD [OF assms(1)]\<close>)
qed

lemma sound_step:
  assumes "sound url_Parse ups s"
  shows "sound url_Parse ups (resolve_step url_Parse t c (su_point s t) s)"
proof (cases "su_point s t")
  case (InRandom host q)
  with sound_random [OF assms] show ?thesis by simp
next
  case (NoUpstream host)
  with assms have "host \<in> su_hosts s" by (metis sound_def sound_point.simps(5))
  with NoUpstream show ?thesis
    by (auto intro!: sound_stay [OF assms] simp: known_addresses_def with_scheme_def)
next
  case (InAppend a q)
  with sound_append [OF assms] show ?thesis by simp
qed (use assms in simp_all)

interpretation soundness: shared_invariant url_Parse ups "sound url_Parse ups"
  for url_Parse :: url_parser and ups :: "string list"
proof unfold_locales
  have "sound_slice url_Parse ups (shared_init url_Parse ups) (su_keys (shared_init url_Parse ups))"
    by (auto simp: sound_slice_def shared_init_def Let_def NewUpstreams_keys known_addresses_def
        intro!: bexI [of _ "ups ! _"])
  then show "sound url_Parse ups (shared_init url_Parse ups)"
    by (simp add: sound_def) (simp add: shared_init_def Let_def)
next
  fix s t and host :: string
  let ?s = "upto_point t (InRandom host CheckEmpty) (s\<lparr>su_hosts := insert host (su_hosts s)\<rparr>)"
  assume s: "sound url_Parse ups s"
  have change: "sound_change url_Parse ups s ?s" by (rule sound_change_same) auto
  show "sound url_Parse ups ?s"
    by (rule sound_move [OF s change, where t = t and p = "InRandom host CheckEmpty"])
      (use sound_change_mono(2) [OF change soundD(1) [OF s]] soundD(2) [OF s] in simp_all)
qed (rule sound_step)

section \<open>Properties\<close>

text \<open>
  C16. With upstreams configured, requests may resolve their upstream concurrently in any
  number and order: the process does not crash, every request goes to the address
  of a configured upstream, and map and slice stay as NewUpstreams made them, for only
  requests without an upstream write to them.
\<close>
theorem configured_upstreams_race_free:
  assumes "ups \<noteq> []" and "s = shared_run url_Parse mvs (shared_init url_Parse ups)"
  shows "su_crash s = None \<and> shared_view s = NewUpstreams url_Parse ups \<and>
    (case su_point s t of
       ResolvedTo a \<Rightarrow> a \<in> configured_addresses url_Parse ups
     | NoHost \<Rightarrow> False | InAppend a q \<Rightarrow> False | _ \<Rightarrow> True)"
proof -
  have "frozen url_Parse ups s" using unwritten.holds assms by blast
  then have "frozen_point url_Parse ups (su_point s t)" "su_crash s = None"
    "shared_view s = NewUpstreams url_Parse ups"
    by (simp_all add: frozen_def shared_view_def NewUpstreams_keys)
  then show ?thesis by (auto split: resolve_point.split)
qed

text \<open>The races, as schedules of two hosts from an empty list.\<close>

lemma shared_init_empty:
  "shared_init url_Parse [] =
     \<lparr>su_m = (\<lambda>_. None), su_writing = False, su_keys = \<lparr>sl_array = 0, sl_len = 0\<rparr>,
      su_arrays = (\<lambda>_. []), su_next = 1, su_point = (\<lambda>_. NoRequest), su_hosts = {}, su_crash = None\<rparr>"
  by (simp add: shared_init_def NewUpstreams_def Let_def fun_eq_iff)

text \<open>A goroutine up to its lookup in the map, and on to its load of the slice.\<close>

definition to_lookup :: "nat \<Rightarrow> string \<Rightarrow> move list" where
  "to_lookup t host = [Arrive t host, Go t 0, Go t 0]"

definition lost_append_schedule :: "string \<Rightarrow> string \<Rightarrow> move list" where
  "lost_append_schedule a b =
     to_lookup 0 a @ to_lookup 1 b @
     [Go 0 0, Go 0 0, Go 0 0,   \<comment> \<open>0 enters a into the map\<close>
      Go 1 0, Go 1 0, Go 1 0,   \<comment> \<open>1 enters b into the map\<close>
      Go 0 0, Go 1 0,           \<comment> \<open>both load the empty slice\<close>
      Go 0 0, Go 0 0, Go 1 0, Go 1 0]"

definition map_crash_schedule :: "string \<Rightarrow> string \<Rightarrow> move list" where
  "map_crash_schedule a b = to_lookup 0 a @ to_lookup 1 b @ [Go 0 0, Go 0 0, Go 1 0]"

definition shrink_schedule :: "string \<Rightarrow> string \<Rightarrow> move list" where
  "shrink_schedule a b =
     to_lookup 0 a @ to_lookup 1 b @ to_lookup 2 b @
     [Go 0 0, Go 1 0, Go 2 0,                  \<comment> \<open>none finds its address\<close>
      Go 0 0, Go 0 0, Go 1 0, Go 1 0, Go 2 0, Go 2 0,
      Go 0 0, Go 0 0,                          \<comment> \<open>0 has extended the empty slice\<close>
      Go 1 0, Go 1 0, Go 1 0,                  \<comment> \<open>1 stores a slice of one\<close>
      Go 2 0, Go 2 0, Go 2 0,                  \<comment> \<open>2 stores a slice of two\<close>
      Arrive 3 a, Go 3 1, Go 3 1,              \<comment> \<open>3 picks index 1 of two\<close>
      Go 0 0,                                  \<comment> \<open>0 stores its slice of one\<close>
      Go 3 0]"

lemma with_scheme_cond:
  "(if \<not> HasPrefix host PrefixHTTP \<and> \<not> HasPrefix host PrefixHTTPS then PrefixHTTP @ host else host) =
     with_scheme host"
  by (simp add: with_scheme_def)

lemma map_crash:
  assumes "a \<noteq> []" and "b \<noteq> []"
  shows "su_crash (shared_run url_Parse (map_crash_schedule a b) (shared_init url_Parse [])) =
    Some ConcurrentMapAccess"
  using assms by (simp add: map_crash_schedule_def to_lookup_def shared_init_empty with_scheme_cond)

lemma shrink_panic:
  assumes "a \<noteq> []" and "b \<noteq> []" and "with_scheme a \<noteq> with_scheme b"
  shows "su_crash (shared_run url_Parse (shrink_schedule a b) (shared_init url_Parse [])) =
    Some IndexOutOfRange"
  using assms
  by (simp add: shrink_schedule_def to_lookup_def shared_init_empty with_scheme_cond Let_def)

lemma lost_append:
  assumes "a \<noteq> []" and "b \<noteq> []" and "with_scheme a \<noteq> with_scheme b"
    and "s = shared_run url_Parse (lost_append_schedule a b) (shared_init url_Parse [])"
  shows "su_crash s = None" "su_point s 0 = ResolvedTo (with_scheme a)"
    "su_point s 1 = ResolvedTo (with_scheme b)" "dom (su_m s) = {with_scheme a, with_scheme b}"
    "ups_keys (shared_view s) = [Some (stored_upstream url_Parse (with_scheme b))]"
    "su_hosts s = {a, b}"
  using assms
  by (auto simp: lost_append_schedule_def to_lookup_def shared_init_empty with_scheme_cond Let_def
      shared_view_def)

text \<open>
  C35. Without configured upstreams Append races with itself and with Random, and three things can
  happen. Two first requests with different Hosts are both resolved and both addresses are in
  the map, but only one of them is in the slice, from which Random picks. Two requests make the
  runtime end the process for a concurrent map access. A request panics because the index it has drawn is
  out of range.
\<close>
theorem append_races:
  assumes "a \<noteq> []" and "b \<noteq> []" and "with_scheme a \<noteq> with_scheme b"
  shows "(\<exists>mvs s. s = shared_run url_Parse mvs (shared_init url_Parse []) \<and> su_crash s = None \<and>
      su_point s 0 = ResolvedTo (with_scheme a) \<and> su_point s 1 = ResolvedTo (with_scheme b) \<and>
      dom (su_m s) = {with_scheme a, with_scheme b} \<and>
      ups_keys (shared_view s) = [Some (stored_upstream url_Parse (with_scheme b))]) \<and>
    (\<exists>mvs. su_crash (shared_run url_Parse mvs (shared_init url_Parse [])) =
      Some ConcurrentMapAccess) \<and>
    (\<exists>mvs. su_crash (shared_run url_Parse mvs (shared_init url_Parse [])) = Some IndexOutOfRange)"
  using lost_append [OF assms refl, of url_Parse] map_crash [OF assms(1,2), of url_Parse]
    shrink_panic [OF assms, of url_Parse]
  by blast

lemma sample_hosts: "with_scheme ''a'' = ''http://a''" "with_scheme ''b'' = ''http://b''"
  by (simp_all add: with_scheme_def HasPrefix_def PrefixHTTP_def PrefixHTTPS_def)

lemma sample_hosts_differ: "with_scheme ''a'' \<noteq> with_scheme ''b''"
  unfolding sample_hosts by simp

theorem append_races_witness:
  "\<exists>mvs s. s = shared_run sample_url_Parse mvs (shared_init sample_url_Parse []) \<and>
     dom (su_m s) = {''http://a'', ''http://b''} \<and> length (ups_keys (shared_view s)) = 1"
proof -
  note races = append_races [OF list.simps(3) list.simps(3) sample_hosts_differ, of sample_url_Parse,
      unfolded sample_hosts]
  from conjunct1 [OF races] obtain mvs s where
    "s = shared_run sample_url_Parse mvs (shared_init sample_url_Parse [])"
    and "dom (su_m s) = {''http://a'', ''http://b''}"
    and "ups_keys (shared_view s) = [Some (stored_upstream sample_url_Parse ''http://b'')]"
    by (elim exE conjE)
  moreover from this(3) have "length (ups_keys (shared_view s)) = 1" by simp
  ultimately show ?thesis by (intro exI conjI)
qed

theorem configured_upstreams_race_free_witness:
  "su_crash (shared_run sample_url_Parse [Arrive 0 ''h'', Arrive 1 ''h'', Go 0 7, Go 1 7]
     (shared_init sample_url_Parse [''http://u''])) = None"
  using configured_upstreams_race_free [of "[''http://u'']", OF _ refl] by blast

section \<open>One goroutine alone\<close>

lemma shared_view_sel:
  assumes "sound url_Parse ups s"
  shows "ups_m (shared_view s) = su_m s"
    and "length (ups_keys (shared_view s)) = sl_len (su_keys s)"
    and "i < sl_len (su_keys s) \<Longrightarrow>
      ups_keys (shared_view s) ! i = su_arrays s (sl_array (su_keys s)) ! i \<and>
      su_arrays s (sl_array (su_keys s)) ! i \<noteq> None"
  using soundD(1) [OF assms] by (auto simp: shared_view_def sound_slice_def)

lemma alone_random:
  assumes "sound url_Parse ups s" and "su_crash s = None"
    and "su_point s t = InRandom host CheckEmpty" and "i < sl_len (su_keys s)"
  shows "shared_run url_Parse (replicate 8 (Go t i)) s =
    upto_point t (ResolvedTo (up_Address (the (ups_keys (shared_view s) ! i)))) s"
proof -
  from shared_view_sel(3) [OF assms(1,4)] obtain up where
    up: "su_arrays s (sl_array (su_keys s)) ! i = Some up" "ups_keys (shared_view s) ! i = Some up"
    by auto
  from assms(4) have "sl_len (su_keys s) \<noteq> 0" by simp
  with up assms(2-4) show ?thesis
    by (simp add: eval_nat_numeral upto_point_def)
qed

lemma alone_append:
  assumes "sound url_Parse ups s" and "su_crash s = None" and "\<not> su_writing s"
    and "su_point s t = InRandom host CheckEmpty" and "sl_len (su_keys s) = 0" and "host \<noteq> []"
    and "s' = shared_run url_Parse (replicate 8 (Go t i)) s"
  shows "su_crash s' = None \<and> \<not> su_writing s' \<and>
    shared_view s' = Append url_Parse (with_scheme host) (shared_view s) \<and>
    su_point s' = (su_point s)(t := ResolvedTo (with_scheme host))"
  unfolding assms(7) using assms(2-6)
  by (cases "su_m s (with_scheme host)"; cases "su_arrays s (sl_array (su_keys s))")
    (simp_all add: eval_nat_numeral with_scheme_cond Let_def shared_view_def Append_def)

text \<open>
  C17. The two models of resolveUpstream agree: from any state that concurrent requests can
  have reached, if the map is not being written, a goroutine that runs alone reaches the
  end within eight steps, for some answer of \<open>rand.Intn\<close>, with the result, the address and the
  set of upstreams of \<open>resolveUpstream\<close> as one call; the others have not moved. In
  particular it has called Append exactly as the sequential code does, at an array with room
  or without.
\<close>
theorem resolve_runs_alone:
  assumes "s = shared_run url_Parse mvs (shared_init url_Parse ups)"
    and "su_crash s = None" and "\<not> su_writing s"
    and "su_point s t = InRandom (req_Host (h_ctx h)) CheckEmpty"
    and "upstreamsObj x = shared_view s" and "rand_in_range E"
    and "resolveUpstream url_Parse E h x = (ok, h', x')"
  shows "\<exists>i s'. s' = shared_run url_Parse (replicate 8 (Go t i)) s \<and>
    su_crash s' = None \<and> \<not> su_writing s' \<and> shared_view s' = upstreamsObj x' \<and>
    su_point s' = (su_point s)(t := if ok then ResolvedTo (h_upstreamAddress h') else NoHost)"
proof -
  have sound: "sound url_Parse ups s" using soundness.holds assms(1) by simp
  note view = shared_view_sel [OF sound]
  let ?host = "req_Host (h_ctx h)"
  show ?thesis
  proof (cases "sl_len (su_keys s) = 0")
    case False
    define i where "i = fst (rand_Intn E (sl_len (su_keys s)) (ext x))"
    have i: "i < sl_len (su_keys s)" using False assms(6) by (simp add: i_def rand_in_range_def)
    have "ups_keys (upstreamsObj x) \<noteq> []" using False view(2) assms(5) by auto
    from resolve_configured [OF this, of url_Parse E h] assms(5,7) view(2) this
    have "ok" "h_upstreamAddress h' = up_Address (the (ups_keys (shared_view s) ! i))"
      "upstreamsObj x' = shared_view s"
      by (auto simp: Random_def split_beta Let_def i_def)
    with alone_random [OF sound assms(2,4) i] assms(2,3) show ?thesis
      by (intro exI [of _ i] exI [of _ "shared_run url_Parse (replicate 8 (Go t i)) s"])
        (simp add: shared_view_def)
  next
    case empty: True
    then have keys: "ups_keys (upstreamsObj x) = []" using view(2) assms(5) by simp
    show ?thesis
    proof (cases "?host = []")
      case True
      with resolve_no_host [OF keys True, of url_Parse E] assms(2-5,7) empty show ?thesis
        by (intro exI [of _ 0] exI conjI [OF refl])
          (auto simp: eval_nat_numeral shared_view_def)
    next
      case False
      from resolve_host [OF keys False, of url_Parse E] assms(5,7)
      have "ok" "h_upstreamAddress h' = with_scheme ?host"
        "upstreamsObj x' = Append url_Parse (with_scheme ?host) (shared_view s)"
        by (auto split: if_splits)
      with alone_append [OF sound assms(2-4) empty False refl, of 0] show ?thesis
        by (intro exI [of _ 0] exI [of _ "shared_run url_Parse (replicate 8 (Go t 0)) s"]) simp
    qed
  qed
qed

theorem resolve_runs_alone_witness:
  "\<exists>i s'. s' = shared_run sample_url_Parse (replicate 8 (Go 0 i))
       (shared_run sample_url_Parse [Arrive 0 ''a''] (shared_init sample_url_Parse [])) \<and>
     su_point s' 0 = ResolvedTo ''http://a''"
proof -
  define s where "s = shared_run sample_url_Parse [Arrive 0 ''a''] (shared_init sample_url_Parse [])"
  let ?x = "proxy_init ((0, []) :: sample_state) (shared_view s)"
  let ?h = "new_handler (sample_request\<lparr>req_Host := ''a''\<rparr>) :: sample_state proxy_sys handler"
  have s: "su_crash s = None" "\<not> su_writing s"
    "su_point s 0 = InRandom (req_Host (h_ctx ?h)) CheckEmpty" "ups_keys (shared_view s) = []"
    by (simp_all add: s_def shared_init_empty shared_view_def)
  obtain ok h' x' where r: "resolveUpstream sample_url_Parse sample_env ?h ?x = (ok, h', x')"
    by (cases "resolveUpstream sample_url_Parse sample_env ?h ?x") auto
  have x: "upstreamsObj ?x = shared_view s" by (simp add: proxy_init_def)
  from resolve_host [of ?x ?h sample_url_Parse sample_env] r s(4) x
  have "ok" "h_upstreamAddress h' = ''http://a''"
    by (auto simp: sample_hosts split: if_splits)
  from resolve_runs_alone [OF s_def s(1-3) x sample_rand_in_range r] obtain i s' where
    run: "s' = shared_run sample_url_Parse (replicate 8 (Go 0 i)) s"
    and "su_point s' = (su_point s)(0 := if ok then ResolvedTo (h_upstreamAddress h') else NoHost)"
    by (elim exE conjE)
  with \<open>ok\<close> \<open>h_upstreamAddress h' = ''http://a''\<close> have "su_point s' 0 = ResolvedTo ''http://a''" by simp
  with run show ?thesis unfolding s_def by (intro exI conjI)
qed

end
