(* ===== verification/HandlerSteps.thy ===== *)
theory HandlerSteps
  imports Sockets
begin

text \<open>
  \<open>handle\<close> (internal/proxy/handler.go) cut at its calls: each method of the handler and each
  CloseAndDropUpstreamConnection is one step of the goroutine that serves the request, so
  that the steps of several requests can interleave (Sessions).
\<close>

section \<open>The steps\<close>

text \<open>The call a goroutine is about to make.\<close>

datatype stage =
    Resolving        \<comment> \<open>\<open>h.resolveUpstream()\<close>\<close>
  | Acquiring        \<comment> \<open>\<open>h.acquireUpstreamConn()\<close>\<close>
  | WritingHeaders   \<comment> \<open>\<open>h.writeRequestHeaders()\<close>\<close>
  | WritingBody      \<comment> \<open>\<open>h.writeRequestBody()\<close>\<close>
  | ReadingHeaders   \<comment> \<open>\<open>h.readResponseHeaders()\<close>\<close>
  | CopyingStatus    \<comment> \<open>\<open>h.copyResponseStatus()\<close>\<close>
  | Streaming        \<comment> \<open>\<open>h.streamResponseBody()\<close>\<close>
  | Dropping         \<comment> \<open>\<open>pool.CloseAndDropUpstreamConnection(...)\<close>\<close>
  | Handled          \<comment> \<open>handle has returned\<close>

fun handler_step ::
  "url_parser \<Rightarrow> ('e, 'x) proxy_env_scheme \<Rightarrow> stage \<Rightarrow> ('e, 'm) proxy_sys_scheme handler
     \<Rightarrow> ('e, 'm) proxy_sys_scheme
     \<Rightarrow> (stage \<times> ('e, 'm) proxy_sys_scheme handler \<times> ('e, 'm) proxy_sys_scheme) option" where
  "handler_step url_Parse E Resolving h s =
     (case resolveUpstream url_Parse E h s of (ok, h1, s1) \<Rightarrow>
        Some (if ok then Acquiring else Handled, h1, s1))"
| "handler_step url_Parse E Acquiring h s =
     (case acquireUpstreamConn E h s of (ok, h1, s1) \<Rightarrow>
        Some (if ok then WritingHeaders else Handled, h1, s1))"
| "handler_step url_Parse E WritingHeaders h s =
     (case writeRequestHeaders E h s of
        None \<Rightarrow> None
      | Some (ok, h1, s1) \<Rightarrow> Some (if ok then WritingBody else Dropping, h1, s1))"
| "handler_step url_Parse E WritingBody h s =
     (case writeRequestBody E h s of
        None \<Rightarrow> None
      | Some (ok, h1, s1) \<Rightarrow> Some (if ok then ReadingHeaders else Dropping, h1, s1))"
| "handler_step url_Parse E ReadingHeaders h s =
     (case readResponseHeaders E h s of
        None \<Rightarrow> None
      | Some (ok, h1, s1) \<Rightarrow> Some (if ok then CopyingStatus else Dropping, h1, s1))"
| "handler_step url_Parse E CopyingStatus h s =
     (case copyResponseStatus h s of (h1, s1) \<Rightarrow> Some (Streaming, h1, s1))"
| "handler_step url_Parse E Streaming h s = Some (Handled, streamResponseBody h, s)"
| "handler_step url_Parse E Dropping h s =
     Some (Handled, h,
       CloseAndDropUpstreamConnection E (h_upstreamAddress h) (the (h_connection h)) s)"
| "handler_step url_Parse E Handled h s = Some (Handled, h, s)"

fun handler_steps ::
  "nat \<Rightarrow> url_parser \<Rightarrow> ('e, 'x) proxy_env_scheme \<Rightarrow> stage \<Rightarrow> ('e, 'm) proxy_sys_scheme handler
     \<Rightarrow> ('e, 'm) proxy_sys_scheme
     \<Rightarrow> (stage \<times> ('e, 'm) proxy_sys_scheme handler \<times> ('e, 'm) proxy_sys_scheme) option" where
  "handler_steps 0 url_Parse E st h s = Some (st, h, s)"
| "handler_steps (Suc n) url_Parse E st h s =
     (case handler_step url_Parse E st h s of
        None \<Rightarrow> None
      | Some (st1, h1, s1) \<Rightarrow> handler_steps n url_Parse E st1 h1 s1)"

text \<open>How many steps are left at most.\<close>

fun steps_left :: "stage \<Rightarrow> nat" where
  "steps_left Resolving = 7" | "steps_left Acquiring = 6" | "steps_left WritingHeaders = 5"
| "steps_left WritingBody = 4" | "steps_left ReadingHeaders = 3" | "steps_left CopyingStatus = 2"
| "steps_left Streaming = 1" | "steps_left Dropping = 1" | "steps_left Handled = 0"

lemma steps_left_0 [simp]: "steps_left st = 0 \<longleftrightarrow> st = Handled"
  by (cases st) simp_all

lemma handler_step_progress:
  assumes "handler_step url_Parse E st h s = Some (st', h', s')"
  shows "steps_left st' \<le> steps_left st - 1"
  using assms by (cases st) (auto split: prod.splits option.splits if_splits)

lemma handled_steps [simp]: "handler_steps n url_Parse E Handled h s = Some (Handled, h, s)"
  by (induction n) simp_all

text \<open>
  The steps are the handler: a goroutine that makes all its steps without interruption does
  what \<open>handle\<close> does, in at most seven steps, with the same calls made on the response, the same state of
  the proxy, and the same calls of the outside world; it fails to return exactly if \<open>handle\<close> does.
\<close>
lemma handler_steps_are_handle:
  "handler_steps 7 url_Parse E Resolving h s =
     (case handle url_Parse E h s of None \<Rightarrow> None | Some (h', s') \<Rightarrow> Some (Handled, h', s'))"
  by (simp add: handle_def Let_def eval_nat_numeral split: prod.split option.split)

section \<open>What one step does\<close>

text \<open>The stages in which the goroutine holds the connection of its request.\<close>

fun holding :: "stage \<Rightarrow> bool" where
  "holding Resolving = False" | "holding Acquiring = False" | "holding Handled = False"
| "holding st = True"

definition task_ok :: "stage \<Rightarrow> 's handler \<Rightarrow> bool" where
  "task_ok st h \<longleftrightarrow> (holding st \<longrightarrow> h_connection h \<noteq> None) \<and> (st \<noteq> Handled \<longrightarrow> body_streams h = []) \<and>
     (st = CopyingStatus \<or> st = Streaming \<longrightarrow> h_bufIOReader h \<noteq> None \<and> h_responseHeader h \<noteq> None)"

text \<open>
  The effect of a step on the pools: nothing but for Acquire, which takes a connection, and
  CloseAndDrop, which gives up the one it has.
\<close>

fun calm :: "stage \<Rightarrow> bool" where
  "calm Acquiring = False" | "calm Streaming = False" | "calm Dropping = False"
| "calm Handled = False" | "calm st = True"

lemma resolve_step:
  assumes "resolveUpstream url_Parse E h s = (ok, h', s')"
  shows "pool_at a s' = pool_at a s" "maxUpstreamConnectionsPerHost s' = maxUpstreamConnectionsPerHost s"
    "body_streams h' = body_streams h"
  using resolve_frame [OF assms] by (cases ok; auto simp: body_streams_def)+

lemma step_client:
  assumes "if ok then h_resp h' = h_resp h else answers_502 h h'"
  shows "body_streams h' = body_streams h"
  using assms client_of_resp answers_502_client by (auto split: if_splits)

lemma readResponseHeaders_reader:
  assumes "readResponseHeaders E h s = Some (ok, h', s')"
  shows "h_bufIOReader h' \<noteq> None" "h_responseHeader h' \<noteq> None"
  using assms by (cases rule: readResponseHeaders_cases; simp)+

text \<open>A step with the contract of \<open>request_step\<close>, seen from outside its goroutine.\<close>

context request_step
begin

lemma moves:
  assumes "step h s = Some (ok, h', s')"
  shows "pool_at a s' = pool_at a s" "maxUpstreamConnectionsPerHost s' = maxUpstreamConnectionsPerHost s"
    "h_connection h' = h_connection h" "h_upstreamAddress h' = h_upstreamAddress h"
    "body_streams h' = body_streams h"
  using keeps [OF assms] same_pools_pool_at [of s s'] responds [OF assms] step_client [of ok h' h]
  by (simp_all add: same_request_def)

end

text \<open>A calm step leaves the pools and the connection of its request alone.\<close>

lemma calm_step:
  fixes s :: "('e, 'm) proxy_sys_scheme" and E :: "('e, 'x) proxy_env_scheme"
  assumes "handler_step url_Parse E st h s = Some (st', h', s')" and "calm st" and "task_ok st h"
  shows "pool_at a s' = pool_at a s" "maxUpstreamConnectionsPerHost s' = maxUpstreamConnectionsPerHost s"
    "holding st' = holding st" "holding st \<Longrightarrow> h_connection h' = h_connection h"
    "holding st \<Longrightarrow> h_upstreamAddress h' = h_upstreamAddress h"
    "body_streams h' = []" "task_ok st' h'"
proof -
  have "(pool_at a s' = pool_at a s \<and> maxUpstreamConnectionsPerHost s' = maxUpstreamConnectionsPerHost s) \<and>
    (holding st' = holding st \<and>
      (holding st \<longrightarrow> h_connection h' = h_connection h \<and> h_upstreamAddress h' = h_upstreamAddress h) \<and>
      body_streams h' = body_streams h) \<and>
    (st' = CopyingStatus \<or> st' = Streaming \<longrightarrow> h_bufIOReader h' \<noteq> None \<and> h_responseHeader h' \<noteq> None)"
  proof (cases st)
    case Resolving
    with assms(1) obtain ok where "resolveUpstream url_Parse E h s = (ok, h', s')"
      "st' = (if ok then Acquiring else Handled)" by (auto split: prod.splits)
    with Resolving resolve_step [OF this(1)] show ?thesis by simp
  next
    case WritingHeaders
    with assms(1) obtain ok where w: "writeRequestHeaders E h s = Some (ok, h', s')"
      "st' = (if ok then WritingBody else Dropping)" by (auto split: option.splits)
    with WritingHeaders header_step.moves [OF w(1)] show ?thesis by simp
  next
    case WritingBody
    with assms(1) obtain ok where w: "writeRequestBody E h s = Some (ok, h', s')"
      "st' = (if ok then ReadingHeaders else Dropping)" by (auto split: option.splits)
    with WritingBody body_step.moves [OF w(1)] show ?thesis by simp
  next
    case ReadingHeaders
    with assms(1) obtain ok where r: "readResponseHeaders E h s = Some (ok, h', s')"
      "st' = (if ok then CopyingStatus else Dropping)" by (auto split: option.splits)
    with ReadingHeaders read_step.moves [OF r(1)] readResponseHeaders_reader [OF r(1)]
    show ?thesis by simp
  next
    case CopyingStatus
    with assms(1) have cp: "copyResponseStatus h s = (h', s')" "st' = Streaming" by (auto split: prod.splits)
    have "body_streams h' = body_streams h"
      using cp(1) by (auto simp: copyResponseStatus_def split: option.splits if_splits)
    with CopyingStatus cp(2) copyResponseStatus_frame [OF cp(1)] same_pools_pool_at [of s s'] assms(3)
    show ?thesis by (simp add: same_request_def task_ok_def)
  qed (use assms in simp_all)
  then show "pool_at a s' = pool_at a s" "maxUpstreamConnectionsPerHost s' = maxUpstreamConnectionsPerHost s"
    "holding st' = holding st" "holding st \<Longrightarrow> h_connection h' = h_connection h"
    "holding st \<Longrightarrow> h_upstreamAddress h' = h_upstreamAddress h"
    "body_streams h' = []" "task_ok st' h'"
    using assms(2,3) by (auto simp: task_ok_def)
qed

text \<open>The other three.\<close>

lemma acquiring_step:
  assumes "handler_step url_Parse E Acquiring h s = Some (st', h', s')" and "task_ok Acquiring h"
  obtains e s1 where "AcquireUpstreamConnection E (h_upstreamAddress h) s = (Inl e, s1)"
      and "st' = Handled" and "body_streams h' = []" and "s' = count_metric DialErrors s1"
  | c where "AcquireUpstreamConnection E (h_upstreamAddress h) s = (Inr c, s')"
      and "st' = WritingHeaders" and "h' = h\<lparr>h_connection := Some c\<rparr>"
proof -
  obtain r s1 where acq: "AcquireUpstreamConnection E (h_upstreamAddress h) s = (r, s1)" by fastforce
  have "body_streams h = []" using assms(2) by (simp add: task_ok_def)
  then show thesis
    using that assms(1) acq by (cases r) (auto simp: acquireUpstreamConn_def body_streams_def)
qed

lemma streaming_step:
  assumes "task_ok Streaming h"
  obtains c br hdr where "h_connection h = Some c"
    and "body_streams (streamResponseBody h) = [response_stream (h_upstreamAddress h) c br hdr]"
proof -
  from assms obtain c br hdr where "h_connection h = Some c" "h_bufIOReader h = Some br"
    "h_responseHeader h = Some hdr" "body_streams h = []" by (auto simp: task_ok_def)
  then show thesis
    using that [of c br hdr] by (simp add: streamResponseBody_def response_stream_def Let_def)
qed

text \<open>The frame of a step: it reads from and writes to the connection of its request only.\<close>

context request_frame
begin

lemma keeps_handler_step:
  assumes "handler_step url_Parse E st h s = Some (st', h', s')"
    and "holding st \<Longrightarrow> P (the (h_connection h))"
  shows "R (ext s) (ext s')"
proof (cases st)
  case CopyingStatus
  with assms(1) show ?thesis
    by (auto simp: copyResponseStatus_def count_metric_def frame_refl split: option.splits if_splits)
qed (use assms in \<open>auto simp: frame_refl keeps_give_back split: prod.splits option.splits
    intro: keeps_resolve keeps_acquireUpstreamConn keeps_writeRequestHeaders keeps_writeRequestBody
      keeps_readResponseHeaders\<close>)

end

lemma handler_step_grows:
  fixes s :: "('e, 'm) proxy_sys_scheme" and E :: "('e, 'x) proxy_env_scheme"
  assumes "fresh_sockets E used" and "handler_step url_Parse E st h s = Some (st', h', s')"
  shows "grows used s s'"
  using request_numbers.keeps_handler_step [OF assms(2)] assms(1) by (simp add: grows_def)

end
