(* ===== verification/Sessions.thy ===== *)
theory Sessions
  imports HandlerSteps
begin

text \<open>
  Requests served at the same time. The server runs one goroutine per request: the steps of
  the handlers (HandlerSteps) and the Reads of the bodies interleave in any order. A session is a
  request with all that follows: it is being handled, or has been answered
  without a body from upstream, or its body is being streamed to the client.
\<close>

datatype 's session =
    Handling stage "'s handler"
  | Answered "'s handler"
  | Streamed "'s handler" "'s body_stream"

text \<open>What the server does when the handler has returned.\<close>

definition settle :: "stage \<Rightarrow> 's handler \<Rightarrow> 's session" where
  "settle st h =
     (if st \<noteq> Handled then Handling st h
      else case body_streams h of [] \<Rightarrow> Answered h | pr # _ \<Rightarrow> Streamed h pr)"

datatype session_op =
    NewRequest request   \<comment> \<open>a request arrives, a goroutine starts\<close>
  | Advance nat          \<comment> \<open>the goroutine of a session takes its next step\<close>
  | ReadBody nat nat     \<comment> \<open>the server reads the body of a session with a buffer of this size\<close>

fun session_step ::
  "url_parser \<Rightarrow> ('e, 'x) proxy_env_scheme \<Rightarrow> session_op
     \<Rightarrow> ('e, 'm) proxy_sys_scheme session list \<times> ('e, 'm) proxy_sys_scheme
     \<Rightarrow> (('e, 'm) proxy_sys_scheme session list \<times> ('e, 'm) proxy_sys_scheme) option" where
  "session_step url_Parse E (NewRequest req) (xs, s) =
     Some (xs @ [Handling Resolving (new_handler req)], s)"
| "session_step url_Parse E (Advance i) (xs, s) =
     (if i < length xs then
        (case xs ! i of
           Handling st h \<Rightarrow>
             (case handler_step url_Parse E st h s of
                None \<Rightarrow> None
              | Some (st1, h1, s1) \<Rightarrow> Some (xs[i := settle st1 h1], s1))
         | _ \<Rightarrow> Some (xs, s))
      else Some (xs, s))"
| "session_step url_Parse E (ReadBody i n) (xs, s) =
     (if i < length xs then
        (case xs ! i of
           Streamed h pr \<Rightarrow>
             (case body_stack_Read E pr n s of (r, pr1, s1) \<Rightarrow> Some (xs[i := Streamed h pr1], s1))
         | _ \<Rightarrow> Some (xs, s))
      else Some (xs, s))"

fun session_run ::
  "url_parser \<Rightarrow> ('e, 'x) proxy_env_scheme \<Rightarrow> session_op list
     \<Rightarrow> ('e, 'm) proxy_sys_scheme session list \<times> ('e, 'm) proxy_sys_scheme
     \<Rightarrow> (('e, 'm) proxy_sys_scheme session list \<times> ('e, 'm) proxy_sys_scheme) option" where
  "session_run url_Parse E [] st = Some st"
| "session_run url_Parse E (op # ops) st =
     (case session_step url_Parse E op st of
        None \<Rightarrow> None | Some st1 \<Rightarrow> session_run url_Parse E ops st1)"

text \<open>The upstream and the connection that a session has in its hands.\<close>

fun held :: "'s session \<Rightarrow> (string \<times> net_conn) option" where
  "held (Handling st h) =
     (if holding st then Some (h_upstreamAddress h, the (h_connection h)) else None)"
| "held (Answered h) = None"
| "held (Streamed h pr) =
     (if pr_returned pr then None else Some (pr_upstreamAddr pr, pr_connection pr))"

definition held_at :: "string \<Rightarrow> 's session list \<Rightarrow> int" where
  "held_at a xs = int (length (filter (\<lambda>x. \<exists>c. held x = Some (a, c)) xs))"

section \<open>A session as a body stream\<close>

text \<open>
  A session that holds a connection counts as an open body stream of it, so that what is
  known of streams (Interleaving, Sockets) carries over: \<open>claim\<close> is the stream itself, or one that
  stands for the handler.
\<close>

definition claim_stream :: "string \<Rightarrow> net_conn \<Rightarrow> bool \<Rightarrow> ('e, 'm) proxy_sys_scheme body_stream" where
  "claim_stream a c free =
     (response_stream a c (NewReaderSize c 0)
        \<lparr>rh_StatusCode = 0, rh_ContentLength = 0, rh_fields = []\<rparr>)\<lparr>pr_returned := free\<rparr>"

fun claim :: "('e, 'm) proxy_sys_scheme session \<Rightarrow> ('e, 'm) proxy_sys_scheme body_stream" where
  "claim (Handling st h) = claim_stream (h_upstreamAddress h) (the (h_connection h)) (\<not> holding st)"
| "claim (Answered h) = claim_stream [] (NetConn 0) True"
| "claim (Streamed h pr) = pr"

lemma claim_stream_sel [simp]:
  "pr_upstreamAddr (claim_stream a c free) = a" "pr_connection (claim_stream a c free) = c"
  "pr_returned (claim_stream a c free) = free" "releases_reader (claim_stream a c free)"
  by (simp_all add: claim_stream_def releases_reader_def response_stream_def NewPoolReader_def)

lemma held_claim:
  "held x = (if pr_returned (claim x) then None
     else Some (pr_upstreamAddr (claim x), pr_connection (claim x)))"
  by (cases x) simp_all

lemma held_holds: "(\<exists>c. held x = Some (a, c)) = holds a (claim x)"
  by (auto simp: held_claim holds_def)

lemma held_at_claims: "held_at a xs = open_streams a (map claim xs)"
  by (simp add: held_at_def open_streams_def held_holds filter_map comp_def)

text \<open>What holds of a session at any time.\<close>

fun session_ok :: "('e, 'm) proxy_sys_scheme session \<Rightarrow> bool" where
  "session_ok (Handling st h) = (st \<noteq> Handled \<and> task_ok st h)"
| "session_ok (Answered h) = True"
| "session_ok (Streamed h pr) = releases_reader pr"

lemma session_ok_releases: "session_ok x \<Longrightarrow> releases_reader (claim x)"
  by (cases x) simp_all

definition sessions_ok ::
  "('e, 'm) proxy_sys_scheme session list \<times> ('e, 'm) proxy_sys_scheme \<Rightarrow> bool" where
  "sessions_ok st \<longleftrightarrow> pool_wf (snd st) \<and> (\<forall>x \<in> set (fst st). session_ok x) \<and>
     (\<forall>a. in_use a (snd st) = held_at a (fst st))"

lemma sessions_accounted: "sessions_ok (xs, s) \<Longrightarrow> accounted (map claim xs, s)"
  by (auto simp: sessions_ok_def accounted_def held_at_claims session_ok_releases)

text \<open>One session moves.\<close>

lemma held_at_update:
  assumes "i < length xs"
  shows "held_at a (xs[i := x]) =
    held_at a xs - (if holds a (claim (xs ! i)) then 1 else 0) + (if holds a (claim x) then 1 else 0)"
  using open_streams_nth [of i "map claim xs" a "claim x"] assms
  by (simp add: held_at_claims map_update)

lemma sessions_ok_update:
  assumes "sessions_ok (xs, s)" and i: "i < length xs" and "session_ok x" and "pool_wf s'"
    and "\<And>a. in_use a s' = in_use a s - (if holds a (claim (xs ! i)) then 1 else 0) +
      (if holds a (claim x) then 1 else 0)"
  shows "sessions_ok (xs[i := x], s')"
  using assms set_update_subset_insert [of xs i x] held_at_update [OF i, of _ x]
  by (auto simp: sessions_ok_def)

lemma sessions_okD:
  assumes "sessions_ok (xs, s)"
  shows "pool_wf s" "i < length xs \<Longrightarrow> session_ok (xs ! i)"
  using assms by (simp_all add: sessions_ok_def)

lemma sessions_ok_holder:
  assumes "sessions_ok (xs, s)" and "i < length xs"
  shows "pr_returned (claim (xs ! i)) \<or> 1 \<le> in_use (pr_upstreamAddr (claim (xs ! i))) s"
  using assms open_streams_pos [of i "map claim xs" "pr_upstreamAddr (claim (xs ! i))"]
  by (auto simp: sessions_ok_def held_at_claims holds_def)

section \<open>One step of one handler\<close>

lemma claim_stream_holds [simp]: "holds a (claim_stream b c free) \<longleftrightarrow> \<not> free \<and> b = a"
  by (auto simp: holds_def)

lemma settle_streams:
  "body_streams h = [] \<Longrightarrow> settle st h = (if st = Handled then Answered h else Handling st h)"
  "body_streams h = [pr] \<Longrightarrow> settle Handled h = Streamed h pr"
  by (simp_all add: settle_def)

text \<open>
  The pools account for the connection that the session gains or gives up, and it
  is one that was idle, or is new, or was held before.
\<close>

lemma advance_accounts:
  fixes s :: "('e, 'm) proxy_sys_scheme" and E :: "('e, 'x) proxy_env_scheme"
  assumes step: "handler_step url_Parse E st h s = Some (st', h', s')"
    and ok: "session_ok (Handling st h)" and wf: "pool_wf s"
    and use: "holding st \<Longrightarrow> 1 \<le> in_use (h_upstreamAddress h) s"
  defines "x \<equiv> settle st' h'"
  shows "session_ok x" and "pool_wf s'"
    and "maxUpstreamConnectionsPerHost s' = maxUpstreamConnectionsPerHost s"
    and "in_use a s' = in_use a s - (if holds a (claim (Handling st h)) then 1 else 0) +
      (if holds a (claim x) then 1 else 0)"
proof -
  have task: "task_ok st h" using ok by simp
  have "session_ok x \<and> pool_wf s' \<and>
    maxUpstreamConnectionsPerHost s' = maxUpstreamConnectionsPerHost s \<and>
    in_use a s' = in_use a s - (if holds a (claim (Handling st h)) then 1 else 0) +
      (if holds a (claim x) then 1 else 0)" for a
  proof (cases "calm st")
    case True
    note c = calm_step [OF step True task]
    note same = pool_wf_cong [of s' s, OF c(1,2)]
    from same wf c(2-5) c(6,7) show ?thesis
      by (cases "st' = Handled") (auto simp: x_def settle_streams)
  next
    case False
    then consider "st = Acquiring" | "st = Streaming" | "st = Dropping" | "st = Handled"
      by (cases st) simp_all
    then show ?thesis
    proof cases
      case 1
      note acq = acquire_accounting [where E = E and a = "h_upstreamAddress h", OF wf]
        acquire_limit [of E "h_upstreamAddress h" s]
      from acquiring_step [OF step [unfolded 1] task [unfolded 1]] show ?thesis
      proof cases
        case (1 e s1)
        have "same_pools s1 s'" by (simp add: 1)
        from same_pools_pool_at [OF this] 1 acq show ?thesis
          by (simp add: x_def settle_streams \<open>st = Acquiring\<close>)
      next
        case (2 c)
        with acq task show ?thesis
          by (simp add: x_def settle_def \<open>st = Acquiring\<close> task_ok_def body_streams_def)
      qed
    next
      case 2
      from streaming_step [OF task [unfolded 2]] obtain c br hdr where
        "body_streams (streamResponseBody h) = [response_stream (h_upstreamAddress h) c br hdr]" .
      with step 2 wf show ?thesis
        by (auto simp: x_def settle_streams holds_def response_releases)
    next
      case 3
      from use 3 have "1 \<le> in_use (h_upstreamAddress h) s" by simp
      from drop_accounting [OF wf this, where E = E] step 3 task show ?thesis
        by (auto simp: x_def task_ok_def settle_streams)
    next
      case 4
      with ok show ?thesis by simp
    qed
  qed
  then show "session_ok x" "pool_wf s'"
    "maxUpstreamConnectionsPerHost s' = maxUpstreamConnectionsPerHost s"
    "in_use a s' = in_use a s - (if holds a (claim (Handling st h)) then 1 else 0) +
      (if holds a (claim x) then 1 else 0)" by blast+
qed

section \<open>Any interleaving\<close>

lemma session_new_ok: "session_ok (Handling Resolving (new_handler req))"
  by (simp add: task_ok_def body_streams_def new_handler_def)

text \<open>The ways a step of the whole can go.\<close>

lemma session_step_cases:
  assumes "session_step url_Parse E op (xs, s) = Some (xs', s')"
  obtains (arrives) req where "op = NewRequest req" "s' = s"
      "xs' = xs @ [Handling Resolving (new_handler req)]"
  | (advances) i st h st' h' where "op = Advance i" "i < length xs" "xs ! i = Handling st h"
      "handler_step url_Parse E st h s = Some (st', h', s')" "xs' = xs[i := settle st' h']"
  | (reads) i n h pr b err pr' where "op = ReadBody i n" "i < length xs" "xs ! i = Streamed h pr"
      "body_stack_Read E pr n s = ((b, err), pr', s')" "xs' = xs[i := Streamed h pr']"
  | (idles) "xs' = xs" "s' = s"
      "\<And>i st h. op = Advance i \<Longrightarrow> i < length xs \<Longrightarrow> xs ! i \<noteq> Handling st h"
      "\<And>i n h pr. op = ReadBody i n \<Longrightarrow> i < length xs \<Longrightarrow> xs ! i \<noteq> Streamed h pr"
proof (cases op)
  case (NewRequest req)
  with assms show thesis by (intro arrives) auto
next
  case (Advance i)
  show thesis
  proof (cases "\<exists>st h. i < length xs \<and> xs ! i = Handling st h")
    case True
    then obtain st h where at: "i < length xs" "xs ! i = Handling st h" by blast
    with assms Advance obtain st' h' where "handler_step url_Parse E st h s = Some (st', h', s')"
      "xs' = xs[i := settle st' h']" by (auto split: option.splits)
    with Advance at show thesis by (rule advances)
  next
    case False
    with assms Advance have "xs' = xs \<and> s' = s" by (cases "xs ! i") (auto split: if_splits)
    with False Advance show thesis by (intro idles) auto
  qed
next
  case (ReadBody i n)
  show thesis
  proof (cases "\<exists>h pr. i < length xs \<and> xs ! i = Streamed h pr")
    case True
    then obtain h pr where at: "i < length xs" "xs ! i = Streamed h pr" by blast
    with assms ReadBody obtain b err pr' where "body_stack_Read E pr n s = ((b, err), pr', s')"
      "xs' = xs[i := Streamed h pr']" by (auto split: prod.splits)
    with ReadBody at show thesis by (rule reads)
  next
    case False
    with assms ReadBody have "xs' = xs \<and> s' = s" by (cases "xs ! i") (auto split: if_splits)
    with False ReadBody show thesis by (intro idles) auto
  qed
qed

lemma session_step_ok:
  fixes s :: "('e, 'm) proxy_sys_scheme" and E :: "('e, 'x) proxy_env_scheme"
  assumes inv: "sessions_ok (xs, s)" and "session_step url_Parse E op (xs, s) = Some (xs', s')"
  shows "sessions_ok (xs', s') \<and> maxUpstreamConnectionsPerHost s' = maxUpstreamConnectionsPerHost s"
  using assms(2)
proof (cases rule: session_step_cases)
  case (arrives req)
  with inv session_new_ok show ?thesis by (auto simp: sessions_ok_def held_at_def)
next
  case (advances i st h st' h')
  from sessions_ok_holder [OF inv advances(2)] have use: "1 \<le> in_use (h_upstreamAddress h) s" if "holding st"
    using that by (simp add: advances(3))
  have ok: "session_ok (Handling st h)" "pool_wf s"
    using sessions_okD [OF inv] advances(2,3) by metis+
  note adv = advance_accounts [OF advances(4) ok use]
  from sessions_ok_update [OF inv advances(2) adv(1,2)] adv(3,4) show ?thesis
    unfolding advances(3,5) by simp
next
  case (reads i n h pr b err pr')
  have rel: "releases_reader pr" and wf: "pool_wf s"
    using sessions_okD [OF inv] reads(2,3) session_ok.simps(3) by metis+
  have use: "pr_returned pr \<or> 1 \<le> in_use (pr_upstreamAddr pr) s"
    using sessions_ok_holder [OF inv reads(2)] by (simp add: reads(3))
  note step = timed_body.pool_Read_step [OF reads(4) releases_cleanup_ok [OF rel] wf use]
  have "reads (body_stack_Read E) pr [n] s = ([(b, err)], pr', s')" using reads(4) by simp
  from stream_reads_keep [OF rel this] have
    max: "maxUpstreamConnectionsPerHost s' = maxUpstreamConnectionsPerHost s" by simp
  have "session_ok (Streamed h pr')" using pool_Read_releases [OF rel reads(4)] by simp
  from sessions_ok_update [OF inv reads(2) this step(8)] step(4,7,9) max show ?thesis
    by (auto simp: reads(3,5) holds_def)
next
  case idles
  with inv show ?thesis by simp
qed

lemma session_run_ok:
  fixes s :: "('e, 'm) proxy_sys_scheme" and E :: "('e, 'x) proxy_env_scheme"
  assumes "sessions_ok (xs, s)" and "session_run url_Parse E ops (xs, s) = Some (xs', s')"
  shows "sessions_ok (xs', s') \<and> maxUpstreamConnectionsPerHost s' = maxUpstreamConnectionsPerHost s"
  using assms
proof (induction ops arbitrary: xs s)
  case Nil
  then show ?case by simp
next
  case (Cons op ops)
  from Cons.prems(2) obtain xs1 s1 where one: "session_step url_Parse E op (xs, s) = Some (xs1, s1)"
    and rest: "session_run url_Parse E ops (xs1, s1) = Some (xs', s')"
    by (auto split: option.splits)
  from session_step_ok [OF Cons.prems(1) one] Cons.IH [OF _ rest] show ?case by simp
qed

section \<open>One owner for every connection\<close>

text \<open>The place of a session keeps its connection, or gets one from an idle list or a new one.\<close>

lemma owner_kept:
  fixes s s' :: "('e, 'm) proxy_sys_scheme"
  assumes one: "one_owner (owner prs s) k" and "k \<le> k'"
    and "\<And>a. idle_list a s' = idle_list a s"
    and "\<not> pr_returned pr \<Longrightarrow> \<not> pr_returned (prs ! i) \<and> pr_connection pr = pr_connection (prs ! i)"
  shows "one_owner (owner (prs[i := pr]) s') k'"
proof (rule one_owner_sub [OF one _ assms(2)], rule owner_leI)
  show "owner prs s (Inl j) = Some c" if "owner (prs[i := pr]) s' (Inl j) = Some c" for j c
    using that assms(4) by (cases "j = i") (auto simp: owner_stream split: if_splits)
  show "owner prs s (Inr (a, j)) = Some c" if "owner (prs[i := pr]) s' (Inr (a, j)) = Some c" for a j c
    using that assms(3) [of a] by (auto simp: owner_def split: if_splits)
qed

lemma owner_taken:
  fixes s s' :: "('e, 'm) proxy_sys_scheme"
  assumes one: "one_owner (owner prs s) k" and "k \<le> k'" and i: "i < length prs" "pr_returned (prs ! i)"
    and idle: "\<And>b. idle_list b s' = (if b = a then butlast (idle_list a s) else idle_list b s)"
    and taken: "\<not> pr_returned pr \<Longrightarrow>
      (idle_list a s \<noteq> [] \<and> pr_connection pr = idle_conn (last (idle_list a s))) \<or>
      k \<le> socket (pr_connection pr) \<and> socket (pr_connection pr) < k'"
  shows "one_owner (owner (prs[i := pr]) s') k'"
proof -
  let ?q = "Inl i :: nat + string \<times> nat" and ?c = "pr_connection pr"
  let ?p = "Inr (a, length (idle_list a s) - 1) :: nat + string \<times> nat"
  have here: "owner (prs[i := pr]) s' (Inl j) = Some c \<Longrightarrow>
      (if j = i then \<not> pr_returned pr \<and> c = ?c else owner prs s (Inl j) = Some c)" for j c
    by (cases "j = i") (auto simp: owner_stream split: if_splits)
  have there: "owner (prs[i := pr]) s' (Inr (b, j)) = Some c \<Longrightarrow>
      owner prs s (Inr (b, j)) = Some c \<and> Inr (b, j) \<noteq> ?p" for b j c
    using idle by (auto simp: owner_def nth_butlast split: if_splits)
  consider "pr_returned pr" | "\<not> pr_returned pr" "idle_list a s \<noteq> []" "?c = idle_conn (last (idle_list a s))"
    | "\<not> pr_returned pr" "k \<le> socket ?c" "socket ?c < k'"
    using taken by blast
  then show ?thesis
  proof cases
    case 1
    have "owner (prs[i := pr]) s' \<subseteq>\<^sub>m owner prs s"
      by (rule owner_leI) (use here there 1 in metis)+
    from one_owner_sub [OF one this assms(2)] show ?thesis .
  next
    case 2
    have at: "owner prs s ?p = Some ?c" using 2 by (simp add: owner_def last_conv_nth)
    have "owner (prs[i := pr]) s' \<subseteq>\<^sub>m (owner prs s)(?p := None, ?q \<mapsto> ?c)"
      by (rule owner_leI) (use here there in \<open>auto split: if_splits\<close>)
    from one_owner_sub [OF one_owner_move [OF one at order_refl] this assms(2)] show ?thesis .
  next
    case 3
    have "owner (prs[i := pr]) s' \<subseteq>\<^sub>m (owner prs s)(?q \<mapsto> ?c)"
      by (rule owner_leI) (use here there in \<open>auto split: if_splits\<close>)
    from one_owner_sub [OF one_owner_new [OF one 3(2,3)] this order_refl] show ?thesis .
  qed
qed

lemma advance_owner:
  fixes s :: "('e, 'm) proxy_sys_scheme" and E :: "('e, 'x) proxy_env_scheme"
  assumes fresh: "fresh_sockets E used"
    and step: "handler_step url_Parse E st h s = Some (st', h', s')"
    and ok: "session_ok (Handling st h)" "pool_wf s" "holding st \<Longrightarrow> 1 \<le> in_use (h_upstreamAddress h) s"
    and at: "i < length prs" "prs ! i = claim (Handling st h)"
    and one: "one_owner (owner prs s) (used (ext s))"
  shows "one_owner (owner (prs[i := claim (settle st' h')]) s') (used (ext s'))"
proof -
  have new: "new_sockets E used" using fresh by (simp add: fresh_sockets_def)
  have le: "used (ext s) \<le> used (ext s')" using handler_step_grows [OF fresh step] by (simp add: grows_def)
  have task: "task_ok st h" using ok(1) by simp
  note kept = owner_kept [OF one le, where i = i, unfolded at(2)]
  show ?thesis
  proof (cases "calm st")
    case True
    note c = calm_step [OF step True task]
    have "idle_list b s' = idle_list b s" for b using c(1) by (simp add: idle_list_def)
    then show ?thesis
      by (rule kept) (use c(3-6) in \<open>cases "st' = Handled"; auto simp: settle_streams\<close>)+
  next
    case False
    then consider "st = Acquiring" | "st = Streaming" | "st = Dropping" using ok(1)
      by (cases st) simp_all
    then show ?thesis
    proof cases
      case 1
      obtain r s1 where acq: "AcquireUpstreamConnection E (h_upstreamAddress h) s = (r, s1)" by fastforce
      note ao = acquire_owner [OF new acq]
      have free: "pr_returned (prs ! i)" by (simp add: at(2) 1)
      from acquiring_step [OF step [unfolded 1] task [unfolded 1]] show ?thesis
      proof cases
        case (1 e s2)
        have "idle_list b s' = idle_list b s1" for b
          using 1(1,4) acq by (simp add: count_metric_def idle_list_def pool_at_def)
        with ao(2) have "idle_list b s' =
            (if b = h_upstreamAddress h then butlast (idle_list (h_upstreamAddress h) s) else idle_list b s)" for b
          by simp
        then show ?thesis
          by (rule owner_taken [OF one le at(1) free]) (use 1(2,3) in \<open>simp add: settle_streams\<close>)
      next
        case (2 c)
        with acq have eq: "r = Inr c" "s1 = s'" by simp_all
        show ?thesis
          by (rule owner_taken [OF one le at(1) free ao(2) [unfolded eq(2)]])
            (use ao(3) [OF eq(1)] 2(2,3) eq(2) in \<open>simp add: settle_def\<close>)
      qed
    next
      case 2
      from streaming_step [OF task [unfolded 2]] obtain c br hdr where "h_connection h = Some c"
        "body_streams (streamResponseBody h) = [response_stream (h_upstreamAddress h) c br hdr]" .
      with step 2 have settled: "s' = s" "settle st' h' = Streamed h' (response_stream (h_upstreamAddress h) c br hdr)"
        by (simp_all add: settle_streams)
      moreover have "pr_connection (response_stream (h_upstreamAddress h) c br hdr) = c"
        by simp
      ultimately show ?thesis
        using kept [of s "response_stream (h_upstreamAddress h) c br hdr"] 2 \<open>h_connection h = Some c\<close>
        by simp
    next
      case 3
      have "idle_list b s' = idle_list b s" for b
        using step 3 by (auto simp: idle_list_def)
      moreover have "settle st' h' = Answered h"
        using step 3 task by (auto simp: settle_streams task_ok_def)
      ultimately show ?thesis using kept [of s' "claim (Answered h)"] by simp
    qed
  qed
qed

lemma session_run_owner:
  fixes s :: "('e, 'm) proxy_sys_scheme" and E :: "('e, 'x) proxy_env_scheme"
  assumes fresh: "fresh_sockets E used"
    and "sessions_ok (xs, s)" and "one_owner (owner (map claim xs) s) (used (ext s))"
    and "session_run url_Parse E ops (xs, s) = Some (xs', s')"
  shows "one_owner (owner (map claim xs') s') (used (ext s'))"
  using assms(2-4)
proof (induction ops arbitrary: xs s)
  case Nil
  then show ?case by simp
next
  case (Cons op ops)
  note inv = Cons.prems(1) and one = Cons.prems(2)
  from Cons.prems(3) obtain xs1 s1 where step: "session_step url_Parse E op (xs, s) = Some (xs1, s1)"
    and rest: "session_run url_Parse E ops (xs1, s1) = Some (xs', s')"
    by (auto split: option.splits)
  from step have "one_owner (owner (map claim xs1) s1) (used (ext s1))"
  proof (cases rule: session_step_cases)
    case (arrives req)
    have "owner (map claim xs1) s \<subseteq>\<^sub>m owner (map claim xs) s"
      by (rule owner_leI)
        (auto simp: arrives owner_stream owner_idle nth_append less_Suc_eq split: if_splits)
    from one_owner_sub [OF one this order_refl] show ?thesis by (simp add: arrives)
  next
    case (advances i st h st' h')
    have ok: "session_ok (Handling st h)" "pool_wf s"
      using sessions_okD [OF inv] advances(2,3) by metis+
    from sessions_ok_holder [OF inv advances(2)] have use: "1 \<le> in_use (h_upstreamAddress h) s" if "holding st"
      using that by (simp add: advances(3))
    have at: "i < length (map claim xs)" "map claim xs ! i = claim (Handling st h)"
      using advances(2,3) by simp_all
    from advance_owner [OF fresh advances(4) ok use at one] show ?thesis
      by (simp add: advances(5) map_update)
  next
    case (reads i n h pr b err pr')
    have rel: "releases_reader pr" and wf: "pool_wf s"
      using sessions_okD [OF inv] reads(2,3) session_ok.simps(3) by metis+
    have use: "pr_returned pr \<or> 1 \<le> in_use (pr_upstreamAddr pr) s"
      using sessions_ok_holder [OF inv reads(2)] by (simp add: reads(3))
    have new: "new_sockets E used" using fresh by (simp add: fresh_sockets_def)
    have at: "i < length (map claim xs)" "map claim xs ! i = pr" using reads(2,3) by simp_all
    from read_owner [OF new at(1), unfolded at(2), OF rel wf use reads(4) one] show ?thesis
      by (simp add: reads(5) map_update)
  next
    case idles
    with one show ?thesis by simp
  qed
  with Cons.IH [OF _ _ rest] session_step_ok [OF inv step] show ?case by blast
qed

text \<open>What it means for sessions and idle lists.\<close>

lemma one_owner_sessions:
  assumes "one_owner (owner (map claim xs) s) k"
  shows "i < length xs \<Longrightarrow> j < length xs \<Longrightarrow> i \<noteq> j \<Longrightarrow>
      held (xs ! i) = Some (a, c) \<Longrightarrow> held (xs ! j) = Some (b, d) \<Longrightarrow> socket c \<noteq> socket d"
    and "i < length xs \<Longrightarrow> held (xs ! i) = Some (a, c) \<Longrightarrow> x \<in> set (idle_list b s) \<Longrightarrow>
      socket c \<noteq> socket (idle_conn x)"
    and "distinct (map (socket \<circ> idle_conn) (idle_list a s))"
    and "a \<noteq> b \<Longrightarrow> x \<in> set (idle_list a s) \<Longrightarrow> y \<in> set (idle_list b s) \<Longrightarrow>
      socket (idle_conn x) \<noteq> socket (idle_conn y)"
  using one_owner_places(1) [OF assms, of i j] one_owner_places(2) [OF assms, of i x b]
    one_owner_places(3,4) [OF assms]
  by (auto simp: held_claim split: if_splits)

section \<open>Whose request a session serves\<close>

text \<open>The requests in the order in which they arrive, and the one that a session serves.\<close>

fun arrivals :: "session_op list \<Rightarrow> request list" where
  "arrivals [] = []" | "arrivals (NewRequest req # ops) = req # arrivals ops"
| "arrivals (op # ops) = arrivals ops"

fun serves :: "'s session \<Rightarrow> request" where
  "serves (Handling st h) = h_ctx h" | "serves (Answered h) = h_ctx h" | "serves (Streamed h pr) = h_ctx h"

lemma serves_settle [simp]: "serves (settle st h) = h_ctx h"
  by (simp add: settle_def split: list.split)

lemma step_ctx:
  "resolveUpstream url_Parse E h s = (ok, h', s') \<Longrightarrow> h_ctx h' = h_ctx h"
  "acquireUpstreamConn E h s = (ok, h', s') \<Longrightarrow> h_ctx h' = h_ctx h"
  "copyResponseStatus h s = (h', s') \<Longrightarrow> h_ctx h' = h_ctx h"
  "h_ctx (streamResponseBody h) = h_ctx h"
  by (auto simp: resolveUpstream_def acquireUpstreamConn_def copyResponseStatus_def streamResponseBody_def
      respond_def Let_def split: prod.splits option.splits sum.splits if_splits)

lemma handler_step_ctx:
  fixes s :: "('e, 'm) proxy_sys_scheme" and E :: "('e, 'x) proxy_env_scheme"
  assumes "handler_step url_Parse E st h s = Some (st', h', s')"
  shows "h_ctx h' = h_ctx h"
proof -
  have "?thesis" if "writeRequestHeaders E h s = Some (ok, h', s')" for ok
    using header_step.keeps [OF that] by (simp add: same_request_def)
  moreover have "?thesis" if "writeRequestBody E h s = Some (ok, h', s')" for ok
    using body_step.keeps [OF that] by (simp add: same_request_def)
  moreover have "?thesis" if "readResponseHeaders E h s = Some (ok, h', s')" for ok
    using readResponseHeaders_step(1) [OF that] by (simp add: same_request_def)
  ultimately show ?thesis
    using assms by (cases st) (auto simp: step_ctx split: prod.splits option.splits)
qed

lemma session_run_serves:
  fixes s :: "('e, 'm) proxy_sys_scheme" and E :: "('e, 'x) proxy_env_scheme"
  shows "session_run url_Parse E ops (xs, s) = Some (xs', s') \<Longrightarrow> map serves xs' = map serves xs @ arrivals ops"
proof (induction ops arbitrary: xs s)
  case (Cons op ops)
  then obtain xs1 s1 where step: "session_step url_Parse E op (xs, s) = Some (xs1, s1)"
    and rest: "session_run url_Parse E ops (xs1, s1) = Some (xs', s')" by (auto split: option.splits)
  from step have "map serves xs1 = map serves xs @ arrivals [op]"
  proof (cases rule: session_step_cases)
    case (advances i st h st' h')
    have "serves (settle st' h') = map serves xs ! i" using handler_step_ctx [OF advances(4)] advances(2,3) by simp
    with advances show ?thesis by (simp add: map_update list_update_same_conv)
  next
    case (reads i n h pr b err pr')
    then have "serves (Streamed h pr') = map serves xs ! i" by simp
    with reads show ?thesis by (simp add: map_update list_update_same_conv)
  next
    case idles
    then show ?thesis
      using step by (cases op) auto
  qed simp
  with Cons.IH [OF rest] show ?case by (cases op) simp_all
qed simp

section \<open>Every request comes to its end\<close>

text \<open>How many steps the goroutine of a session still has to take.\<close>

fun steps_pending :: "'s session \<Rightarrow> nat" where
  "steps_pending (Handling st h) = steps_left st"
| "steps_pending (Answered h) = 0"
| "steps_pending (Streamed h pr) = 0"

fun live_session :: "'s session \<Rightarrow> bool" where
  "live_session (Handling st h) = (st \<noteq> Handled)"
| "live_session (Answered h) = True"
| "live_session (Streamed h pr) = True"

lemma settle_live [simp]: "live_session (settle st h)"
  by (simp add: settle_def split: list.split)

lemma settle_pending [simp]: "steps_pending (settle st h) = steps_left st"
  by (simp add: settle_def split: list.split)

lemma session_step_pending:
  assumes "session_step url_Parse E op (xs, s) = Some (xs', s')" and "\<forall>x \<in> set xs. live_session x"
  shows "\<forall>x \<in> set xs'. live_session x" "length xs \<le> length xs'"
    "i < length xs \<Longrightarrow>
      steps_pending (xs' ! i) \<le> steps_pending (xs ! i) - (if op = Advance i then 1 else 0)"
proof -
  have "(\<forall>x \<in> set xs'. live_session x) \<and> length xs \<le> length xs' \<and> (i < length xs \<longrightarrow>
      steps_pending (xs' ! i) \<le> steps_pending (xs ! i) - (if op = Advance i then 1 else 0))"
    using assms(1)
  proof (cases rule: session_step_cases)
    case (arrives req)
    with assms(2) show ?thesis by (auto simp: nth_append)
  next
    case (advances j st h st' h')
    with handler_step_progress [OF advances(4)] assms(2) set_update_subset_insert [of xs j "settle st' h'"]
    show ?thesis by (auto simp: nth_list_update)
  next
    case (reads j n h pr b err pr')
    with assms(2) set_update_subset_insert [of xs j "Streamed h pr'"]
    show ?thesis by (auto simp: nth_list_update)
  next
    case idles
    have "steps_pending (xs ! i) = 0" if "op = Advance i" "i < length xs"
      using idles(3) [OF that] by (metis session.exhaust steps_pending.simps(2,3))
    with idles assms(2) show ?thesis by auto
  qed
  then show "\<forall>x \<in> set xs'. live_session x" "length xs \<le> length xs'"
    "i < length xs \<Longrightarrow>
      steps_pending (xs' ! i) \<le> steps_pending (xs ! i) - (if op = Advance i then 1 else 0)" by blast+
qed

text \<open>A step returns if what it writes is taken, the upstream answers and the body it copies ends.\<close>

lemma handler_step_returns:
  fixes s :: "('e, 'm) proxy_sys_scheme" and E :: "('e, 'x) proxy_env_scheme"
  assumes "writes_all E" and "upstream_answers E"
    and "\<And>src n e. snd (fst (body_Read E src n e)) = None \<Longrightarrow> m (snd (body_Read E src n e)) < (m e :: nat)"
    and "\<And>c b e. m (snd (conn_Write E c b e)) \<le> m e"
  shows "handler_step url_Parse E st h s \<noteq> None"
proof -
  have "writeRequestBody E h s \<noteq> None"
    by (rule writeRequestBody_total) (use PipeCopy_total [of E _ m] assms(3,4) in blast)
  with writeRequestHeaders_total [OF assms(1), of h s] readResponseHeaders_total [OF assms(2), of h s]
  show ?thesis
    by (cases st) (auto split: prod.split)
qed

lemma session_run_returns:
  fixes s :: "('e, 'm) proxy_sys_scheme" and E :: "('e, 'x) proxy_env_scheme"
  assumes "writes_all E" and "upstream_answers E"
    and "\<And>src n e. snd (fst (body_Read E src n e)) = None \<Longrightarrow> m (snd (body_Read E src n e)) < (m e :: nat)"
    and "\<And>c b e. m (snd (conn_Write E c b e)) \<le> m e"
  shows "\<exists>xs' s'. session_run url_Parse E ops (xs, s) = Some (xs', s')"
proof (induction ops arbitrary: xs s)
  case Nil
  then show ?case by simp
next
  case (Cons op ops)
  have ret: "handler_step url_Parse E st h t \<noteq> None" for st h and t :: "('e, 'm) proxy_sys_scheme"
    by (rule handler_step_returns [where m = m, OF assms])
  have "session_step url_Parse E op (xs, s) \<noteq> None"
    by (cases op) (auto simp: ret split: session.split option.split prod.split)
  then obtain xs1 s1 where "session_step url_Parse E op (xs, s) = Some (xs1, s1)" by auto
  with Cons.IH [of xs1 s1] show ?case by simp
qed

lemma session_run_pending:
  assumes "session_run url_Parse E ops (xs, s) = Some (xs', s')" and "\<forall>x \<in> set xs. live_session x"
    and "i < length xs"
  shows "i < length xs' \<and> live_session (xs' ! i) \<and>
    steps_pending (xs' ! i) \<le> steps_pending (xs ! i) - count_list ops (Advance i)"
  using assms
proof (induction ops arbitrary: xs s)
  case Nil
  then show ?case by simp
next
  case (Cons op ops)
  from Cons.prems(1) obtain xs1 s1 where one: "session_step url_Parse E op (xs, s) = Some (xs1, s1)"
    and rest: "session_run url_Parse E ops (xs1, s1) = Some (xs', s')"
    by (auto split: option.splits)
  note step = session_step_pending(1,2) [OF one Cons.prems(2)]
    session_step_pending(3) [OF one Cons.prems(2,3)]
  from Cons.IH [OF rest step(1)] step(2,3) Cons.prems(3) show ?case
    by (auto split: if_splits)
qed

lemma session_run_live:
  "session_run url_Parse E ops (xs, s) = Some (xs', s') \<Longrightarrow> \<forall>x \<in> set xs. live_session x \<Longrightarrow>
   \<forall>x \<in> set xs'. live_session x"
proof (induction ops arbitrary: xs s)
  case (Cons op ops)
  then obtain xs1 s1 where "session_step url_Parse E op (xs, s) = Some (xs1, s1)"
    "session_run url_Parse E ops (xs1, s1) = Some (xs', s')" by (auto split: option.splits)
  with Cons.IH session_step_pending(1) Cons.prems(2) show ?case by blast
qed simp

lemma steps_left_le: "steps_left st \<le> 7"
  by (cases st) simp_all

text \<open>The sample network, with an upstream that answers every request with three bytes of body.\<close>

definition busy_env :: "sample_state proxy_env" where
  "busy_env = proxy_sample_env (sample_header 200 3)"

lemma sample_read_fst: "fst (snd (sample_read st)) = fst st"
  by (cases st rule: sample_read.cases) simp_all

lemma busy_fresh: "fresh_sockets busy_env (fst :: sample_state \<Rightarrow> nat)"
  unfolding fresh_sockets_def new_sockets_def busy_env_def by (simp add: sample_read_fst)

lemma busy_ends:
  "writes_all busy_env" "upstream_answers busy_env"
  "snd (fst (body_Read busy_env src n e)) = None \<Longrightarrow>
     length (snd (snd (body_Read busy_env src n e))) < length (snd e)"
  "length (snd (snd (conn_Write busy_env c b e))) \<le> length (snd e)"
  using sample_writes_all sample_answers by (simp_all add: busy_env_def) (cases e rule: sample_read.cases; simp)

lemma busy_returns:
  fixes s :: "sample_state proxy_sys"
  shows "\<exists>xs' s'. session_run sample_url_Parse busy_env ops (xs, s) = Some (xs', s')"
  by (rule session_run_returns [where m = "\<lambda>e :: sample_state. length (snd e)", OF busy_ends])

text \<open>
  C7. Every request comes to its end, whatever the others do, on three conditions: writes take
  everything or fail, request bodies end, and every upstream answers (a read of a response header
  ends, with a header or an error; the handler sets no deadline for it). Then no loop of the
  service runs for ever, and a session whose goroutine has taken
  seven steps, interleaved in any way with the steps of other goroutines and with Reads of bodies, has
  been answered or has its body streaming. A single dial, Write, Close or Read of a body is taken to return.
\<close>
theorem requests_finish:
  fixes s0 :: "('e, 'm) proxy_sys_scheme" and E :: "('e, 'x) proxy_env_scheme"
  assumes "writes_all E" and "upstream_answers E"
    and "\<And>src n e. snd (fst (body_Read E src n e)) = None \<Longrightarrow> m (snd (body_Read E src n e)) < (m e :: nat)"
    and "\<And>c b e. m (snd (conn_Write E c b e)) \<le> m e"
    and "session_run url_Parse E ops0 ([], s0) = Some (xs, s)"
    and "i < length xs" and "7 \<le> count_list ops (Advance i)"
  shows "\<exists>xs' s'. session_run url_Parse E ops (xs, s) = Some (xs', s') \<and> i < length xs' \<and>
    ((\<exists>h. xs' ! i = Answered h) \<or> (\<exists>h pr. xs' ! i = Streamed h pr))"
proof -
  obtain xs' s' where run: "session_run url_Parse E ops (xs, s) = Some (xs', s')"
    using session_run_returns [where m = m, OF assms(1-4)] by blast
  have "\<forall>x \<in> set xs. live_session x" by (rule session_run_live [OF assms(5)]) simp
  note fin = session_run_pending [OF run this assms(6)]
  have "steps_pending (xs ! i) \<le> 7" using steps_left_le by (cases "xs ! i") simp_all
  with fin assms(7) have "steps_pending (xs' ! i) = 0" by simp
  with fin run show ?thesis by (cases "xs' ! i") auto
qed

theorem requests_finish_witness:
  "\<exists>xs' s'. session_run sample_url_Parse busy_env (replicate 7 (Advance 0))
       ([Handling Resolving (new_handler sample_request)],
        proxy_init (0, []) (NewUpstreams sample_url_Parse [])) = Some (xs', s') \<and> 0 < length xs' \<and>
     ((\<exists>h. xs' ! 0 = Answered h) \<or> (\<exists>h pr. xs' ! 0 = Streamed h pr))"
proof -
  have "session_run sample_url_Parse busy_env [NewRequest sample_request]
      ([], proxy_init (0, []) (NewUpstreams sample_url_Parse [])) =
    Some ([Handling Resolving (new_handler sample_request)],
      proxy_init ((0, []) :: sample_state) (NewUpstreams sample_url_Parse []))" by simp
  from requests_finish [where m = "\<lambda>e :: sample_state. length (snd e)", OF busy_ends this,
      of 0 "replicate 7 (Advance 0)"]
  show ?thesis by (simp add: eval_nat_numeral)
qed

section \<open>An upstream that does not answer\<close>

text \<open>
  A session that waits for the header of a response, on a connection from which none will
  ever come: neither a header nor an error.
\<close>

definition waits_forever :: "('e, 'x) proxy_env_scheme \<Rightarrow> string \<Rightarrow> ('e, 'm) proxy_sys_scheme session \<Rightarrow> bool" where
  "waits_forever E a x \<longleftrightarrow>
     (\<exists>h c. x = Handling ReadingHeaders h \<and> h_upstreamAddress h = a \<and> h_connection h = Some c \<and>
        (\<forall>br e. br_src br = c \<longrightarrow> header_Read E br e = None))"

lemma waits_forever_blocks:
  fixes s :: "('e, 'm) proxy_sys_scheme"
  assumes "waits_forever E a (Handling st h)"
  shows "handler_step url_Parse E st h s = None"
proof -
  from assms obtain c where h: "st = ReadingHeaders" "h_connection h = Some c"
    and mute: "\<And>br e. br_src br = c \<Longrightarrow> header_Read E br e = None" by (auto simp: waits_forever_def)
  obtain br s1 where get: "AcquireBufIOReader E c s = (br, s1)" by fastforce
  have "br_src br = c" using AcquireBufIOReader_clean(1) [of E c s] get by simp
  with mute h get show ?thesis by (simp add: readResponseHeaders_def read_header_def)
qed

lemma waits_forever_held: "waits_forever E a x \<Longrightarrow> \<exists>c. held x = Some (a, c)"
  by (auto simp: waits_forever_def)

lemma session_step_waits:
  assumes "session_step url_Parse E op (xs, s) = Some (xs', s')" and "i < length xs"
    and "waits_forever E a (xs ! i)"
  shows "i < length xs' \<and> xs' ! i = xs ! i"
  using assms(1)
proof (cases rule: session_step_cases)
  case (arrives req)
  with assms(2) show ?thesis by (simp add: nth_append)
next
  case (advances j st h st' h')
  with waits_forever_blocks [of E a st h url_Parse s] assms(2,3) show ?thesis by (cases "j = i") auto
next
  case (reads j n h pr b err pr')
  with assms(2,3) show ?thesis by (cases "j = i") (auto simp: waits_forever_def)
next
  case idles
  with assms(2) show ?thesis by simp
qed

lemma session_run_waits:
  "session_run url_Parse E ops (xs, s) = Some (xs', s') \<Longrightarrow> i < length xs \<Longrightarrow> waits_forever E a (xs ! i) \<Longrightarrow>
   i < length xs' \<and> xs' ! i = xs ! i"
proof (induction ops arbitrary: xs s)
  case (Cons op ops)
  from Cons.prems(1) obtain xs1 s1 where one: "session_step url_Parse E op (xs, s) = Some (xs1, s1)"
    and rest: "session_run url_Parse E ops (xs1, s1) = Some (xs', s')"
    by (auto split: option.splits)
  from session_step_waits [OF one Cons.prems(2,3)] Cons.IH [OF rest] Cons.prems(3) show ?case by simp
qed simp

text \<open>Sessions that wait hold a connection each, and the slots of their upstream with it.\<close>

lemma waiting_holds:
  assumes "\<And>i. i < length xs \<Longrightarrow> waits_forever E a (xs ! i) \<Longrightarrow> i < length ys \<and> ys ! i = xs ! i"
  shows "int (length (filter (waits_forever E a) xs)) \<le> held_at a ys"
proof -
  have "{i. i < length xs \<and> waits_forever E a (xs ! i)} \<subseteq> {i. i < length ys \<and> (\<exists>c. held (ys ! i) = Some (a, c))}"
    using assms waits_forever_held by fastforce
  then have "card {i. i < length xs \<and> waits_forever E a (xs ! i)} \<le>
      card {i. i < length ys \<and> (\<exists>c. held (ys ! i) = Some (a, c))}"
    by (intro card_mono) simp_all
  then show ?thesis by (simp add: held_at_def length_filter_conv_card)
qed

lemma full_acquire:
  assumes "pool_wf s" and "maxUpstreamConnectionsPerHost s \<le> in_use a s"
  shows "AcquireUpstreamConnection E a s = (Inl ErrDialTimeout, upd_pool a id s)"
proof -
  from pool_wfD(4) [OF assms(1), of a] assms(2) have "int (length (idle_list a s)) \<le> 0"
    and full: "maxUpstreamConnectionsPerHost s \<le> slots a s"
    unfolding in_use_def by linarith+
  then have "idle_list a s = []" by simp
  from acquire_empty [OF this, of E] dialNew_full [of "upd_pool a id s" a E] full show ?thesis
    by (simp add: slots_def to_int32_limit [OF assms(1)])
qed

section \<open>One request alone\<close>

lemma handling_alone:
  fixes s :: "('e, 'm) proxy_sys_scheme" and E :: "('e, 'x) proxy_env_scheme"
  shows "session_run url_Parse E (replicate n (Advance (length xs))) (xs @ [settle st h], s) =
    (case handler_steps n url_Parse E st h s of
       None \<Rightarrow> None | Some (st', h', s') \<Rightarrow> Some (xs @ [settle st' h'], s'))"
proof (induction n arbitrary: st h s)
  case 0
  then show ?case by simp
next
  case (Suc n)
  have over: "session_run url_Parse E (replicate n (Advance (length xs))) (xs @ [settle Handled h], s) =
      Some (xs @ [settle Handled h], s)" for n h and s :: "('e, 'm) proxy_sys_scheme"
  proof (induction n)
    case (Suc n)
    then show ?case by (cases "body_streams h") (simp_all add: settle_def)
  qed simp
  show ?case
  proof (cases "st = Handled")
    case True
    with over [of "Suc n"] show ?thesis by simp
  next
    case False
    then have "settle st h = Handling st h" by (simp add: settle_def)
    with Suc show ?thesis by (auto split: option.split)
  qed
qed

text \<open>
  The cut of \<open>handle\<close> into steps loses nothing: a session that takes its seven steps one after the
  other ends as \<open>serve\<close> does, among any other sessions, so that what is proved of sessions holds of
  \<open>serve\<close>.
\<close>
lemma session_alone_is_serve:
  fixes s :: "('e, 'm) proxy_sys_scheme" and E :: "('e, 'x) proxy_env_scheme"
  shows "session_run url_Parse E (NewRequest req # replicate 7 (Advance (length xs))) (xs, s) =
    (case serve url_Parse E req s of
       None \<Rightarrow> None | Some (h, s') \<Rightarrow> Some (xs @ [settle Handled h], s'))"
proof -
  have first: "settle Resolving (new_handler req :: ('e, 'm) proxy_sys_scheme handler) =
      Handling Resolving (new_handler req)"
    by (simp add: settle_def)
  show ?thesis
    using handling_alone [where st = Resolving and h = "new_handler req" and n = 7 and xs = xs
        and s = s and E = E and url_Parse = url_Parse, unfolded first handler_steps_are_handle]
    by (auto simp: serve_def split: option.splits)
qed

end
