(* ===== verification/Wire.thy ===== *)
theory Wire
  imports Sessions
begin

text \<open>
  What requests served at the same time put on the wire: no step of a request touches the
  connection of another, so each upstream connection carries one request at a time, whole and
  in order.
\<close>

section \<open>Which connections a step touches\<close>

text \<open>An event that neither writes to a connection nor closes it.\<close>

fun spares :: "net_conn \<Rightarrow> io_event \<Rightarrow> bool" where
  "spares c (EvWrite d _ _) = (d \<noteq> c)" | "spares c (EvClose d) = (d \<noteq> c)"
| "spares c (EvBodyRead _ _) = True" | "spares c (EvDial _ _) = True"

lemma on_conn_spares: "c \<noteq> d \<Longrightarrow> list_all (on_conn d) evs \<Longrightarrow> list_all (spares c) evs"
proof (induction evs)
  case (Cons ev evs)
  then show ?case by (cases ev) simp_all
qed simp

lemma spares_written: "list_all (spares c) evs \<Longrightarrow> written_to c evs = []"
proof (induction evs)
  case (Cons ev evs)
  then show ?case by (cases ev) simp_all
qed simp

text \<open>Acquire dials, and may close a connection that was idle.\<close>

lemma dialNew_events:
  "\<exists>evs. trace (snd (dialNew E a s)) = trace s @ evs \<and> list_all (spares c) evs"
proof (cases "slots a s < sint (to_int32 (maxUpstreamConnectionsPerHost s))")
  case True
  from dialNew_room(3) [OF this, of E] show ?thesis by simp
next
  case False
  then show ?thesis by (simp add: dialNew_full)
qed

lemma acquire_events:
  assumes "c \<notin> idle_conn ` set (idle_list a s)"
  shows "\<exists>evs. trace (snd (AcquireUpstreamConnection E a s)) = trace s @ evs \<and> list_all (spares c) evs"
proof (cases "idle_list a s = []")
  case True
  then show ?thesis using dialNew_events [of E a "upd_pool a id s" c] by (simp add: acquire_empty)
next
  case False
  show ?thesis
  proof (cases "fst (time_Now E (ext s)) - returnedAt (last (idle_list a s)) \<le> idleTimeout s")
    case True
    show ?thesis by (simp add: acquire_reuse [OF False True])
  next
    case stale: False
    have "idle_conn (last (idle_list a s)) \<noteq> c" using assms False by auto
    moreover obtain evs where "trace (snd (dialNew E a (dropped_stale E a s))) =
        trace (dropped_stale E a s) @ evs" "list_all (spares c) evs"
      using dialNew_events by blast
    ultimately show ?thesis
      using stale by (intro exI [of _ "EvClose (idle_conn (last (idle_list a s))) # evs"])
        (simp add: acquire_stale [OF False])
  qed
qed

text \<open>The two writing steps write to the connection of their request only.\<close>

lemma writeRequestHeaders_events:
  assumes "writes_all E" and "writeRequestHeaders E h s = Some (ok, h', s')"
  shows "\<exists>evs. trace s' = trace s @ evs \<and> list_all (on_conn (the (h_connection h))) evs"
proof -
  obtain bw s1 where get: "AcquireBufIOWriter E (the (h_connection h)) s = (bw, s1)" by fastforce
  have bw: "bw_dst bw = the (h_connection h)" "bw_err bw = None"
    using AcquireBufIOWriter_clean [of E "the (h_connection h)" s] get by simp_all
  have s1: "trace s1 = trace s" using bufio_ops_trace(1) [of E "the (h_connection h)" s] get by simp
  obtain r bw1 s2 where wr: "bufio_Write E bw (req_Header (h_ctx h)) s1 = Some (r, bw1, s2)"
    and w: "wrote bw (req_Header (h_ctx h)) s1 r bw1 s2"
    using bufio_Write_wrote [OF assms(1) bw(2)] by blast
  obtain fr bw2 s3 where fl: "bufio_Flush E bw1 s2 = (fr, bw2, s3)" by (metis prod.exhaust)
  from w s1 bw obtain evs1 where one: "trace s2 = trace s @ evs1"
    "list_all (on_conn (the (h_connection h))) evs1" by (auto simp: wrote_def)
  show ?thesis
  proof (cases r)
    case (Some err)
    with assms(2) wr one show ?thesis
      by (auto simp: writeRequestHeaders_def get frame_simps)
  next
    case None
    with w bw have bw1: "bw_err bw1 = None" "bw_dst bw1 = the (h_connection h)" by (simp_all add: wrote_def)
    from bufio_Flush_wrote(1) [OF assms(1) bw1(1) fl] bw1(2) obtain evs2 where
      "trace s3 = trace s2 @ evs2" "list_all (on_conn (the (h_connection h))) evs2"
      by (auto simp: wrote_def)
    moreover have "trace s' = trace s3"
      using assms(2) None by (auto simp: writeRequestHeaders_def get wr fl frame_simps split: option.splits)
    ultimately show ?thesis using one by simp
  qed
qed

lemma writeRequestBody_events:
  assumes "writeRequestBody E h s = Some (ok, h', s')"
  shows "\<exists>evs. trace s' = trace s @ evs \<and> list_all (on_conn (the (h_connection h))) evs"
proof -
  from assms obtain s2 where body: "send_body E h (snd (now E s)) = Some (ok, h', s2)"
    and s': "trace s' = trace s2"
    by (auto simp: writeRequestBody_def split_beta frame_simps split: option.splits)
  show ?thesis
  proof (cases "req_BodyStream (h_ctx h)")
    case (Some src)
    with body obtain r where "PipeCopy E src (the (h_connection h)) (snd (now E s)) = Some (r, s2)"
      by (auto simp: send_body_def split: option.splits)
    from pipe_copy_wire [OF this] copied_on_conn s' show ?thesis by (auto simp: frame_simps)
  next
    case None
    with body s' show ?thesis
      by (auto simp: send_body_def split_beta Let_def frame_simps split: if_splits)
  qed
qed

lemma handler_step_events:
  fixes s :: "('e, 'm) proxy_sys_scheme" and E :: "('e, 'x) proxy_env_scheme"
  assumes w: "writes_all E" and step: "handler_step url_Parse E st h s = Some (st', h', s')"
    and own: "holding st \<Longrightarrow> the (h_connection h) \<noteq> c"
    and idle: "\<And>a. c \<notin> idle_conn ` set (idle_list a s)"
  shows "\<exists>evs. trace s' = trace s @ evs \<and> list_all (spares c) evs"
proof -
  have spared: "\<exists>evs. trace s' = trace s @ evs \<and> list_all (spares c) evs"
    if "\<exists>evs. trace s' = trace s @ evs \<and> list_all (on_conn (the (h_connection h))) evs" "holding st"
    using that on_conn_spares [of c "the (h_connection h)"] own by blast
  show ?thesis
  proof (cases st)
    case Resolving
    with step show ?thesis by (auto split: prod.splits dest: resolve_frame(5))
  next
    case Acquiring
    with step acquire_events [OF idle, of E "h_upstreamAddress h"] show ?thesis
      by (auto simp: acquireUpstreamConn_def split_beta Let_def frame_simps split: sum.splits)
  next
    case WritingHeaders
    with step obtain ok where "writeRequestHeaders E h s = Some (ok, h', s')" by (auto split: option.splits)
    from spared [OF writeRequestHeaders_events [OF w this]] WritingHeaders show ?thesis by simp
  next
    case WritingBody
    with step obtain ok where "writeRequestBody E h s = Some (ok, h', s')" by (auto split: option.splits)
    from spared [OF writeRequestBody_events [OF this]] WritingBody show ?thesis by simp
  next
    case ReadingHeaders
    with step show ?thesis by (auto split: option.splits dest: readResponseHeaders_step(2))
  next
    case CopyingStatus
    with step show ?thesis by (auto split: prod.splits dest: copyResponseStatus_frame(3))
  next
    case Dropping
    with step own show ?thesis by auto
  qed (use step in auto)
qed

text \<open>A step of the service spares every connection that its session does not hold and that is not idle.\<close>

fun moves_session :: "session_op \<Rightarrow> nat \<Rightarrow> bool" where
  "moves_session (NewRequest req) j = False" | "moves_session (Advance i) j = (i = j)"
| "moves_session (ReadBody i n) j = (i = j)"

lemma session_step_events:
  fixes s :: "('e, 'm) proxy_sys_scheme" and E :: "('e, 'x) proxy_env_scheme"
  assumes w: "writes_all E" and inv: "sessions_ok (xs, s)"
    and "session_step url_Parse E op (xs, s) = Some (xs', s')"
    and own: "\<And>j a. j < length xs \<Longrightarrow> moves_session op j \<Longrightarrow> held (xs ! j) \<noteq> Some (a, c)"
    and idle: "\<And>a. c \<notin> idle_conn ` set (idle_list a s)"
  shows "\<exists>evs. trace s' = trace s @ evs \<and> list_all (spares c) evs"
  using assms(3)
proof (cases rule: session_step_cases)
  case (advances i st h st' h')
  have "the (h_connection h) \<noteq> c" if "holding st"
    using own [of i "h_upstreamAddress h"] that advances(1-3) by auto
  from handler_step_events [OF w advances(4) this idle] show ?thesis .
next
  case (reads i n h pr b err pr')
  have rel: "releases_reader pr" and wf: "pool_wf s"
    using sessions_okD [OF inv] reads(2,3) by (metis session_ok.simps(3))+
  have use: "pr_returned pr \<or> 1 \<le> in_use (pr_upstreamAddr pr) s"
    using sessions_ok_holder [OF inv reads(2)] by (simp add: reads(3))
  have "pr_returned pr \<or> pr_connection pr \<noteq> c"
    using own [of i "pr_upstreamAddr pr"] reads(1-3) by auto
  with timed_body.pool_Read_effects(2) [OF reads(4) releases_cleanup_ok [OF rel] wf use]
  show ?thesis by auto
qed simp_all

section \<open>The request on the wire\<close>

text \<open>No write to the connection has failed, and nobody has closed it.\<close>

fun intact :: "net_conn \<Rightarrow> io_event \<Rightarrow> bool" where
  "intact c (EvWrite d _ r) = (d = c \<longrightarrow> r = None)" | "intact c (EvClose d) = (d \<noteq> c)"
| "intact c (EvBodyRead _ _) = True" | "intact c (EvDial _ _) = True"

lemma spares_intact: "list_all (spares c) evs \<Longrightarrow> list_all (intact c) evs"
proof (induction evs)
  case (Cons ev evs)
  then show ?case by (cases ev) simp_all
qed simp

lemma on_conn_intact:
  "list_all (on_conn c) evs \<Longrightarrow> \<forall>ev \<in> set evs. \<not> write_failed ev \<Longrightarrow> list_all (intact c) evs"
proof (induction evs)
  case (Cons ev evs)
  have failed: "write_failed (EvWrite d b r) \<longleftrightarrow> r \<noteq> None" for d b and r :: "go_error option"
    by (cases r) simp_all
  from Cons show ?case by (cases ev) (simp_all add: failed)
qed simp

text \<open>The header of the request, then its body, and nothing else.\<close>

definition request_sent :: "net_conn \<Rightarrow> request \<Rightarrow> io_event list \<Rightarrow> bool" where
  "request_sent c req evs \<longleftrightarrow>
     (\<exists>pre body post. evs = pre @ body @ post \<and> written_to c pre = req_Header req \<and>
        (case req_BodyStream req of
           None \<Rightarrow> written_to c body = req_Body req
         | Some src \<Rightarrow> copied c body None) \<and>
        written_to c post = [])"

text \<open>What has been sent when the goroutine has come to a stage.\<close>

fun sent_so_far :: "net_conn \<Rightarrow> request \<Rightarrow> stage \<Rightarrow> io_event list \<Rightarrow> bool" where
  "sent_so_far c req WritingHeaders evs = (written_to c evs = [])"
| "sent_so_far c req WritingBody evs = (written_to c evs = req_Header req)"
| "sent_so_far c req ReadingHeaders evs = request_sent c req evs"
| "sent_so_far c req CopyingStatus evs = request_sent c req evs"
| "sent_so_far c req Streaming evs = request_sent c req evs"
| "sent_so_far c req st evs = False"

fun sending :: "stage \<Rightarrow> bool" where
  "sending WritingHeaders = True" | "sending WritingBody = True" | "sending ReadingHeaders = True"
| "sending CopyingStatus = True" | "sending Streaming = True" | "sending st = False"

definition carries :: "net_conn \<Rightarrow> request \<Rightarrow> 's session \<Rightarrow> io_event list \<Rightarrow> bool" where
  "carries c req x evs \<longleftrightarrow>
     (\<exists>st h. x = Handling st h \<and> sending st \<and> h_connection h = Some c \<and> h_ctx h = req \<and>
        sent_so_far c req st evs \<and> list_all (intact c) evs)"

lemma sent_spares:
  assumes "list_all (spares c) evs'" and "sent_so_far c req st evs"
  shows "sent_so_far c req st (evs @ evs')"
proof -
  have "request_sent c req (evs @ evs')" if "request_sent c req evs"
    using that spares_written [OF assms(1)] by (fastforce simp: request_sent_def)
  with assms(2) spares_written [OF assms(1)] show ?thesis by (cases st) simp_all
qed

lemma carries_spares:
  "carries c req x evs \<Longrightarrow> list_all (spares c) evs' \<Longrightarrow> carries c req x (evs @ evs')"
  using sent_spares spares_intact by (fastforce simp: carries_def)

lemma carries_held: "carries c req x evs \<Longrightarrow> \<exists>a. held x = Some (a, c)"
proof -
  have "sending st \<Longrightarrow> holding st" for st by (cases st) simp_all
  then show "carries c req x evs \<Longrightarrow> \<exists>a. held x = Some (a, c)" by (auto simp: carries_def)
qed

lemma writeRequestBody_sent:
  assumes "writeRequestBody E h s = Some (True, h', s')"
  shows "\<exists>evs. trace s' = trace s @ evs \<and> (\<forall>ev \<in> set evs. \<not> write_failed ev) \<and>
    (case req_BodyStream (h_ctx h) of
       None \<Rightarrow> written_to (the (h_connection h)) evs = req_Body (h_ctx h)
     | Some src \<Rightarrow> copied (the (h_connection h)) evs None)"
proof (cases "req_BodyStream (h_ctx h)")
  case None
  with writeRequestBody_wire [OF assms] show ?thesis by auto
next
  case (Some src)
  from assms obtain s2 where "send_body E h (snd (now E s)) = Some (True, h', s2)" "trace s' = trace s2"
    by (auto simp: writeRequestBody_def split_beta frame_simps split: option.splits)
  moreover from this(1) Some have "PipeCopy E src (the (h_connection h)) (snd (now E s)) = Some (None, s2)"
    by (auto simp: send_body_def split: option.splits)
  from pipe_copy_wire [OF this] obtain evs where "trace s2 = trace s @ evs"
    "copied (the (h_connection h)) evs None" by (auto simp: frame_simps)
  ultimately show ?thesis using copied_ok Some by auto
qed

text \<open>The step of the goroutine itself: on to the next stage, or it is over.\<close>

lemma carries_step:
  fixes s :: "('e, 'm) proxy_sys_scheme" and E :: "('e, 'x) proxy_env_scheme"
  assumes w: "writes_all E" and step: "handler_step url_Parse E st h s = Some (st', h', s')"
    and before: "carries c req (Handling st h) evs" and "sending st'"
  shows "\<exists>evs'. trace s' = trace s @ evs' \<and> carries c req (Handling st' h') (evs @ evs')"
proof -
  from before have h: "h_connection h = Some c" "h_ctx h = req" "sent_so_far c req st evs"
    "list_all (intact c) evs" "sending st" by (simp_all add: carries_def)
  show ?thesis
  proof (cases st)
    case WritingHeaders
    with step \<open>sending st'\<close> have wh: "writeRequestHeaders E h s = Some (True, h', s')" "st' = WritingBody"
      by (auto split: option.splits prod.splits if_splits)
    obtain evs1 where one: "trace s' = trace s @ evs1" "written_to c evs1 = req_Header req"
      "\<forall>ev \<in> set evs1. \<not> write_failed ev"
      using writeRequestHeaders_wire [OF w wh(1)] h by auto
    moreover have "list_all (on_conn c) evs1"
      using writeRequestHeaders_events [OF w wh(1)] one(1) h by auto
    moreover have "h_connection h' = Some c" "h_ctx h' = req"
      using header_step.passes(1) [OF wh(1)] h by (simp_all add: same_request_def)
    ultimately show ?thesis
      using h WritingHeaders wh(2) on_conn_intact [of c evs1]
      by (intro exI [of _ evs1]) (simp add: carries_def)
  next
    case WritingBody
    with step \<open>sending st'\<close> have wb: "writeRequestBody E h s = Some (True, h', s')" "st' = ReadingHeaders"
      by (auto split: option.splits prod.splits if_splits)
    obtain evs1 where one: "trace s' = trace s @ evs1" "\<forall>ev \<in> set evs1. \<not> write_failed ev"
      "case req_BodyStream req of None \<Rightarrow> written_to c evs1 = req_Body req | Some src \<Rightarrow> copied c evs1 None"
      using writeRequestBody_sent [OF wb(1)] unfolding h(1,2) option.sel by blast
    moreover have "list_all (on_conn c) evs1"
      using writeRequestBody_events [OF wb(1)] one(1) h by auto
    moreover have "h_connection h' = Some c" "h_ctx h' = req"
      using body_step.passes(1) [OF wb(1)] h by (simp_all add: same_request_def)
    moreover have "request_sent c req (evs @ evs1)"
      unfolding request_sent_def using one(3) h(3) WritingBody
      by (intro exI [of _ evs] exI [of _ evs1] exI [of _ "[]"]) simp
    ultimately show ?thesis
      using h wb(2) on_conn_intact [of c evs1]
      by (intro exI [of _ evs1]) (simp add: carries_def)
  next
    case ReadingHeaders
    with step \<open>sending st'\<close> have rh: "readResponseHeaders E h s = Some (True, h', s')" "st' = CopyingStatus"
      by (auto split: option.splits if_splits)
    from readResponseHeaders_step(1,2) [OF rh(1)] h ReadingHeaders rh(2) show ?thesis
      by (intro exI [of _ "[]"]) (simp add: carries_def same_request_def)
  next
    case CopyingStatus
    with step have cs: "copyResponseStatus h s = (h', s')" "st' = Streaming" by (auto split: prod.splits)
    from copyResponseStatus_frame(1,3) [OF cs(1)] h CopyingStatus cs(2) show ?thesis
      by (intro exI [of _ "[]"]) (simp add: carries_def same_request_def)
  qed (use step h(5) \<open>sending st'\<close> in auto)
qed

section \<open>In a run\<close>

text \<open>The part of a session that comes after the sending.\<close>

fun over :: "'s session \<Rightarrow> bool" where
  "over (Handling st h) = (st = Dropping \<or> st = Handled)"
| "over (Answered h) = True" | "over (Streamed h pr) = True"

lemma over_settle: "st = Dropping \<or> st = Handled \<Longrightarrow> over (settle st h)"
  by (auto simp: settle_def split: list.split)

lemma settle_sending: "sending st \<Longrightarrow> settle st h = Handling st h"
  by (cases st) (simp_all add: settle_def)

lemma handler_step_stage:
  assumes "handler_step url_Parse E st h s = Some (st', h', s')" and "sending st \<or> st = Dropping \<or> st = Handled"
  shows "(sending st \<and> sending st') \<or> st' = Dropping \<or> st' = Handled"
  using assms by (cases st) (auto split: prod.splits option.splits if_splits)

lemma session_step_keeps_over:
  assumes "session_step url_Parse E op (xs, s) = Some (xs', s')" and "i < length xs" and "over (xs ! i)"
  shows "over (xs' ! i)"
  using assms(1)
proof (cases rule: session_step_cases)
  case (advances j st h st' h')
  show ?thesis
  proof (cases "j = i")
    case True
    with advances(2,3) assms(3) have "st = Dropping \<or> st = Handled" by simp
    moreover from this have "\<not> sending st" by auto
    ultimately have "st' = Dropping \<or> st' = Handled" using handler_step_stage [OF advances(4)] by blast
    with over_settle advances True show ?thesis by simp
  qed (use advances assms in simp)
qed (use assms in \<open>auto simp: nth_append nth_list_update\<close>)

lemma session_step_other:
  assumes "session_step url_Parse E op (xs, s) = Some (xs', s')" and "i < length xs" and "\<not> moves_session op i"
  shows "xs' ! i = xs ! i"
  using assms(1)
proof (cases rule: session_step_cases)
  case idles
  then show ?thesis by simp
qed (use assms(2,3) in \<open>auto simp: nth_append nth_list_update\<close>)

text \<open>One operation of the service, seen from the connection of a request that is being sent.\<close>

lemma session_step_carries:
  fixes s :: "('e, 'm) proxy_sys_scheme" and E :: "('e, 'x) proxy_env_scheme"
  assumes w: "writes_all E" and inv: "sessions_ok (xs, s)"
    and one: "one_owner (owner (map claim xs) s) k"
    and step: "session_step url_Parse E op (xs, s) = Some (xs', s')"
    and i: "i < length xs" and c: "carries c req (xs ! i) evs"
  shows "over (xs' ! i) \<or> (\<exists>evs'. trace s' = trace s @ evs' \<and> carries c req (xs' ! i) (evs @ evs'))"
proof (cases "moves_session op i")
  case False
  obtain a where a: "held (xs ! i) = Some (a, c)" using carries_held [OF c] by blast
  have "\<exists>evs'. trace s' = trace s @ evs' \<and> list_all (spares c) evs'"
  proof (rule session_step_events [OF w inv step])
    show "held (xs ! j) \<noteq> Some (b, c)" if "j < length xs" "moves_session op j" for j b
      using one_owner_sessions(1) [OF one i that(1) _ a, of b c] that(2) False by auto
    show "c \<notin> idle_conn ` set (idle_list b s)" for b
      using one_owner_sessions(2) [OF one i a] by auto
  qed
  with carries_spares [OF c] session_step_other [OF step i False] show ?thesis by auto
next
  case True
  obtain st h where h: "xs ! i = Handling st h" "sending st" using c by (auto simp: carries_def)
  show ?thesis
  proof (cases op)
    case (Advance j)
    with True have j: "j = i" by simp
    with step Advance h i obtain st' h' where hs: "handler_step url_Parse E st h s = Some (st', h', s')"
      and xs': "xs' = xs[i := settle st' h']" by (auto split: option.splits)
    show ?thesis
    proof (cases "sending st'")
      case True
      from carries_step [OF w hs c [unfolded h(1)] this] xs' i show ?thesis by (simp add: settle_sending [OF True])
    next
      case False
      with handler_step_stage [OF hs] h(2) have "st' = Dropping \<or> st' = Handled" by blast
      with xs' i show ?thesis by (simp add: over_settle)
    qed
  next
    case (ReadBody j n)
    with True step h(1) i have "xs' = xs" "s' = s" by auto
    with c show ?thesis by (intro disjI2 exI [of _ "[]"]) simp
  qed (use True in simp)
qed

lemma session_run_carries:
  fixes s :: "('e, 'm) proxy_sys_scheme" and E :: "('e, 'x) proxy_env_scheme"
  assumes w: "writes_all E" and fresh: "fresh_sockets E used"
    and "sessions_ok (xs, s)" and "one_owner (owner (map claim xs) s) (used (ext s))"
    and "session_run url_Parse E ops (xs, s) = Some (xs', s')"
    and "i < length xs" and "over (xs ! i) \<or> (trace s = tr @ evs \<and> carries c req (xs ! i) evs)"
  shows "over (xs' ! i) \<or> (\<exists>evs'. trace s' = tr @ evs' \<and> carries c req (xs' ! i) evs')"
  using assms(3-)
proof (induction ops arbitrary: xs s evs)
  case Nil
  then show ?case by auto
next
  case (Cons op ops)
  note inv = Cons.prems(1) and one = Cons.prems(2) and i = Cons.prems(4)
  from Cons.prems(3) obtain xs1 s1 where step: "session_step url_Parse E op (xs, s) = Some (xs1, s1)"
    and rest: "session_run url_Parse E ops (xs1, s1) = Some (xs', s')"
    by (auto split: option.splits)
  have inv1: "sessions_ok (xs1, s1)" using session_step_ok [OF inv step] by blast
  have one1: "one_owner (owner (map claim xs1) s1) (used (ext s1))"
    by (rule session_run_owner [OF fresh inv one, of url_Parse "[op]"]) (simp add: step)
  have i1: "i < length xs1"
    using step i by (cases rule: session_step_cases) simp_all
  have "over (xs1 ! i) \<or> (\<exists>evs1. trace s1 = tr @ evs1 \<and> carries c req (xs1 ! i) evs1)"
    using Cons.prems(5) session_step_keeps_over [OF step i] session_step_carries [OF w inv one step i]
    by fastforce
  then obtain evs1 where "over (xs1 ! i) \<or> (trace s1 = tr @ evs1 \<and> carries c req (xs1 ! i) evs1)" by blast
  from Cons.IH [OF inv1 one1 rest i1 this] show ?case .
qed

end
