(* ===== verification/Responses.thy ===== *)
theory Responses
  imports Wire ResponseStream
begin

text \<open>
  What clients read while requests are served at the same time: the body of a response
  reaches its client as it was sent, whatever other requests do in between. ResponseStream
  shows it of one request, Wire the same of requests on their way to the upstream.
\<close>

section \<open>Connections that are separate\<close>

text \<open>
  Byte streams as in ResponseStream, each of which belongs to its connection: what
  one connection still delivers does not depend on reading from, writing to or dialling another.
\<close>

definition separate_streams :: "('e, 'x) proxy_env_scheme \<Rightarrow> (net_conn \<Rightarrow> 'e \<Rightarrow> byte list) \<Rightarrow> bool" where
  "separate_streams E pending \<longleftrightarrow>
     byte_streams E pending \<and> header_prefix E pending \<and>
     (\<forall>c d e. socket d \<noteq> socket c \<longrightarrow>
        (\<forall>n. pending c (snd (conn_Read E d n e)) = pending c e) \<and>
        (\<forall>b. pending c (snd (conn_Write E d b e)) = pending c e)) \<and>
     (\<forall>c br e r br' e'. socket (br_src br) \<noteq> socket c \<longrightarrow>
        header_Read E br e = Some (r, br', e') \<longrightarrow> pending c e' = pending c e) \<and>
     (\<forall>c e. (\<forall>f a. pending c (snd (dial_call E f a e)) = pending c e) \<and>
        (\<forall>n. pending c (snd (rand_Intn E n e)) = pending c e) \<and>
        (\<forall>i n. pending c (snd (body_Read E i n e)) = pending c e) \<and>
        (\<forall>n. pending c (snd (pool_Get E n e)) = pending c e))"

lemma separate_streams_bytes: "separate_streams E pending \<Longrightarrow> byte_streams E pending"
  by (simp add: separate_streams_def)

text \<open>An operation on other connections takes nothing from this one: a frame of Frames.\<close>

interpretation others: request_frame E "\<lambda>e f. separate_streams E pending \<longrightarrow> pending c f = pending c e"
  "\<lambda>d. socket d \<noteq> socket c"
  for E :: "('e, 'x) proxy_env_scheme" and pending c
  by unfold_locales (auto simp: separate_streams_def byte_streams_def)

section \<open>The bytes that clients get\<close>

text \<open>The answers of the Reads in a run, with the numbers of their sessions.\<close>

fun session_result ::
  "('e, 'x) proxy_env_scheme \<Rightarrow> session_op
     \<Rightarrow> ('e, 'm) proxy_sys_scheme session list \<times> ('e, 'm) proxy_sys_scheme
     \<Rightarrow> (nat \<times> byte list \<times> go_error option) list" where
  "session_result E (ReadBody i n) (xs, s) =
     (if i < length xs then
        (case xs ! i of Streamed h pr \<Rightarrow> [(i, fst (body_stack_Read E pr n s))] | _ \<Rightarrow> [])
      else [])"
| "session_result E op st = []"

fun session_log ::
  "url_parser \<Rightarrow> ('e, 'x) proxy_env_scheme \<Rightarrow> session_op list
     \<Rightarrow> ('e, 'm) proxy_sys_scheme session list \<times> ('e, 'm) proxy_sys_scheme
     \<Rightarrow> (nat \<times> byte list \<times> go_error option) list" where
  "session_log url_Parse E [] st = []"
| "session_log url_Parse E (op # ops) st =
     session_result E op st @
     (case session_step url_Parse E op st of
        None \<Rightarrow> [] | Some st1 \<Rightarrow> session_log url_Parse E ops st1)"

definition reads_of :: "nat \<Rightarrow> (nat \<times> byte list \<times> go_error option) list \<Rightarrow> (byte list \<times> go_error option) list" where
  "reads_of i log = map snd (filter (\<lambda>x. fst x = i) log)"

lemma reads_of_simps [simp]:
  "reads_of i [] = []" "reads_of i (xs @ ys) = reads_of i xs @ reads_of i ys"
  "reads_of i [(j, x)] = (if j = i then [x] else [])"
  by (simp_all add: reads_of_def)

lemma read_bytes_append [simp]: "read_bytes (xs @ ys) = read_bytes xs @ read_bytes ys"
  by (simp add: read_bytes_def)

text \<open>The server does not read a body any further once a Read has answered with an error or EOF.\<close>

definition server_stops :: "(nat \<times> byte list \<times> go_error option) list \<Rightarrow> bool" where
  "server_stops log \<longleftrightarrow> (\<forall>i. list_all (\<lambda>r. snd r = None) (butlast (reads_of i log)))"

lemma server_stops_before: "server_stops (log @ log') \<Longrightarrow> server_stops log"
  unfolding server_stops_def
  by (metis butlast.simps(1) butlast_append list_all_append list.pred_inject(1) append_butlast_last_id
      append_Nil2 reads_of_simps(2))

lemma server_stops_next:
  "server_stops (log @ [(i, x)]) \<Longrightarrow> reads_of i log \<noteq> [] \<Longrightarrow> snd (last (reads_of i log)) = None"
  unfolding server_stops_def
  by (metis (mono_tags, lifting) butlast_snoc last_in_set list.pred_set reads_of_simps(2,3))

section \<open>Who reads where\<close>

text \<open>
  A body is read through a reader on the connection that its session has, and once that connection
  has been given back there is nothing left to read or the last Read has said so.
\<close>

fun reads_own :: "(byte list \<times> go_error option) list \<Rightarrow> ('e, 'm) proxy_sys_scheme session \<Rightarrow> bool" where
  "reads_own rs (Handling st h) =
     (st = CopyingStatus \<or> st = Streaming \<longrightarrow> br_src (the (h_bufIOReader h)) = the (h_connection h))"
| "reads_own rs (Answered h) = True"
| "reads_own rs (Streamed h pr) =
     (br_src (tr_reader (pr_reader pr)) = pr_connection pr \<and>
      (pr_returned pr \<longrightarrow> pr_remain pr = 0 \<or> rs \<noteq> [] \<and> snd (last rs) \<noteq> None))"

definition reads_apart ::
  "(nat \<times> byte list \<times> go_error option) list \<Rightarrow> ('e, 'm) proxy_sys_scheme session list \<Rightarrow> bool" where
  "reads_apart log xs \<longleftrightarrow> (\<forall>i < length xs. reads_own (reads_of i log) (xs ! i))"

lemma readResponseHeaders_reads:
  fixes s :: "('e, 'm) proxy_sys_scheme" and E :: "('e, 'x) proxy_env_scheme"
  assumes "readResponseHeaders E h s = Some (True, h', s')" and "separate_streams E pending"
  obtains br0 e hdr br where
    "header_Read E br0 e = Some ((None, hdr), br, ext s')" "br_src br0 = the (h_connection h)" "br_buf br0 = []"
    "pending c e = pending c (ext s)" "h_bufIOReader h' = Some br" "h_responseHeader h' = Some hdr"
    "br_src br = the (h_connection h)"
proof -
  have same: "pending c (ext (snd (AcquireBufIOReader E d s))) = pending c (ext s)" for d
    using others.keeps_bufio(2) [of E pending c d s] assms(2) by simp
  from assms(1) show thesis
  proof (cases rule: readResponseHeaders_cases)
    case (1 br0 s0 err hdr br e)
    have clean: "br_src br0 = the (h_connection h)" "br_buf br0 = []"
      using AcquireBufIOReader_clean [of E "the (h_connection h)" s] 1(1) by simp_all
    have rd: "header_Read E br0 (ext s0) = Some ((None, hdr), br, ext s')" using 1(2,3,8) by simp
    have "header_prefix E pending" using assms(2) by (simp add: separate_streams_def)
    note src = header_prefixD(1) [OF this rd]
    with src that [OF rd clean _ 1(4,5)] clean(1) same [of "the (h_connection h)"] 1(1) show thesis by simp
  qed
qed

lemma body_Read_src:
  assumes "body_stack_Read E pr n s = ((b, err), pr', s')"
  shows "br_src (tr_reader (pr_reader pr')) = br_src (tr_reader (pr_reader pr))"
    "pr_connection pr' = pr_connection pr" "pr_returned pr \<Longrightarrow> pr_returned pr'"
    "pr_returned pr' \<Longrightarrow> \<not> pr_returned pr \<Longrightarrow> pr_remain pr' = 0 \<or> err \<noteq> None"
    "pr_remain pr = 0 \<Longrightarrow> pr_remain pr' = 0"
proof -
  have "br_src (tr_reader (pr_reader pr')) = br_src (tr_reader (pr_reader pr)) \<and>
    pr_connection pr' = pr_connection pr \<and> (pr_returned pr \<longrightarrow> pr_returned pr') \<and>
    (pr_returned pr' \<and> \<not> pr_returned pr \<longrightarrow> pr_remain pr' = 0 \<or> err \<noteq> None) \<and>
    (pr_remain pr = 0 \<longrightarrow> pr_remain pr' = 0)"
  proof (cases "pr_remain pr = 0")
    case True
    with assms show ?thesis by (auto simp: pool_Read_exhausted)
  next
    case False
    obtain b1 err1 r s1 where
      rd: "timed_Read E (bufio_Read E) (pr_reader pr) (limited pr n) s = ((b1, err1), r, s1)"
      by (metis prod.exhaust)
    have src: "br_src (tr_reader r) = br_src (tr_reader (pr_reader pr))"
      using rd by (auto simp: timed_Read_eq bufio_Read_def Let_def split_beta timed_start_def split: if_splits)
    from pool_Read_eq [where E = E and rd = "timed_Read E (bufio_Read E)" and pr = pr, OF False rd] assms
    have pr': "b = b1" "err = err1"
      "pr' = (if gives_up pr b err then (after_read pr b r)\<lparr>pr_returned := True\<rparr> else after_read pr b r)"
      by simp_all
    have "pr_remain pr' = 0 \<or> err \<noteq> None" if "gives_up pr b err"
      using that body_Read_limit [OF assms] pr'(3)
      by (auto simp: gives_up_def after_read_def split: if_splits)
    with pr' src False show ?thesis by (auto simp: after_read_def split: if_splits)
  qed
  then show "br_src (tr_reader (pr_reader pr')) = br_src (tr_reader (pr_reader pr))"
    "pr_connection pr' = pr_connection pr" "pr_returned pr \<Longrightarrow> pr_returned pr'"
    "pr_returned pr' \<Longrightarrow> \<not> pr_returned pr \<Longrightarrow> pr_remain pr' = 0 \<or> err \<noteq> None"
    "pr_remain pr = 0 \<Longrightarrow> pr_remain pr' = 0" by blast+
qed

lemma streaming_reader:
  assumes "task_ok Streaming h"
  obtains c br hdr where "h_connection h = Some c" "h_bufIOReader h = Some br" "h_responseHeader h = Some hdr"
    "settle Handled (streamResponseBody h) =
       Streamed (streamResponseBody h) (response_stream (h_upstreamAddress h) c br hdr)"
    "h_responseHeader (streamResponseBody h) = Some hdr"
proof -
  from assms obtain c br hdr where "h_connection h = Some c" "h_bufIOReader h = Some br"
    "h_responseHeader h = Some hdr" "body_streams h = []" by (auto simp: task_ok_def)
  then show thesis
    using that [of c br hdr] by (simp add: streamResponseBody_def response_stream_def Let_def settle_def)
qed

text \<open>A handler step leads to a session that reads from its own connection.\<close>

lemma handler_step_own:
  fixes s :: "('e, 'm) proxy_sys_scheme" and E :: "('e, 'x) proxy_env_scheme"
  assumes sep: "separate_streams E pending" and ok: "session_ok (Handling st h)"
    and step: "handler_step url_Parse E st h s = Some (st', h', s')"
    and own: "reads_own rs (Handling st h)"
  shows "reads_own rs' (settle st' h')"
proof (cases "st' = Handled")
  case True
  show ?thesis
  proof (cases "body_streams h' = []")
    case True
    with \<open>st' = Handled\<close> show ?thesis by (simp add: settle_def)
  next
    case False
    from ok have task: "task_ok st h" "st \<noteq> Handled" by simp_all
    have "st = Streaming"
    proof (cases "calm st")
      case True
      from calm_step(6) [OF step True task(1)] False show ?thesis by simp
    next
      case noisy: False
      have "st \<noteq> Acquiring"
      proof
        assume eq: "st = Acquiring"
        from acquiring_step [OF step [unfolded eq] task(1) [unfolded eq]] show False
          using False \<open>st' = Handled\<close> by cases simp_all
      qed
      moreover have "st \<noteq> Dropping" using step task False by (auto simp: task_ok_def)
      ultimately show ?thesis using noisy task(2) by (cases st) simp_all
    qed
    with task obtain c br hdr where h: "h_connection h = Some c" "h_bufIOReader h = Some br"
      and "settle Handled (streamResponseBody h) =
        Streamed (streamResponseBody h) (response_stream (h_upstreamAddress h) c br hdr)"
      using streaming_reader [of h] by metis
    with own step \<open>st = Streaming\<close> show ?thesis
      by (simp add: response_stream_def NewPoolReader_def NewTimedReader_def)
  qed
next
  case False
  then have settled: "settle st' h' = Handling st' h'" by (simp add: settle_def)
  show ?thesis
  proof (cases "st' = CopyingStatus \<or> st' = Streaming")
    case True
    with step consider "st = ReadingHeaders" "readResponseHeaders E h s = Some (True, h', s')"
      | "st = CopyingStatus" "copyResponseStatus h s = (h', s')"
      by (cases st) (auto split: prod.splits option.splits if_splits)
    then show ?thesis
    proof cases
      case 1
      from readResponseHeaders_reads [OF 1(2) sep] obtain br where "h_bufIOReader h' = Some br"
        "br_src br = the (h_connection h)" by metis
      with readResponseHeaders_step(1) [OF 1(2)] settled show ?thesis by (simp add: same_request_def)
    next
      case 2
      from copyResponseStatus_frame(1,4) [OF 2(2)] own 2(1) settled show ?thesis
        by (simp add: same_request_def)
    qed
  qed (simp add: settled)
qed

lemma session_step_own:
  fixes s :: "('e, 'm) proxy_sys_scheme" and E :: "('e, 'x) proxy_env_scheme"
  assumes sep: "separate_streams E pending" and inv: "sessions_ok (xs, s)" and own: "reads_apart log xs"
    and step: "session_step url_Parse E op (xs, s) = Some (xs', s')"
    and stops: "server_stops (log @ session_result E op (xs, s))"
  shows "reads_apart (log @ session_result E op (xs, s)) xs'"
  using step
proof (cases rule: session_step_cases)
  case (arrives req)
  with own show ?thesis by (auto simp: reads_apart_def nth_append)
next
  case (advances i st h st' h')
  from sessions_okD(2) [OF inv advances(2)] advances(3) have "session_ok (Handling st h)" by simp
  moreover have "reads_own (reads_of i log) (Handling st h)" using own advances(2,3) by (metis reads_apart_def)
  ultimately have "reads_own rs' (settle st' h')" for rs'
    using handler_step_own [OF sep _ advances(4)] by blast
  with own advances show ?thesis by (auto simp: reads_apart_def nth_list_update)
next
  case (reads i n h pr b err pr')
  have res: "session_result E op (xs, s) = [(i, b, err)]" using reads by simp
  have "reads_own (reads_of i log) (Streamed h pr)" using own reads(2,3) by (metis reads_apart_def)
  with body_Read_src [OF reads(4)] server_stops_next [OF stops [unfolded res]]
  have "reads_own (reads_of i log @ [(b, err)]) (Streamed h pr')" by (auto simp del: not_None_eq)
  with own reads res show ?thesis by (auto simp: reads_apart_def nth_list_update)
next
  case idles
  have "session_result E op (xs, s) = []"
    using idles(4) by (cases op) (auto split: session.split)
  with idles own show ?thesis by simp
qed

text \<open>A step of the service takes no bytes from the connection of a session that does not move.\<close>

lemma session_step_takes_nothing:
  fixes s :: "('e, 'm) proxy_sys_scheme" and E :: "('e, 'x) proxy_env_scheme"
  assumes sep: "separate_streams E pending" and inv: "sessions_ok (xs, s)" and own: "reads_apart log xs"
    and step: "session_step url_Parse E op (xs, s) = Some (xs', s')"
    and stops: "server_stops (log @ session_result E op (xs, s))"
    and other: "\<And>j a d. j < length xs \<Longrightarrow> moves_session op j \<Longrightarrow> held (xs ! j) = Some (a, d) \<Longrightarrow>
      socket d \<noteq> socket c"
  shows "pending c (ext s') = pending c (ext s)"
  using step
proof (cases rule: session_step_cases)
  case (advances i st h st' h')
  have "socket (the (h_connection h)) \<noteq> socket c" if "holding st"
    using other [of i] that advances(1-3) by simp
  from others.keeps_handler_step [OF advances(4) this] sep show ?thesis by blast
next
  case (reads i n h pr b err pr')
  have rel: "releases_reader pr" using sessions_okD(2) [OF inv reads(2)] reads(3) by simp
  have mine: "reads_own (reads_of i log) (Streamed h pr)" using own reads(2,3) by (metis reads_apart_def)
  have "session_result E op (xs, s) = [(i, b, err)]" using reads by simp
  note next_read = server_stops_next [OF stops [unfolded this]]
  have "pr_remain pr = 0 \<or> socket (br_src (tr_reader (pr_reader pr))) \<noteq> socket c"
  proof (cases "pr_returned pr")
    case True
    with mine next_read show ?thesis by auto
  next
    case False
    with other [of i] mine reads(1-3) show ?thesis by simp
  qed
  from others.keeps_body_Read [OF reads(4) rel this] sep show ?thesis by blast
qed simp_all

section \<open>One response among many\<close>

text \<open>
  The header of the response as fasthttp read it, with a clean reader on the connection, when \<open>bs\<close> was still to come
  from it; \<open>body\<close> is what the header left.
\<close>

definition header_left ::
  "('e, 'x) proxy_env_scheme \<Rightarrow> (net_conn \<Rightarrow> 'e \<Rightarrow> byte list) \<Rightarrow> net_conn \<Rightarrow> byte list
     \<Rightarrow> response_header \<Rightarrow> byte list \<Rightarrow> bool" where
  "header_left E pending c bs hdr body \<longleftrightarrow>
     (\<exists>br0 e br e'. header_Read E br0 e = Some ((None, hdr), br, e') \<and> br_src br0 = c \<and> br_buf br0 = [] \<and>
        pending c e = bs \<and> body = br_buf br @ pending c e')"

text \<open>
  How far a response is: \<open>bs\<close> is what the connection had to deliver before, \<open>rs\<close> are the
  Reads of the client.
\<close>

fun delivers ::
  "('e, 'x) proxy_env_scheme \<Rightarrow> (net_conn \<Rightarrow> 'e \<Rightarrow> byte list) \<Rightarrow> net_conn \<Rightarrow> byte list
     \<Rightarrow> ('e, 'm) proxy_sys_scheme session \<Rightarrow> (byte list \<times> go_error option) list
     \<Rightarrow> ('e, 'm) proxy_sys_scheme \<Rightarrow> bool" where
  "delivers E pending c bs (Handling st h) rs s =
     (rs = [] \<and> h_connection h = Some c \<and>
      (if st = ReadingHeaders then pending c (ext s) = bs
       else if st = CopyingStatus \<or> st = Streaming
       then \<exists>br hdr. h_bufIOReader h = Some br \<and> h_responseHeader h = Some hdr \<and> br_src br = c \<and>
          header_left E pending c bs hdr (unread pending br s)
       else st = Dropping))"
| "delivers E pending c bs (Answered h) rs s = (rs = [])"
| "delivers E pending c bs (Streamed h pr) rs s =
     (\<exists>hdr rest. h_responseHeader h = Some hdr \<and> pr_connection pr = c \<and> quiet_cleanup pr \<and>
        header_left E pending c bs hdr (read_bytes rs @ rest) \<and>
        (\<not> pr_returned pr \<longrightarrow> rest = unread pending (tr_reader (pr_reader pr)) s) \<and>
        (0 \<le> rh_ContentLength hdr \<longrightarrow> 0 \<le> pr_remain pr \<and>
           pr_remain pr + int (length (read_bytes rs)) = rh_ContentLength hdr))"

text \<open>Steps that take nothing from the connection change nothing of it.\<close>

lemma delivers_keeps:
  assumes "delivers E pending c bs x rs s" and "reads_own rs' x"
    and "\<And>a d. held x = Some (a, d) \<Longrightarrow> pending d (ext s') = pending d (ext s)"
  shows "delivers E pending c bs x rs s'"
proof (cases x)
  case (Handling st h)
  from assms(1) Handling have c: "h_connection h = Some c" by simp
  have same: "pending c (ext s') = pending c (ext s)" if "holding st"
    using that assms(3) [of "h_upstreamAddress h" c] c Handling by simp
  then have left: "unread pending br s' = unread pending br s" if "holding st" "br_src br = c" for br
    using that by (simp add: unread_def)
  from assms(1) show ?thesis
    unfolding Handling by (cases st) (auto simp: left same)
next
  case (Answered h)
  with assms show ?thesis by simp
next
  case (Streamed h pr)
  have "unread pending (tr_reader (pr_reader pr)) s' = unread pending (tr_reader (pr_reader pr)) s"
    if "\<not> pr_returned pr"
    using that assms(2) assms(3) [of "pr_upstreamAddr pr" "pr_connection pr"]
    unfolding Streamed by (simp add: unread_def)
  with assms(1) Streamed show ?thesis by auto
qed

text \<open>The goroutine of the session itself: it reads the header and hands the body on.\<close>

lemma delivers_handler_step:
  fixes s :: "('e, 'm) proxy_sys_scheme" and E :: "('e, 'x) proxy_env_scheme"
  assumes sep: "separate_streams E pending" and ok: "session_ok (Handling st h)"
    and step: "handler_step url_Parse E st h s = Some (st', h', s')"
    and before: "delivers E pending c bs (Handling st h) rs s"
  shows "delivers E pending c bs (settle st' h') rs s'"
proof -
  from before have h: "rs = []" "h_connection h = Some c" by simp_all
  from before consider "st = ReadingHeaders" | "st = CopyingStatus" | "st = Streaming" | "st = Dropping"
    by (auto split: if_splits)
  then show ?thesis
  proof cases
    case 1
    with step obtain passed where rd: "readResponseHeaders E h s = Some (passed, h', s')"
      and st': "st' = (if passed then CopyingStatus else Dropping)" by (auto split: option.splits)
    from readResponseHeaders_step(1) [OF rd] h have h': "h_connection h' = Some c" by (simp add: same_request_def)
    show ?thesis
    proof (cases passed)
      case False
      with st' h h' show ?thesis by (simp add: settle_def)
    next
      case True
      with rd have "readResponseHeaders E h s = Some (True, h', s')" by simp
      from readResponseHeaders_reads [OF this sep, of c] obtain br0 e hdr br where
        head: "header_Read E br0 e = Some ((None, hdr), br, ext s')" "br_src br0 = c" "br_buf br0 = []"
          "pending c e = pending c (ext s)" "h_bufIOReader h' = Some br" "h_responseHeader h' = Some hdr"
          "br_src br = c" using h(2) by (metis option.sel)
      have "pending c (ext s) = bs" using before 1 by simp
      with head have "header_left E pending c bs hdr (unread pending br s')"
        unfolding header_left_def unread_def by metis
      with True st' h h' head show ?thesis by (simp add: settle_def)
    qed
  next
    case 2
    with step have cp: "copyResponseStatus h s = (h', s')" "st' = Streaming" by (auto split: prod.splits)
    have "ext s' = ext s" using cp(1) by (auto simp: copyResponseStatus_def count_metric_def split: option.splits if_splits)
    with before 2 cp(2) copyResponseStatus_frame(1,4,5) [OF cp(1)] show ?thesis
      by (auto simp: settle_def same_request_def unread_def)
  next
    case 3
    from ok 3 have "task_ok Streaming h" by simp
    from streaming_reader [OF this] obtain br hdr where str: "h_bufIOReader h = Some br" "h_responseHeader h = Some hdr"
      "settle Handled (streamResponseBody h) =
         Streamed (streamResponseBody h) (response_stream (h_upstreamAddress h) c br hdr)"
      "h_responseHeader (streamResponseBody h) = Some hdr" using h(2) by (metis option.sel)
    have "quiet_cleanup (response_stream (h_upstreamAddress h) c br hdr)"
      by (simp add: quiet_cleanup_def response_stream_def NewPoolReader_def ReleaseBufIOReader_def gauge_defs)
    with 3 step before str h show ?thesis
      by (auto simp: response_stream_def NewPoolReader_def NewTimedReader_def)
  next
    case 4
    from ok 4 step have "settle st' h' = Answered h'" by (auto simp: settle_streams task_ok_def)
    with h show ?thesis by simp
  qed
qed

text \<open>A Read of the client.\<close>

lemma delivers_Read:
  fixes s :: "('e, 'm) proxy_sys_scheme" and E :: "('e, 'x) proxy_env_scheme"
  assumes sep: "separate_streams E pending" and rd: "body_stack_Read E pr n s = ((b, err), pr', s')"
    and going: "pr_returned pr \<Longrightarrow> pr_remain pr = 0"
    and before: "delivers E pending c bs (Streamed h pr) rs s"
  shows "delivers E pending c bs (Streamed h pr') (rs @ [(b, err)]) s'"
proof -
  from before obtain hdr rest where hdr: "h_responseHeader h = Some hdr" "pr_connection pr = c"
    and quiet: "quiet_cleanup pr" and left: "header_left E pending c bs hdr (read_bytes rs @ rest)"
    and rest: "\<not> pr_returned pr \<Longrightarrow> rest = unread pending (tr_reader (pr_reader pr)) s"
    and len: "0 \<le> rh_ContentLength hdr \<Longrightarrow> 0 \<le> pr_remain pr \<and>
      pr_remain pr + int (length (read_bytes rs)) = rh_ContentLength hdr" by auto
  note src = body_Read_src [OF rd]
  note stream = body_stack_Read_stream [OF separate_streams_bytes [OF sep] quiet rd]
  have len': "0 \<le> pr_remain pr' \<and>
      pr_remain pr' + int (length (read_bytes (rs @ [(b, err)]))) = rh_ContentLength hdr"
    if "0 \<le> rh_ContentLength hdr"
    using body_Read_limit [OF rd] len [OF that] by simp
  show ?thesis
  proof (cases "pr_returned pr")
    case True
    with going rd have "b = []" "pr' = pr" by (auto simp: pool_Read_exhausted)
    with hdr quiet left len' True show ?thesis by auto
  next
    case False
    from rest [OF this] stream(1) left have
      "header_left E pending c bs hdr
         (read_bytes (rs @ [(b, err)]) @ unread pending (tr_reader (pr_reader pr')) s')" by simp
    with hdr src(2) stream(2) len' show ?thesis by auto
  qed
qed

lemma session_step_delivers:
  fixes s :: "('e, 'm) proxy_sys_scheme" and E :: "('e, 'x) proxy_env_scheme"
  assumes sep: "separate_streams E pending" and inv: "sessions_ok (xs, s)"
    and one: "one_owner (owner (map claim xs) s) k" and own: "reads_apart log xs"
    and step: "session_step url_Parse E op (xs, s) = Some (xs', s')"
    and stops: "server_stops (log @ session_result E op (xs, s))"
    and i: "i < length xs" and before: "delivers E pending c bs (xs ! i) rs s"
  shows "delivers E pending c bs (xs' ! i) (rs @ reads_of i (session_result E op (xs, s))) s'"
proof (cases "moves_session op i")
  case False
  have keeps: "pending d (ext s') = pending d (ext s)" if a: "held (xs ! i) = Some (a, d)" for a d
  proof (rule session_step_takes_nothing [OF sep inv own step stops])
    show "socket d' \<noteq> socket d" if "j < length xs" "moves_session op j" "held (xs ! j) = Some (b, d')" for j b d'
    proof -
      have "j \<noteq> i" using that(2) False by auto
      then show ?thesis by (rule one_owner_sessions(1) [OF one that(1) i _ that(3) a])
    qed
  qed
  have "reads_own (reads_of i log) (xs ! i)" using own i by (simp add: reads_apart_def)
  from delivers_keeps [OF before this keeps] session_step_other [OF step i False]
  have "delivers E pending c bs (xs' ! i) rs s'" by simp
  moreover have "reads_of i (session_result E op (xs, s)) = []"
    using False by (cases op) (simp_all split: session.split)
  ultimately show ?thesis by simp
next
  case True
  show ?thesis
    using step
  proof (cases rule: session_step_cases)
    case (arrives req)
    with True show ?thesis by simp
  next
    case (advances j st h st' h')
    with True have j: "j = i" by simp
    have "session_ok (Handling st h)" using sessions_okD(2) [OF inv i] advances(3) j by simp
    moreover have "delivers E pending c bs (Handling st h) rs s" using before advances(3) j by metis
    ultimately have "delivers E pending c bs (settle st' h') rs s'"
      by (rule delivers_handler_step [OF sep _ advances(4)])
    with advances(1,5) i show ?thesis by (simp add: j)
  next
    case (reads j n h pr b err pr')
    with True have j: "j = i" by simp
    have res: "session_result E op (xs, s) = [(i, b, err)]" using reads j by simp
    have "reads_own (reads_of i log) (Streamed h pr)" using own i reads(3) j by (metis reads_apart_def)
    with server_stops_next [OF stops [unfolded res]] have "pr_returned pr \<Longrightarrow> pr_remain pr = 0" by auto
    from delivers_Read [OF sep reads(4) this] before reads(3,5) i j res show ?thesis by simp
  next
    case idles
    have "session_result E op (xs, s) = []"
      using idles(4) by (cases op) (auto split: session.split)
    with idles before show ?thesis by simp
  qed
qed

text \<open>A run.\<close>

lemma session_run_own:
  fixes s :: "('e, 'm) proxy_sys_scheme" and E :: "('e, 'x) proxy_env_scheme"
  assumes sep: "separate_streams E pending" and "sessions_ok (xs, s)" and "reads_apart log xs"
    and "session_run url_Parse E ops (xs, s) = Some (xs', s')"
    and "server_stops (log @ session_log url_Parse E ops (xs, s))"
  shows "reads_apart (log @ session_log url_Parse E ops (xs, s)) xs'"
  using assms(2-)
proof (induction ops arbitrary: xs s log)
  case Nil
  then show ?case by simp
next
  case (Cons op ops)
  from Cons.prems(3) obtain xs1 s1 where step: "session_step url_Parse E op (xs, s) = Some (xs1, s1)"
    and rest: "session_run url_Parse E ops (xs1, s1) = Some (xs', s')" by (auto split: option.splits)
  let ?log1 = "log @ session_result E op (xs, s)"
  have stops: "server_stops (?log1 @ session_log url_Parse E ops (xs1, s1))"
    using Cons.prems(4) step by simp
  have ok: "sessions_ok (xs1, s1)" using session_step_ok [OF Cons.prems(1) step] by blast
  from session_step_own [OF sep Cons.prems(1,2) step server_stops_before [OF stops]]
  have "reads_apart ?log1 xs1" .
  from Cons.IH [OF ok this rest stops] step show ?case by simp
qed

lemma session_run_delivers:
  fixes s :: "('e, 'm) proxy_sys_scheme" and E :: "('e, 'x) proxy_env_scheme"
  assumes sep: "separate_streams E pending" and fresh: "fresh_sockets E used"
    and "sessions_ok (xs, s)" and "one_owner (owner (map claim xs) s) (used (ext s))" and "reads_apart log xs"
    and "session_run url_Parse E ops (xs, s) = Some (xs', s')"
    and "server_stops (log @ session_log url_Parse E ops (xs, s))"
    and "i < length xs" and "delivers E pending c bs (xs ! i) rs s"
  shows "delivers E pending c bs (xs' ! i) (rs @ reads_of i (session_log url_Parse E ops (xs, s))) s'"
  using assms(3-)
proof (induction ops arbitrary: xs s log rs)
  case Nil
  then show ?case by simp
next
  case (Cons op ops)
  note inv = Cons.prems(1) and one = Cons.prems(2) and own = Cons.prems(3)
  from Cons.prems(4) obtain xs1 s1 where step: "session_step url_Parse E op (xs, s) = Some (xs1, s1)"
    and rest: "session_run url_Parse E ops (xs1, s1) = Some (xs', s')" by (auto split: option.splits)
  let ?res = "session_result E op (xs, s)"
  have stops: "server_stops ((log @ ?res) @ session_log url_Parse E ops (xs1, s1))"
    using Cons.prems(5) step by simp
  note stop1 = server_stops_before [OF stops]
  have ok: "sessions_ok (xs1, s1)" using session_step_ok [OF inv step] by blast
  have one1: "one_owner (owner (map claim xs1) s1) (used (ext s1))"
    by (rule session_run_owner [OF fresh inv one, of url_Parse "[op]"]) (simp add: step)
  have own1: "reads_apart (log @ ?res) xs1" by (rule session_step_own [OF sep inv own step stop1])
  have i1: "i < length xs1" using step Cons.prems(6) by (cases rule: session_step_cases) simp_all
  have "delivers E pending c bs (xs1 ! i) (rs @ reads_of i ?res) s1"
    by (rule session_step_delivers [OF sep inv one own step stop1 Cons.prems(6,7)])
  from Cons.IH [OF ok one1 own1 rest stops i1 this] step show ?case by simp
qed

section \<open>A network of separate lines\<close>

text \<open>
  Every socket has bytes of its own. The header reader takes one byte as the header and
  has read all the others ahead.
\<close>

type_synonym lines = "nat \<times> (nat \<Rightarrow> byte list)"

definition line_of :: "net_conn \<Rightarrow> lines \<Rightarrow> byte list" where
  "line_of c e = snd e (socket c)"

definition lines_env :: "lines proxy_env" where
  "lines_env =
     \<lparr>time_Now = (\<lambda>e. (0, e)), rand_Intn = (\<lambda>n e. (0, e)),
      dial_call = (\<lambda>f a e. (Inr (fst e), (Suc (fst e), snd e))),
      conn_Close = (\<lambda>c e. (None, e)), conn_Write = (\<lambda>c b e. ((int (length b), None), e)),
      conn_Read = (\<lambda>c n e.
        ((take n (line_of c e), if line_of c e = [] then Some EOF else None),
         (fst e, (snd e)(socket c := drop n (line_of c e))))),
      body_Read = (\<lambda>i n e. (([], Some EOF), e)), pool_Get = (\<lambda>n e. (None, e)),
      header_Read = (\<lambda>br e. Some
        ((None, sample_header 200 2),
         br\<lparr>br_buf := drop 1 (br_buf br @ line_of (br_src br) e)\<rparr>,
         (fst e, (snd e)(socket (br_src br) := []))))\<rparr>"

lemma lines_env_sel [simp]:
  "time_Now lines_env e = (0, e)" "rand_Intn lines_env n e = (0, e)"
  "dial_call lines_env f a e = (Inr (fst e), (Suc (fst e), snd e))"
  "conn_Close lines_env c e = (None, e)" "conn_Write lines_env c b e = ((int (length b), None), e)"
  "conn_Read lines_env c n e =
     ((take n (line_of c e), if line_of c e = [] then Some EOF else None),
      (fst e, (snd e)(socket c := drop n (line_of c e))))"
  "body_Read lines_env i n e = (([], Some EOF), e)" "pool_Get lines_env n e = (None, e)"
  "header_Read lines_env br e = Some
     ((None, sample_header 200 2), br\<lparr>br_buf := drop 1 (br_buf br @ line_of (br_src br) e)\<rparr>,
      (fst e, (snd e)(socket (br_src br) := [])))"
  by (simp_all add: lines_env_def)

lemma lines_separate: "separate_streams lines_env line_of"
proof -
  have "\<exists>hb. xs @ ys = hb @ drop (Suc 0) xs @ drop (Suc 0 - length xs) ys" for xs ys :: "byte list"
    by (metis append_take_drop_id drop_append)
  then show ?thesis
    by (auto simp: separate_streams_def byte_streams_def header_prefix_def line_of_def)
qed

lemma lines_fresh: "fresh_sockets lines_env fst"
  by (simp add: fresh_sockets_def new_sockets_def)

lemma lines_write: "writes_all lines_env"
  by (simp add: writes_all_def)

end
