(* ===== verification/Spec2Isabelle.thy ===== *)
theory Spec2Isabelle
  imports Metrics Environment Config Flags Dial ConnPool PoolConcurrency BufioPool Readers
    Upstream Handler Proxy Startup Service
    Interleaving Sockets PoolSteps ResponseStream UpstreamRace
    Frames HandlerSteps Sessions Wire Responses
begin

text \<open>
  fasthttpproxy: a streaming HTTP reverse proxy on fasthttp. \<open>cmd/proxy/main.go\<close> parses the
  flags, sets the pools up and serves every request with the handler of
  \<open>internal/proxy/handler.go\<close>; the handler picks an upstream (\<open>internal/upstream\<close>), takes a
  connection to it from a pool (\<open>internal/pool\<close>), forwards the request through a pooled
  bufio.Writer and \<open>PipeCopy\<close>, reads the header of the response and hands the body to the server as a
  \<open>PoolReader\<close> (\<open>internal/readers\<close>), which gives the connection back while the client reads.

  Theories, in the order they build on each other:

  \<^item> \<open>Prelude\<close>: bytes, int32, and the functions of package strings that the code calls.
  \<^item> \<open>Metrics\<close> (internal/metrics): the collectors, their names and buckets.
  \<^item> \<open>Environment\<close>: the outside world. A record \<open>env\<close> of functions on a state of any type
    (clock, dial, connection Read, Write and Close, request bodies, random numbers, what a sync.Pool
    answers); \<open>sys\<close> adds the trace of calls made and the metrics.
  \<^item> \<open>Config\<close>, \<open>Flags\<close> (internal/config): the upstream list; the flags and their parsing.
  \<^item> \<open>Dial\<close>, \<open>ConnPool\<close> (dial.go, pool.go, upstream_pool.go): dialling and the connection pools,
    one operation at a time; \<open>pool_wf\<close> is the invariant of the pools, \<open>in_use\<close>, \<open>slots\<close> and
    \<open>idle_list\<close> what is observed of them. \<open>slot_pool\<close> is the contract of a pool towards its clients.
  \<^item> \<open>PoolConcurrency\<close>: the same operations cut at their atomic actions, interleaved by any
    number of goroutines; \<open>pool_invariant\<close> is the locale of the invariants of its steps.
  \<^item> \<open>BufioPool\<close> (bufio_pool.go): pooled readers and writers, \<open>PipeCopy\<close>, the gauges.
  \<^item> \<open>Readers\<close> (internal/readers): \<open>PoolReader\<close> and \<open>TimedReader\<close>; \<open>body_reader\<close> is the
    contract of what a PoolReader wraps.
  \<^item> \<open>Upstream\<close> (internal/upstream): the set of upstreams, addresses, the TLS configuration.
  \<^item> \<open>Handler\<close> (internal/proxy): the steps of a request and \<open>handle\<close>, which composes them;
    \<open>request_step\<close> is the contract of the steps that talk to the upstream.
  \<^item> \<open>Proxy\<close>: what is forwarded, that requests return, the connection after the response,
    sequences of exchanges.
  \<^item> \<open>PoolSteps\<close>: an operation of \<open>ConnPool\<close> is a run of the actions of \<open>PoolConcurrency\<close>.
  \<^item> \<open>ResponseStream\<close>: where the bytes of a response go. A client reads what the upstream sent, with
    the bytes that were read ahead with the header first; \<open>byte_source\<close> is the locale of the operations that
    consume such a stream, interpreted on the connection, the bufio.Reader and the body.
  \<^item> \<open>Startup\<close> (cmd/proxy): \<open>main\<close>, \<open>run\<close>, \<open>runWith\<close>, the TLS configuration of the server.
  \<^item> \<open>Service\<close>: a started proxy that serves a sequence of exchanges.
  \<^item> \<open>Interleaving\<close>: \<open>proxy_run\<close> serves requests and lets clients read the bodies of responses in any
    order; \<open>accounted\<close> is its invariant, the connections in use are those of open bodies.
  \<^item> \<open>Frames\<close>: what an operation does to the outside world; \<open>call_frame\<close> and \<open>request_frame\<close> are the
    locales of the relations that every call respects, but for reading from and writing to other connections,
    interpreted in Sockets and Responses.
  \<^item> \<open>Sockets\<close>: \<open>one_owner\<close>, over \<open>proxy_run\<close>: no socket is in two places, for all
    upstreams and open responses together.
  \<^item> \<open>UpstreamRace\<close>: \<open>resolveUpstream\<close> with \<open>Random\<close> and \<open>Append\<close> cut at their accesses to the
    shared map and slice; \<open>shared_invariant\<close> is the locale of the invariants of its runs.
  \<^item> \<open>HandlerSteps\<close>: \<open>handle\<close> cut at its calls; \<open>stage\<close> is the call a goroutine is about to make,
    \<open>handler_step\<close> makes it.
  \<^item> \<open>Sessions\<close>: requests in service at the same time. \<open>session_run\<close> interleaves the arrival of requests, the steps of
    their handlers and the Reads of their bodies; \<open>sessions_ok\<close> is its invariant, and a session counts as the
    body stream \<open>claim\<close>, so that \<open>accounted\<close> and \<open>one_owner\<close> carry over.
  \<^item> \<open>Wire\<close>: which connections a step of a session writes to or closes; \<open>carries\<close> follows the connection of one
    request through a run of all.
  \<^item> \<open>Responses\<close>: whose bytes a step takes; \<open>delivers\<close> follows one response through a run of all,
    \<open>session_log\<close> is what the clients have read.
  \<^item> This theory: properties of a started proxy.

  How the code corresponds. A package variable is a field of the state record of its package;
  the records extend each other (\<open>sys\<close>, \<open>dial_sys\<close>, \<open>pool_sys\<close>, \<open>bufio_sys\<close>, \<open>proxy_sys\<close>), and an
  operation takes the environment and the state and answers with its results and the state.
  Functions keep their names. A Go error is a value of \<open>go_error\<close>, a pair of value and error
  a sum; \<open>log.Fatal\<close> is a left value. The counters of the connection pools are 32-bit
  words, as in the code; the int and int64 values that only configuration or the number of live
  requests can move are \<open>int\<close>. Loops that need not end (\<open>PipeCopy\<close>, bufio's Write) are partial functions to
  \<open>option\<close>, \<open>None\<close> meaning that they never return, with theorems that say when they return; no fuel
  is used anywhere.

  What the lemmas show. The pools never exceed the limit and lose no connection, on every
  path of a request and over any sequence of requests (\<open>pool_within_limit\<close>,
  \<open>request_accounts_connection\<close>, \<open>response_returns_connection\<close>, \<open>proxy_respects_limit\<close>), with the
  exceptions that the code has and that are stated as such (empty responses, clients that go
  away, concurrent dials), and so with any number of requests in service at the same time
  (\<open>sessions_respect_limit\<close>). A request is forwarded byte by byte and always answered
  (\<open>request_forwarded\<close>, \<open>request_returns\<close>, \<open>response_status\<close>). Under concurrency every connection has one owner
  (\<open>connection_exclusive\<close>) and nobody is stuck (\<open>pool_progress\<close>); two requests never share one
  (\<open>sessions_share_nothing\<close>, \<open>connections_not_shared\<close>) and do not mix on the wire
  (\<open>concurrent_requests_forwarded\<close>), every one of them comes to its end (\<open>requests_finish\<close>), one that
  runs alone is \<open>handle\<close> (\<open>session_alone_is_serve\<close>), and a client reads the bytes that its upstream sent (\<open>response_forwarded\<close>), also when responses are
  streamed at the same time (\<open>concurrent_responses_delivered\<close>).
  Configured upstreams are the only ones used and are safe under concurrency
  (\<open>configured_upstreams_only\<close>, \<open>configured_upstreams_race_free\<close>); without them the set of
  upstreams is written without a lock (\<open>append_races\<close>). Configuration is read as documented and
  installed (\<open>parse_upstreams_result\<close>, \<open>startup_installs_settings\<close>).

  Parameters. \<open>net/url.Parse\<close>, \<open>time.ParseDuration\<close>, fasthttp's \<open>ResponseHeader.Read\<close> and the bytes of a
  request header, the dial functions, the network, the clock, \<open>math/rand\<close>, the loading of files and key pairs,
  the end of \<open>ListenAndServe\<close>.
  Hypotheses on them are named: \<open>writes_all\<close> (io.Writer: a write that takes less than everything
  reports an error), \<open>rand_in_range\<close> (\<open>Intn(n)\<close> is below n), \<open>fresh_sockets\<close> (a dialled connection is a new one),
  \<open>byte_streams\<close> (a Read hands out the next bytes of its connection), \<open>separate_streams\<close> (they do not depend on other
  connections), \<open>header_prefix\<close> (ResponseHeader.Read consumes a prefix of them), \<open>server_stops\<close> (the server reads no
  body further after an error or EOF).

  Not modelled. Logging; the HTTP server itself, the handler of its metrics endpoint and \<open>cmd/http\<close> (an empty
  main); the registration of collectors. A bufio.Reader is a value: a reader used after its release, which a server that reads past the end of a stream would do, is
  not shared with its next user. Go's memory model: actions on \<open>sync\<close> objects are
  atomic, and so is every single access to the map and the slice of the upstreams, except that a map is
  being written from the start of an assignment to its end. In \<open>proxy_run\<close> a request is served as a whole; in
  \<open>session_run\<close> each call of a handler is, among them \<open>PipeCopy\<close> and the operations of the pools, whose own
  interleavings are those of \<open>PoolConcurrency\<close> and \<open>UpstreamRace\<close>.
\<close>

section \<open>The proxy in service: requests at the same time\<close>

lemma started_sessions:
  assumes "ParseFlags url_Parse pd args = Inr v" and "v_MaxConnections v < 2 ^ 31"
    and "run url_Parse pd L args (proxy_init e ups) = (Serving l, s)"
  shows "sessions_ok ([], s)" "one_owner (owner [] s) k"
    "maxUpstreamConnectionsPerHost s = (if v_MaxConnections v < 1 then 100 else v_MaxConnections v)"
proof -
  from run_serving [OF assms(3)] assms(1) have "runWith url_Parse L v (proxy_init e ups) = (Inr l, s)"
    by (metis sum.inject(2))
  note start = started_pools [OF this assms(2)]
  show "sessions_ok ([], s)" using start(1,2) by (simp add: sessions_ok_def held_at_def)
  show "one_owner (owner [] s) k" by (rule owner_start [OF start(4)])
  show "maxUpstreamConnectionsPerHost s = (if v_MaxConnections v < 1 then 100 else v_MaxConnections v)"
    by (rule start(3))
qed

text \<open>
  C1. The configured limit holds for requests served at the same time: after a start with
  arguments that set a limit below 2^31, however the steps of any number of handlers and the Reads of the
  bodies interleave, the connections in use at an upstream are exactly those that some request
  has in its hands, from Acquire to its CloseAndDrop or until its body stream gives it back, and with the
  idle ones there are never more of them than the limit (100 if the argument is below 1). Each call of a
  handler is one step here; the actions inside two calls of Acquire can interleave too, and then the limit can be
  passed (\<open>limit_race\<close>).
\<close>
theorem sessions_respect_limit:
  fixes E :: "('e, 'x) proxy_env_scheme"
  assumes "ParseFlags url_Parse pd args = Inr v" and "v_MaxConnections v < 2 ^ 31"
    and "run url_Parse pd L args (proxy_init e ups) = (Serving l, s)"
    and "session_run url_Parse E ops ([], s) = Some (xs, t)"
  shows "in_use a t = held_at a xs \<and>
    held_at a xs + int (length (idle_list a t)) \<le>
      (if v_MaxConnections v < 1 then 100 else v_MaxConnections v)"
proof -
  note start = started_sessions [OF assms(1-3)]
  from session_run_ok [OF start(1) assms(4)] have "pool_wf t" "in_use a t = held_at a xs"
    "maxUpstreamConnectionsPerHost t = maxUpstreamConnectionsPerHost s"
    by (simp_all add: sessions_ok_def)
  with pool_wfD(4) [of t a] start(3) show ?thesis by (simp add: in_use_def)
qed

theorem sessions_respect_limit_witness:
  "\<exists>l s xs t. run sample_url_Parse (\<lambda>_. None) no_files [''--max-conns=1'']
       (proxy_init (0, []) (NewUpstreams sample_url_Parse [])) = (Serving l, s) \<and>
     session_run sample_url_Parse busy_env [NewRequest sample_request, NewRequest sample_request,
       Advance 0, Advance 1, Advance 0, Advance 1] ([], s) = Some (xs, t) \<and>
     held_at ''http://h'' xs + int (length (idle_list ''http://h'' t)) \<le> 1"
proof -
  let ?args = "[''--max-conns=1'']"
  have cl: "classify ''--max-conns=1'' = FlagArg ''max-conns'' (Some ''1'')"
    by (simp add: classify_def split_name_def)
  have n: "ParseInt ''1'' = Some 1" by code_simp
  obtain v where v: "ParseFlags sample_url_Parse (\<lambda>_. None) ?args = Inr v"
    and m: "v_MaxConnections v = 1" and tls: "\<not> v_TLSEnabled v"
    by (simp add: ParseFlags_def cl n set_in_def defined_flags_def values_of_def)
  obtain l s where run: "run sample_url_Parse (\<lambda>_. None) no_files ?args
      (proxy_init ((0, []) :: sample_state) (NewUpstreams sample_url_Parse [])) = (Serving l, s)"
    using v tls by (simp add: run_def runWith_def Let_def)
  obtain xs t where ex: "session_run sample_url_Parse busy_env [NewRequest sample_request,
      NewRequest sample_request, Advance 0, Advance 1, Advance 0, Advance 1] ([], s) = Some (xs, t)"
    using busy_returns by blast
  have "held_at ''http://h'' xs + int (length (idle_list ''http://h'' t)) \<le> 1"
    using sessions_respect_limit [OF v _ run ex, of "''http://h''"] m by simp
  with run ex show ?thesis by blast
qed

text \<open>
  C2. No two requests ever share a connection: after a start, however handlers and Reads interleave, two
  requests that hold a connection, whether they are still writing to it or stream a body from
  it, hold different sockets, wrapped in TLS or not, a held socket is in no idle list, and no socket is idle
  twice, at one upstream or at two. Sockets are assumed to be new when dialled.
\<close>
theorem sessions_share_nothing:
  fixes E :: "('e, 'x) proxy_env_scheme"
  assumes "ParseFlags url_Parse pd args = Inr v" and "v_MaxConnections v < 2 ^ 31"
    and "run url_Parse pd L args (proxy_init e ups) = (Serving l, s)"
    and "fresh_sockets E used" and "session_run url_Parse E ops ([], s) = Some (xs, t)"
  shows "(\<forall>i j a b c d. i < j \<and> j < length xs \<and> held (xs ! i) = Some (a, c) \<and> held (xs ! j) = Some (b, d) \<longrightarrow>
      socket c \<noteq> socket d) \<and>
    (\<forall>i a c b x. i < length xs \<and> held (xs ! i) = Some (a, c) \<and> x \<in> set (idle_list b t) \<longrightarrow>
      socket c \<noteq> socket (idle_conn x)) \<and>
    (\<forall>a. distinct (map (socket \<circ> idle_conn) (idle_list a t))) \<and>
    (\<forall>a b x y. a \<noteq> b \<and> x \<in> set (idle_list a t) \<and> y \<in> set (idle_list b t) \<longrightarrow>
      socket (idle_conn x) \<noteq> socket (idle_conn y))"
proof -
  note start = started_sessions [OF assms(1-3)]
  have "one_owner (owner (map claim []) s) (used (ext s))" using start(2) by simp
  from session_run_owner [OF assms(4) start(1) this assms(5)]
  have "one_owner (owner (map claim xs) t) (used (ext t))" .
  note places = one_owner_sessions [OF this]
  show ?thesis
  proof (intro conjI allI impI; (elim conjE)?)
    show "socket c \<noteq> socket d" if "i < j" "j < length xs" "held (xs ! i) = Some (a, c)" "held (xs ! j) = Some (b, d)"
      for i j a b c d using places(1) [of i j a c b d] that by simp
    show "socket c \<noteq> socket (idle_conn x)"
      if "i < length xs" "held (xs ! i) = Some (a, c)" "x \<in> set (idle_list b t)"
      for i a c b x by (rule places(2) [OF that])
    show "socket (idle_conn x) \<noteq> socket (idle_conn y)"
      if "a \<noteq> b" "x \<in> set (idle_list a t)" "y \<in> set (idle_list b t)" for a b x y
      by (rule places(4) [OF that])
  qed (rule places(3))
qed

theorem sessions_share_nothing_witness:
  "\<exists>l s xs t. run sample_url_Parse (\<lambda>_. None) no_files []
       (proxy_init (0, []) (NewUpstreams sample_url_Parse [])) = (Serving l, s) \<and>
     session_run sample_url_Parse busy_env [NewRequest sample_request, NewRequest sample_request,
       Advance 0, Advance 1, Advance 0, Advance 1] ([], s) = Some (xs, t) \<and>
     distinct (map idle_conn (idle_list ''http://h'' t))"
proof -
  have v: "ParseFlags sample_url_Parse (\<lambda>_. None) [] = Inr default_values"
    by (simp add: ParseFlags_def values_of_def defined_flags_def default_values_def)
  have m: "v_MaxConnections default_values < 2 ^ 31" "\<not> v_TLSEnabled default_values"
    by (simp_all add: default_values_def)
  obtain l s where run: "run sample_url_Parse (\<lambda>_. None) no_files []
      (proxy_init ((0, []) :: sample_state) (NewUpstreams sample_url_Parse [])) = (Serving l, s)"
    using v m(2) by (simp add: run_def runWith_def Let_def)
  obtain xs t where ex: "session_run sample_url_Parse busy_env [NewRequest sample_request,
      NewRequest sample_request, Advance 0, Advance 1, Advance 0, Advance 1] ([], s) = Some (xs, t)"
    using busy_returns by blast
  from sessions_share_nothing [OF v m(1) run busy_fresh ex]
  have "distinct (map idle_conn (idle_list ''http://h'' t))" using distinct_socket_conns by blast
  with run ex show ?thesis by blast
qed

text \<open>The sample network with the proxy started on its defaults.\<close>

definition busy_start :: "sample_state proxy_sys" where
  "busy_start = snd (runWith sample_url_Parse no_files default_values
     (proxy_init (0, []) (NewUpstreams sample_url_Parse [])))"

lemma busy_args: "ParseFlags sample_url_Parse (\<lambda>_. None) [] = Inr default_values"
  "v_MaxConnections default_values < 2 ^ 31"
  by (simp_all add: ParseFlags_def values_of_def defined_flags_def default_values_def)

lemma busy_run:
  "\<exists>l. run sample_url_Parse (\<lambda>_. None) no_files []
     (proxy_init (0, []) (NewUpstreams sample_url_Parse [])) = (Serving l, busy_start)"
  by (simp add: run_def busy_args busy_start_def runWith_def Let_def default_values_def)

lemmas busy_eval =
  busy_start_def runWith_def default_values_def Handler_def TLSConfig_def MaxConnectionsPerHost_def
  IdleTimeout_def HTTPDialerTimeout_def settings_sel BufferSize_def PipeCopyBufferSize_def set_gauge_def
  writer_Reset_def settle_def busy_env_def serve_eval

lemma busy_sessions:
  "\<exists>xs t h xs' t' h'. session_run sample_url_Parse busy_env
       [NewRequest sample_request, Advance 0, NewRequest sample_request, Advance 0, Advance 1] ([], busy_start) =
       Some (xs, t) \<and>
     session_run sample_url_Parse busy_env [Advance 1, Advance 0, Advance 1, Advance 0] (xs, t) = Some (xs', t') \<and>
     0 < length xs \<and> xs ! 0 = Handling WritingHeaders h \<and> h_ctx h = sample_request \<and>
     h_connection h = Some (NetConn 0) \<and> xs' ! 0 = Handling ReadingHeaders h'"
  by (simp add: busy_eval)

text \<open>
  C3. Requests that are forwarded at the same time do not mix: after a start, take a request that has
  just been given its connection and follow it, through any interleaving with the steps of other
  handlers and the Reads of other bodies, until it waits for its response. In between, what was written to
  its connection by anybody is the header of the request that arrived and then its body, byte by byte and nothing
  else; no such write failed, and nobody closed the connection.
\<close>
theorem concurrent_requests_forwarded:
  fixes E :: "('e, 'x) proxy_env_scheme"
  assumes "ParseFlags url_Parse pd args = Inr v" and "v_MaxConnections v < 2 ^ 31"
    and "run url_Parse pd L args (proxy_init e ups) = (Serving l, s)"
    and "writes_all E" and "fresh_sockets E used"
    and "session_run url_Parse E ops0 ([], s) = Some (xs, t)" and "i < length xs"
    and "xs ! i = Handling WritingHeaders h" and "h_connection h = Some c"
    and "session_run url_Parse E ops (xs, t) = Some (xs', t')"
    and "xs' ! i = Handling st' h'" and "st' \<in> {ReadingHeaders, CopyingStatus, Streaming}"
  shows "\<exists>evs. trace t' = trace t @ evs \<and> request_sent c (arrivals ops0 ! i) evs \<and> list_all (intact c) evs \<and>
    h_connection h' = Some c"
proof -
  note start = started_sessions [OF assms(1-3)]
  have "one_owner (owner (map claim []) s) (used (ext s))" using start(2) by simp
  note own = session_run_owner [OF assms(5) start(1) this assms(6)]
  from session_run_ok [OF start(1) assms(6)] have ok: "sessions_ok (xs, t)" by blast
  have "map serves xs ! i = arrivals ops0 ! i" using session_run_serves [OF assms(6)] by simp
  with assms(7,8) have req: "h_ctx h = arrivals ops0 ! i" by simp
  have "carries c (h_ctx h) (xs ! i) []" using assms(8,9) by (simp add: carries_def)
  with session_run_carries [OF assms(4,5) ok own assms(10,7), where tr = "trace t" and evs = "[]"]
  obtain evs where "trace t' = trace t @ evs" "carries c (h_ctx h) (xs' ! i) evs"
    using assms(11,12) by auto
  with assms(11,12) req show ?thesis by (auto simp: carries_def)
qed

theorem concurrent_requests_forwarded_witness:
  "\<exists>xs t xs' t' evs. session_run sample_url_Parse busy_env
       [NewRequest sample_request, Advance 0, NewRequest sample_request, Advance 0, Advance 1] ([], busy_start) =
       Some (xs, t) \<and>
     session_run sample_url_Parse busy_env [Advance 1, Advance 0, Advance 1, Advance 0] (xs, t) = Some (xs', t') \<and>
     trace t' = trace t @ evs \<and> request_sent (NetConn 0) sample_request evs"
proof -
  obtain l where run: "run sample_url_Parse (\<lambda>_. None) no_files []
      (proxy_init (0, []) (NewUpstreams sample_url_Parse [])) = (Serving l, busy_start)" using busy_run by blast
  obtain xs t h xs' t' h' where ex: "session_run sample_url_Parse busy_env
      [NewRequest sample_request, Advance 0, NewRequest sample_request, Advance 0, Advance 1] ([], busy_start) =
      Some (xs, t)"
    "session_run sample_url_Parse busy_env [Advance 1, Advance 0, Advance 1, Advance 0] (xs, t) = Some (xs', t')"
    "0 < length xs" "xs ! 0 = Handling WritingHeaders h" "h_ctx h = sample_request"
    "h_connection h = Some (NetConn 0)" "xs' ! 0 = Handling ReadingHeaders h'"
    using busy_sessions by blast
  have w: "writes_all busy_env" by (simp add: busy_env_def sample_writes_all)
  from concurrent_requests_forwarded [OF busy_args run w busy_fresh ex(1,3,4,6,2,7)] ex show ?thesis by auto
qed

text \<open>The proxy started on its defaults in front of upstreams that send each a response of their own.\<close>

definition lines_start :: "lines proxy_sys" where
  "lines_start = snd (runWith sample_url_Parse no_files default_values
     (proxy_init (0, \<lambda>n. [9, of_nat n, 5]) (NewUpstreams sample_url_Parse [])))"

lemma lines_run:
  "\<exists>l. run sample_url_Parse (\<lambda>_. None) no_files []
     (proxy_init (0, \<lambda>n. [9, of_nat n, 5]) (NewUpstreams sample_url_Parse [])) = (Serving l, lines_start)"
  by (simp add: run_def busy_args lines_start_def runWith_def Let_def default_values_def)

lemma lines_sessions:
  "\<exists>xs t h xs' t' h' pr. session_run sample_url_Parse lines_env
       [NewRequest sample_request, NewRequest sample_request, Advance 0, Advance 1, Advance 0, Advance 1,
        Advance 0, Advance 1, Advance 0, Advance 1] ([], lines_start) = Some (xs, t) \<and>
     session_run sample_url_Parse lines_env
       [Advance 1, Advance 0, Advance 1, Advance 0, Advance 0, Advance 1, ReadBody 0 1, ReadBody 1 2, ReadBody 0 1] (xs, t) =
       Some (xs', t') \<and>
     0 < length xs \<and> xs ! 0 = Handling ReadingHeaders h \<and> h_connection h = Some (NetConn 0) \<and>
     xs' ! 0 = Streamed h' pr \<and>
     session_log sample_url_Parse lines_env
       [NewRequest sample_request, NewRequest sample_request, Advance 0, Advance 1, Advance 0, Advance 1,
        Advance 0, Advance 1, Advance 0, Advance 1] ([], lines_start) = [] \<and>
     session_log sample_url_Parse lines_env
       [Advance 1, Advance 0, Advance 1, Advance 0, Advance 0, Advance 1, ReadBody 0 1, ReadBody 1 2, ReadBody 0 1] (xs, t) =
       [(0, [0], None), (1, [1, 5], None), (0, [5], None)]"
  by (simp add: lines_start_def busy_eval body_streams_def line_of_def sample_body_eval)

text \<open>
  C4. Responses that are streamed at the same time do not mix: take a request that is about to read the
  header of its response and follow it, through any interleaving with the steps of other handlers
  and the Reads of other bodies, until its body is being streamed. What its client has
  read by then is, in order and without a gap, what its connection delivers after the header that
  fasthttp has read from it; nobody else has taken a byte. For a known length it has read exactly what
  is no longer missing of it, and if the connection has not been given back, the rest is still there. The
  connections are assumed to be separate byte streams, sockets to be new when dialled, and the server to read
  no body further after an error or EOF.
\<close>
theorem concurrent_responses_delivered:
  fixes E :: "('e, 'x) proxy_env_scheme"
  assumes "ParseFlags url_Parse pd args = Inr v" and "v_MaxConnections v < 2 ^ 31"
    and "run url_Parse pd L args (proxy_init e ups) = (Serving l, s)"
    and "separate_streams E feed" and "fresh_sockets E used"
    and "session_run url_Parse E ops0 ([], s) = Some (xs, t)" and "i < length xs"
    and "xs ! i = Handling ReadingHeaders h" and "h_connection h = Some c"
    and "session_run url_Parse E ops (xs, t) = Some (xs', t')" and "xs' ! i = Streamed h' pr"
    and "server_stops (session_log url_Parse E ops0 ([], s) @ session_log url_Parse E ops (xs, t))"
  shows "\<exists>hdr rest bytes. bytes = read_bytes (reads_of i (session_log url_Parse E ops (xs, t))) \<and>
    h_responseHeader h' = Some hdr \<and> header_left E feed c (feed c (ext t)) hdr (bytes @ rest) \<and>
    (0 \<le> rh_ContentLength hdr \<longrightarrow> 0 \<le> pr_remain pr \<and>
       int (length bytes) = rh_ContentLength hdr - pr_remain pr) \<and>
    (\<not> pr_returned pr \<longrightarrow> rest = unread feed (tr_reader (pr_reader pr)) t')"
proof -
  note start = started_sessions [OF assms(1-3)]
  have "one_owner (owner (map claim []) s) (used (ext s))" using start(2) by simp
  note own = session_run_owner [OF assms(5) start(1) this assms(6)]
  from session_run_ok [OF start(1) assms(6)] have ok: "sessions_ok (xs, t)" by blast
  have "reads_apart [] []" by (simp add: reads_apart_def)
  from session_run_own [OF assms(4) start(1) this assms(6)] server_stops_before [OF assms(12)]
  have apart: "reads_apart (session_log url_Parse E ops0 ([], s)) xs" by simp
  have "delivers E feed c (feed c (ext t)) (xs ! i) [] t" using assms(8,9) by simp
  from session_run_delivers [OF assms(4,5) ok own apart assms(10,12,7) this] assms(11)
  show ?thesis by (auto simp: algebra_simps)
qed

theorem concurrent_responses_delivered_witness:
  "\<exists>xs t xs' t' rest. session_run sample_url_Parse lines_env
       [NewRequest sample_request, NewRequest sample_request, Advance 0, Advance 1, Advance 0, Advance 1,
        Advance 0, Advance 1, Advance 0, Advance 1] ([], lines_start) = Some (xs, t) \<and>
     session_run sample_url_Parse lines_env
       [Advance 1, Advance 0, Advance 1, Advance 0, Advance 0, Advance 1, ReadBody 0 1, ReadBody 1 2, ReadBody 0 1] (xs, t) =
       Some (xs', t') \<and>
     (\<exists>hdr. header_left lines_env line_of (NetConn 0) (line_of (NetConn 0) (ext t)) hdr ([0, 5] @ rest))"
proof -
  obtain l where run: "run sample_url_Parse (\<lambda>_. None) no_files []
      (proxy_init (0, \<lambda>n. [9, of_nat n, 5]) (NewUpstreams sample_url_Parse [])) = (Serving l, lines_start)"
    using lines_run by blast
  obtain xs t h xs' t' h' pr where ex: "session_run sample_url_Parse lines_env
       [NewRequest sample_request, NewRequest sample_request, Advance 0, Advance 1, Advance 0, Advance 1,
        Advance 0, Advance 1, Advance 0, Advance 1] ([], lines_start) = Some (xs, t)"
    "session_run sample_url_Parse lines_env
       [Advance 1, Advance 0, Advance 1, Advance 0, Advance 0, Advance 1, ReadBody 0 1, ReadBody 1 2, ReadBody 0 1] (xs, t) =
       Some (xs', t')"
    "0 < length xs" "xs ! 0 = Handling ReadingHeaders h" "h_connection h = Some (NetConn 0)"
    "xs' ! 0 = Streamed h' pr"
    "session_log sample_url_Parse lines_env
       [NewRequest sample_request, NewRequest sample_request, Advance 0, Advance 1, Advance 0, Advance 1,
        Advance 0, Advance 1, Advance 0, Advance 1] ([], lines_start) = []"
    "session_log sample_url_Parse lines_env
       [Advance 1, Advance 0, Advance 1, Advance 0, Advance 0, Advance 1, ReadBody 0 1, ReadBody 1 2, ReadBody 0 1] (xs, t) =
       [(0, [0], None), (1, [1, 5], None), (0, [5], None)]"
    using lines_sessions by blast
  have "server_stops ([] @ [(0, [0], None), (1, [1, 5], None), (0, [5], None)])"
    by (simp add: server_stops_def reads_of_def)
  from concurrent_responses_delivered [OF busy_args run lines_separate lines_fresh ex(1,3,4,5,2,6),
      unfolded ex(7,8), OF this] ex show ?thesis
    by (auto simp: reads_of_def)
qed

section \<open>An upstream that does not answer\<close>

text \<open>
  C8. A silent upstream takes its slots for good: the handler reads the response header without a
  deadline, so a request that waits for it on a connection from which neither a header nor an error
  ever comes still waits after any further run of the other requests, and its connection stays in
  use. When as many requests wait for an upstream as the limit allows, every attempt to get
  a connection to it fails from then on, with nothing dialled.
\<close>
theorem silent_upstream_holds:
  fixes E :: "('e, 'x) proxy_env_scheme"
  assumes "ParseFlags url_Parse pd args = Inr v" and "v_MaxConnections v < 2 ^ 31"
    and "run url_Parse pd L args (proxy_init e ups) = (Serving l, s)"
    and "session_run url_Parse E ops0 ([], s) = Some (xs, t)"
    and "session_run url_Parse E ops (xs, t) = Some (xs', t')"
  shows "(\<forall>i. i < length xs \<and> waits_forever E a (xs ! i) \<longrightarrow> xs' ! i = xs ! i) \<and>
    int (length (filter (waits_forever E a) xs)) \<le> in_use a t' \<and>
    ((if v_MaxConnections v < 1 then 100 else v_MaxConnections v) \<le>
        int (length (filter (waits_forever E a) xs)) \<longrightarrow>
      fst (AcquireUpstreamConnection E a t') = Inl ErrDialTimeout \<and>
      trace (snd (AcquireUpstreamConnection E a t')) = trace t')"
proof -
  note start = started_sessions [OF assms(1-3)]
  from session_run_ok [OF start(1) assms(4)] have t: "sessions_ok (xs, t)"
    "maxUpstreamConnectionsPerHost t = maxUpstreamConnectionsPerHost s" by simp_all
  from session_run_ok [OF t(1) assms(5)] t(2) have wf: "pool_wf t'" "in_use a t' = held_at a xs'"
    "maxUpstreamConnectionsPerHost t' = maxUpstreamConnectionsPerHost s" by (simp_all add: sessions_ok_def)
  note stay = session_run_waits [OF assms(5)]
  have held: "int (length (filter (waits_forever E a) xs)) \<le> in_use a t'"
    unfolding wf(2) by (rule waiting_holds) (rule stay)
  have "AcquireUpstreamConnection E a t' = (Inl ErrDialTimeout, upd_pool a id t')"
    if "(if v_MaxConnections v < 1 then 100 else v_MaxConnections v) \<le>
        int (length (filter (waits_forever E a) xs))"
    by (rule full_acquire [OF wf(1)]) (use that held wf(3) start(3) in linarith)
  with stay held show ?thesis by auto
qed

text \<open>An upstream that takes requests and says nothing, behind a proxy with a limit of one connection.\<close>

definition mute_env :: "sample_state proxy_env" where
  "mute_env = (proxy_sample_env response_header_zero)\<lparr>header_Read := (\<lambda>br st. None)\<rparr>"

lemma mute_env_sel [simp]:
  "time_Now mute_env = time_Now sample_env" "rand_Intn mute_env = rand_Intn sample_env"
  "dial_call mute_env = dial_call sample_env" "conn_Close mute_env = conn_Close sample_env"
  "conn_Write mute_env = conn_Write sample_env" "conn_Read mute_env = conn_Read sample_env"
  "body_Read mute_env = body_Read sample_env" "pool_Get mute_env = pool_Get sample_env"
  "header_Read mute_env br st = None"
  by (simp_all add: mute_env_def)

definition mute_start :: "sample_state proxy_sys" where
  "mute_start = snd (runWith sample_url_Parse no_files (default_values\<lparr>v_MaxConnections := 1\<rparr>)
     (proxy_init (0, []) (NewUpstreams sample_url_Parse [])))"

lemma mute_args: "ParseFlags sample_url_Parse (\<lambda>_. None) [''--max-conns=1''] =
    Inr (default_values\<lparr>v_MaxConnections := 1\<rparr>)"
proof -
  have cl: "classify ''--max-conns=1'' = FlagArg ''max-conns'' (Some ''1'')"
    by (simp add: classify_def split_name_def)
  have n: "ParseInt ''1'' = Some 1" by code_simp
  show ?thesis
    by (simp add: ParseFlags_def cl n set_in_def defined_flags_def values_of_def default_values_def)
qed

lemma mute_run:
  "\<exists>l. run sample_url_Parse (\<lambda>_. None) no_files [''--max-conns=1'']
     (proxy_init (0, []) (NewUpstreams sample_url_Parse [])) = (Serving l, mute_start)"
  by (simp add: run_def mute_args mute_start_def runWith_def Let_def default_values_def)

lemma mute_sessions:
  "\<exists>xs t xs' t'. session_run sample_url_Parse mute_env
       [NewRequest sample_request, Advance 0, Advance 0, Advance 0, Advance 0] ([], mute_start) = Some (xs, t) \<and>
     session_run sample_url_Parse mute_env [NewRequest sample_request, Advance 1, Advance 1] (xs, t) = Some (xs', t') \<and>
     length (filter (waits_forever mute_env ''http://h'') xs) = 1"
  by (simp add: mute_start_def busy_eval waits_forever_def)

theorem silent_upstream_holds_witness:
  "\<exists>xs t xs' t'. session_run sample_url_Parse mute_env
       [NewRequest sample_request, Advance 0, Advance 0, Advance 0, Advance 0] ([], mute_start) = Some (xs, t) \<and>
     session_run sample_url_Parse mute_env [NewRequest sample_request, Advance 1, Advance 1] (xs, t) = Some (xs', t') \<and>
     fst (AcquireUpstreamConnection mute_env ''http://h'' t') = Inl ErrDialTimeout"
proof -
  obtain l where run: "run sample_url_Parse (\<lambda>_. None) no_files [''--max-conns=1'']
      (proxy_init (0, []) (NewUpstreams sample_url_Parse [])) = (Serving l, mute_start)"
    using mute_run by blast
  obtain xs t xs' t' where ex: "session_run sample_url_Parse mute_env
       [NewRequest sample_request, Advance 0, Advance 0, Advance 0, Advance 0] ([], mute_start) = Some (xs, t)"
    "session_run sample_url_Parse mute_env [NewRequest sample_request, Advance 1, Advance 1] (xs, t) = Some (xs', t')"
    "length (filter (waits_forever mute_env ''http://h'') xs) = 1"
    using mute_sessions by blast
  from silent_upstream_holds [OF mute_args _ run ex(1,2), of "''http://h''"] ex show ?thesis by simp
qed

section \<open>The proxy in service: one request at a time\<close>

text \<open>Requests to the silent network of the examples always return.\<close>

lemma silent_requests:
  "\<exists>prs' t. proxy_run sample_url_Parse silent_env (replicate n (Request sample_request)) (prs, s) = Some (prs', t)"
proof (induction n arbitrary: prs s)
  case 0
  then show ?case by simp
next
  case (Suc n)
  have "\<exists>h s'. serve sample_url_Parse silent_env sample_request s = Some (h, s')"
    by (rule serve_total [where m = "\<lambda>e :: sample_state. 0"]) (simp_all add: writes_all_def upstream_answers_def sample_request_def)
  then obtain h s1 where "serve sample_url_Parse silent_env sample_request s = Some (h, s1)" by blast
  with Suc [of "prs @ body_streams h" s1] show ?case by simp
qed

text \<open>
  The configured limit holds in service: after a start with arguments that set a limit
  below 2^31, in whatever order requests are served and the bodies of their responses are
  read, the connections in use at an upstream are exactly those held by response bodies
  that have not given theirs back, and with the idle ones there are never more of them than the limit
  (100 if the argument is below 1).
\<close>
theorem proxy_respects_limit:
  fixes E :: "('e, 'x) proxy_env_scheme"
  assumes "ParseFlags url_Parse pd args = Inr v" and "v_MaxConnections v < 2 ^ 31"
    and "run url_Parse pd L args (proxy_init e ups) = (Serving l, s)"
    and "proxy_run url_Parse E ops ([], s) = Some (prs, t)"
  shows "in_use a t = open_streams a prs \<and>
    open_streams a prs + int (length (idle_list a t)) \<le>
      (if v_MaxConnections v < 1 then 100 else v_MaxConnections v)"
proof -
  from run_serving [OF assms(3)] assms(1) have "runWith url_Parse L v (proxy_init e ups) = (Inr l, s)"
    by (metis sum.inject(2))
  note start = started_pools [OF this assms(2)]
  then have "accounted ([], s)" by (simp add: accounted_def)
  from run_accounted [OF this assms(4)] have "pool_wf t" "in_use a t = open_streams a prs"
    "maxUpstreamConnectionsPerHost t = maxUpstreamConnectionsPerHost s"
    by (simp_all add: accounted_def)
  with pool_wfD(4) [of t a] start(3) show ?thesis by (simp add: in_use_def)
qed

theorem proxy_respects_limit_witness:
  "\<exists>l s prs t. run sample_url_Parse (\<lambda>_. None) no_files [''--max-conns=1'']
       (proxy_init (0, []) (NewUpstreams sample_url_Parse [])) = (Serving l, s) \<and>
     proxy_run sample_url_Parse silent_env [Request sample_request, ClientRead 0 4, Request sample_request] ([], s) =
       Some (prs, t) \<and>
     in_use ''http://h'' t + int (length (idle_list ''http://h'' t)) \<le> 1"
proof -
  let ?args = "[''--max-conns=1'']"
  have cl: "classify ''--max-conns=1'' = FlagArg ''max-conns'' (Some ''1'')"
    by (simp add: classify_def split_name_def)
  have n: "ParseInt ''1'' = Some 1" by code_simp
  obtain v where v: "ParseFlags sample_url_Parse (\<lambda>_. None) ?args = Inr v"
    and m: "v_MaxConnections v = 1" and tls: "\<not> v_TLSEnabled v"
    by (simp add: ParseFlags_def cl n set_in_def defined_flags_def values_of_def)
  obtain l s where run: "run sample_url_Parse (\<lambda>_. None) no_files ?args
      (proxy_init ((0, []) :: sample_state) (NewUpstreams sample_url_Parse [])) = (Serving l, s)"
    using v tls by (simp add: run_def runWith_def Let_def)
  have total: "\<exists>h s'. serve sample_url_Parse silent_env sample_request u = Some (h, s')"
    for u :: "sample_state proxy_sys"
    by (rule serve_total [where m = "\<lambda>e :: sample_state. 0"]) (simp_all add: writes_all_def upstream_answers_def sample_request_def)
  have serves: "\<exists>st'. proxy_step sample_url_Parse silent_env (Request sample_request) st = Some st'"
    for st :: "sample_state proxy_sys body_stream list \<times> sample_state proxy_sys"
    using total [of "snd st"] by (cases st) auto
  have reads: "\<exists>st'. proxy_step sample_url_Parse silent_env (ClientRead i k) st = Some st'"
    for i k and st :: "sample_state proxy_sys body_stream list \<times> sample_state proxy_sys"
    by (cases st) (auto split: prod.split)
  obtain st1 where 1: "proxy_step sample_url_Parse silent_env (Request sample_request) ([], s) = Some st1"
    using serves by blast
  obtain st2 where 2: "proxy_step sample_url_Parse silent_env (ClientRead 0 4) st1 = Some st2"
    using reads by blast
  obtain prs t where 3: "proxy_step sample_url_Parse silent_env (Request sample_request) st2 = Some (prs, t)"
    using serves [of st2] by auto
  from 1 2 3 have ex: "proxy_run sample_url_Parse silent_env
      [Request sample_request, ClientRead 0 4, Request sample_request] ([], s) = Some (prs, t)"
    by (simp del: proxy_step.simps)
  have "in_use ''http://h'' t + int (length (idle_list ''http://h'' t)) \<le> 1"
    using proxy_respects_limit [OF v _ run ex, of "''http://h''"] m by simp
  with run ex show ?thesis by blast
qed

text \<open>
  No two clients ever share a connection: after a start, in whatever order requests are
  served and bodies are read, two responses that are still open read from
  different connections, the connection of an open response is in no idle list, and no connection
  is idle twice, at one upstream or at two. Sockets are assumed to be new when dialled.
\<close>
theorem connections_not_shared:
  fixes E :: "('e, 'x) proxy_env_scheme"
  assumes "ParseFlags url_Parse pd args = Inr v" and "v_MaxConnections v < 2 ^ 31"
    and "run url_Parse pd L args (proxy_init e ups) = (Serving l, s)"
    and "fresh_sockets E used" and "proxy_run url_Parse E ops ([], s) = Some (prs, t)"
  shows "(\<forall>i j. i < j \<and> j < length prs \<and> \<not> pr_returned (prs ! i) \<and> \<not> pr_returned (prs ! j) \<longrightarrow>
      pr_connection (prs ! i) \<noteq> pr_connection (prs ! j)) \<and>
    (\<forall>i a. i < length prs \<and> \<not> pr_returned (prs ! i) \<longrightarrow>
      pr_connection (prs ! i) \<notin> idle_conn ` set (idle_list a t)) \<and>
    (\<forall>a. distinct (map idle_conn (idle_list a t))) \<and>
    (\<forall>a b. a \<noteq> b \<longrightarrow> idle_conn ` set (idle_list a t) \<inter> idle_conn ` set (idle_list b t) = {})"
proof -
  from run_serving [OF assms(3)] assms(1) have "runWith url_Parse L v (proxy_init e ups) = (Inr l, s)"
    by (metis sum.inject(2))
  note start = started_pools [OF this assms(2)]
  have "accounted ([], s)" using start(1,2) by (simp add: accounted_def)
  from run_owner [OF assms(4) this owner_start [OF start(4)] assms(5)]
  have "one_owner (owner prs t) (used (ext t))" .
  note places = one_owner_places [OF this]
  show ?thesis
  proof (intro conjI allI impI; (elim conjE)?)
    show "pr_connection (prs ! i) \<noteq> pr_connection (prs ! j)"
      if "i < j" "j < length prs" "\<not> pr_returned (prs ! i)" "\<not> pr_returned (prs ! j)" for i j
      using places(1) [of i j] that by auto
    show "pr_connection (prs ! i) \<notin> idle_conn ` set (idle_list a t)"
      if "i < length prs" "\<not> pr_returned (prs ! i)" for i a using places(2) [OF that] by (metis imageE)
    show "idle_conn ` set (idle_list a t) \<inter> idle_conn ` set (idle_list b t) = {}" if "a \<noteq> b" for a b
      using places(4) [OF that] by fastforce
  qed (rule distinct_socket_conns [OF places(3)])
qed

theorem connections_not_shared_witness:
  "\<exists>l s prs t. run sample_url_Parse (\<lambda>_. None) no_files []
       (proxy_init (0, []) (NewUpstreams sample_url_Parse [])) = (Serving l, s) \<and>
     proxy_run sample_url_Parse silent_env [Request sample_request, Request sample_request] ([], s) =
       Some (prs, t) \<and> distinct (map idle_conn (idle_list ''http://h'' t))"
proof -
  have v: "ParseFlags sample_url_Parse (\<lambda>_. None) [] = Inr default_values"
    by (simp add: ParseFlags_def values_of_def defined_flags_def default_values_def)
  have m: "v_MaxConnections default_values < 2 ^ 31" "\<not> v_TLSEnabled default_values"
    by (simp_all add: default_values_def)
  obtain l s where run: "run sample_url_Parse (\<lambda>_. None) no_files []
      (proxy_init ((0, []) :: sample_state) (NewUpstreams sample_url_Parse [])) = (Serving l, s)"
    using v m(2) by (simp add: run_def runWith_def Let_def)
  obtain prs t where ex: "proxy_run sample_url_Parse silent_env [Request sample_request, Request sample_request] ([], s) =
      Some (prs, t)"
    using silent_requests [of 2 "[]" s] by (auto simp: numeral_2_eq_2)
  have "fresh_sockets silent_env (fst :: sample_state \<Rightarrow> nat)"
    unfolding fresh_sockets_def new_sockets_def by (simp add: sample_read_fst)
  from connections_not_shared [OF v m(1) run this ex]
  have "distinct (map idle_conn (idle_list ''http://h'' t))" by simp
  with run ex show ?thesis by blast
qed

text \<open>
  C15. Configured upstreams are the only ones ever used: after a start with a non-empty
  upstream list, that list is the comma-separated addresses of the last \<open>--upstreams\<close> flag of the
  command line, trimmed and with their scheme added, in order and no others; every request, whatever its Host
  says, goes to one of them, and no request changes the list.
\<close>
theorem configured_upstreams_only:
  fixes E :: "('e, 'x) proxy_env_scheme"
  assumes "ParseFlags url_Parse pd args = Inr v" and "v_Upstreams v \<noteq> []"
    and "run url_Parse pd L args s0 = (Serving l, s)" and "rand_in_range E"
    and "exchanges url_Parse E xs s = Some (hs, t)"
  shows "v_Upstreams v = map (with_scheme \<circ> TrimSpace)
      (Split (CHR '','') (last_given ''upstreams'' '''' (given_flags args))) \<and>
    (\<forall>h \<in> set hs. h_upstreamAddress h \<in> set (v_Upstreams v)) \<and>
    upstreamsObj t = NewUpstreams url_Parse (v_Upstreams v)"
proof -
  note ups = ParseFlags_upstreams [OF assms(1)]
  from run_serving [OF assms(3)] assms(1) have "runWith url_Parse L v s0 = (Inr l, s)"
    by (metis sum.inject(2))
  note obj = runWith_ok(7) [OF this]
  have "up_Address (stored_upstream url_Parse a) = a" if "a \<in> set (v_Upstreams v)" for a
    using ups(2) that by (simp add: stored_upstream_address)
  moreover have "v_Upstreams v = map (with_scheme \<circ> TrimSpace)
      (Split (CHR '','') (last_given ''upstreams'' '''' (given_flags args)))"
    using ups(1) assms(2) by (metis (full_types))
  ultimately show ?thesis using exchanges_upstreams [OF assms(4) obj assms(2,5)] by auto
qed

theorem configured_upstreams_only_witness:
  "\<exists>l s h t. run sample_url_Parse (\<lambda>_. None) no_files [''--upstreams=http://u'']
       (proxy_init (0, []) (NewUpstreams sample_url_Parse [])) = (Serving l, s) \<and>
     exchanges sample_url_Parse silent_env [(sample_request, [])] s = Some ([h], t) \<and>
     h_upstreamAddress h = ''http://u'' \<and> last_given ''upstreams'' '''' (given_flags [''--upstreams=http://u'']) = ''http://u''"
proof -
  let ?args = "[''--upstreams=http://u'']"
  have cl: "classify ''--upstreams=http://u'' = FlagArg ''upstreams'' (Some ''http://u'')"
    by (simp add: classify_def split_name_def)
  have "TrimSpace ''http://u'' = ''http://u''"
    by (rule TrimSpace_printable) (simp_all add: printable_def)
  then have "parseUpstreams sample_url_Parse ''http://u'' [] = Inr [''http://u'']"
    by (simp add: parseUpstreams_def addrAppend_def sample_url_simps HasPrefix_def PrefixHTTP_def)
  then obtain v where v: "ParseFlags sample_url_Parse (\<lambda>_. None) ?args = Inr v"
    and u: "v_Upstreams v = [''http://u'']" and tls: "\<not> v_TLSEnabled v"
    by (simp add: ParseFlags_def cl set_in_def defined_flags_def values_of_def)
  obtain l s where run: "run sample_url_Parse (\<lambda>_. None) no_files ?args
      (proxy_init ((0, []) :: sample_state) (NewUpstreams sample_url_Parse [])) = (Serving l, s)"
    using v tls by (simp add: run_def runWith_def Let_def)
  have "\<exists>h s'. serve sample_url_Parse silent_env sample_request s = Some (h, s')"
    by (rule serve_total [where m = "\<lambda>e :: sample_state. 0"]) (simp_all add: writes_all_def upstream_answers_def sample_request_def)
  then obtain h t where ex: "exchanges sample_url_Parse silent_env [(sample_request, [])] s = Some ([h], t)"
    by auto
  have "rand_in_range silent_env" by (simp add: rand_in_range_def)
  from configured_upstreams_only [OF v _ run this ex] u have "h_upstreamAddress h = ''http://u''" by simp
  moreover have "last_given ''upstreams'' '''' (given_flags ?args) = ''http://u''" by (simp add: cl)
  ultimately show ?thesis using run ex by blast
qed

end
